(* ===== verification/Prelude.thy ===== *)
theory Prelude
  imports Main "HOL-Library.Word" "HOL-Library.AList" "HOL-Library.Multiset"
begin

text \<open>
  Shared vocabulary of the development: what a C function can do besides returning a
  value, C strings, the error objects of the program, the machine integers and the
  generic facts on association lists, folds and words that the components use.
\<close>

unbundle bit_operations_syntax

named_theorems c_defs "definitions of the small C-level helpers, unfolded together"
named_theorems frame_simps "what a primitive leaves unchanged"

section \<open>Outcomes of C code\<close>

text \<open>
  \<open>Ret v\<close>: the function returns. \<open>Exit n\<close>: it calls \<open>exit(n)\<close>. \<open>Undef\<close>: it reaches
  undefined behaviour (a forged, dangling or null pointer is dereferenced, an
  indeterminate variable is read, or a store runs over the end of an object).
  \<open>Diverge\<close>: a loop of it never ends.
\<close>

datatype 'a outcome = Ret 'a | Exit int | Undef | Diverge

fun bind_outcome :: "'a outcome \<Rightarrow> ('a \<Rightarrow> 'b outcome) \<Rightarrow> 'b outcome" where
  "bind_outcome (Ret a) f = f a"
| "bind_outcome (Exit n) f = Exit n"
| "bind_outcome Undef f = Undef"
| "bind_outcome Diverge f = Diverge"

lemma bind_outcome_eq_Ret:
  "bind_outcome m f = Ret b \<longleftrightarrow> (\<exists>a. m = Ret a \<and> f a = Ret b)"
  by (cases m) auto

lemma bind_outcome_assoc:
  "bind_outcome (bind_outcome m f) g = bind_outcome m (\<lambda>a. bind_outcome (f a) g)"
  by (cases m) auto

lemma bind_outcome_Ret: "bind_outcome m Ret = m"
  by (cases m) auto

definition of_option :: "'a option \<Rightarrow> 'a outcome" where
  "of_option x = (case x of None \<Rightarrow> Diverge | Some v \<Rightarrow> Ret v)"

lemma of_option_simps [simp]:
  "of_option None = Diverge" "of_option (Some v) = Ret v"
  by (simp_all add: of_option_def)

section \<open>C strings\<close>

text \<open>
  A \<open>GString\<close> is a byte sequence that may hold NUL bytes. Code that reads its
  \<open>str\<close> field as a \<open>char *\<close> sees the bytes before the first NUL only.
\<close>

definition c_str :: "string \<Rightarrow> string" where
  "c_str s = takeWhile (\<lambda>c. c \<noteq> CHR 0x00) s"

definition nul_free :: "string \<Rightarrow> bool" where
  "nul_free s = list_all (\<lambda>c. c \<noteq> CHR 0x00) s"

lemma c_str_id [simp]: "nul_free s \<Longrightarrow> c_str s = s"
  by (simp add: c_str_def nul_free_def list_all_iff)

lemma nul_free_c_str [simp]: "nul_free (c_str s)"
  by (auto simp: c_str_def nul_free_def list_all_iff dest: set_takeWhileD)

lemma c_str_idem [simp]: "c_str (c_str s) = c_str s"
  by simp

lemma nul_free_iff: "nul_free s \<longleftrightarrow> c_str s = s"
  by (metis c_str_id nul_free_c_str)

text \<open>\<open>strcmp(a, b) == 0\<close>, the comparison of \<open>g_str_equal\<close> too.\<close>

definition c_streq :: "string \<Rightarrow> string \<Rightarrow> bool" where
  "c_streq a b \<longleftrightarrow> c_str a = c_str b"

section \<open>Error objects and error numbers\<close>

text \<open>
  A \<open>GError\<close> has a domain, a code and a message. Domain 0 is \<open>Quark0\<close>;
  \<open>IOPROCESS_COMMUNICATION_ERROR\<close> of the main program and
  \<open>IOPROCESS_GENERAL_ERROR\<close> are the same quark, made from the same string.
\<close>

datatype quark =
  Quark0 | IOPROCESS_ARGUMENT_ERROR | IOPROCESS_STDAPI_ERROR | IOPROCESS_GENERAL_ERROR

record gerror =
  domain :: quark
  code :: int
  message :: string

definition mk_error :: "quark \<Rightarrow> int \<Rightarrow> string \<Rightarrow> gerror" where
  "mk_error q c m = \<lparr>domain = q, code = c, message = m\<rparr>"

lemma mk_error_sel [simp]:
  "domain (mk_error q c m) = q" "code (mk_error q c m) = c" "message (mk_error q c m) = m"
  by (simp_all add: mk_error_def)

definition EINTR :: int where "EINTR = 4"
definition EIO :: int where "EIO = 5"
definition EBADF :: int where "EBADF = 9"
definition EAGAIN :: int where "EAGAIN = 11"
definition ENOMEM :: int where "ENOMEM = 12"
definition EFAULT :: int where "EFAULT = 14"
definition EINVAL :: int where "EINVAL = 22"
definition EPIPE :: int where "EPIPE = 32"

lemmas errno_defs = EINTR_def EIO_def EBADF_def EAGAIN_def ENOMEM_def EFAULT_def EINVAL_def EPIPE_def

section \<open>Machine integers\<close>

type_synonym c_int = "32 word"
type_synonym c_long = "64 word"
type_synonym c_double = "64 word"

text \<open>
  The conversion of an integer to an IEEE 754 double, as its 64 bits: sign, biased
  exponent, and the 53-bit significand rounded to nearest, ties to even. A carry out of
  the significand runs into the exponent field, as it should.
\<close>

fun bit_len :: "nat \<Rightarrow> nat" where
  "bit_len n = (if n \<le> 1 then 0 else Suc (bit_len (n div 2)))"

declare bit_len.simps [simp del]

definition round_half_even :: "nat \<Rightarrow> nat \<Rightarrow> nat" where
  "round_half_even m k =
     (let q = m div 2 ^ k; r = m mod 2 ^ k in
      if 2 * r < 2 ^ k then q
      else if 2 * r > 2 ^ k then Suc q
      else if even q then q else Suc q)"

definition double_of_int :: "int \<Rightarrow> c_double" where
  "double_of_int x =
     (if x = 0 then 0
      else let m = nat \<bar>x\<bar>; e = bit_len m;
               q = (if e \<le> 52 then m * 2 ^ (52 - e) else round_half_even m (e - 52));
               body = (e + 1023) * 2 ^ 52 + (q - 2 ^ 52)
           in word_of_nat (body + (if x < 0 then 2 ^ 63 else 0)))"

section \<open>Generic facts\<close>

lemma Suc_le_ex: "Suc k \<le> n \<longleftrightarrow> (\<exists>m. n = Suc m \<and> k \<le> m)"
  by (cases n) auto

lemma map_of_update_Some [simp]: "map_of (AList.update k v al) k = Some v"
  by (simp add: update_conv)

lemma map_of_update_other [simp]: "k \<noteq> k' \<Longrightarrow> map_of (AList.update k v al) k' = map_of al k'"
  by (simp add: update_conv)

lemma update_fresh: "k \<notin> fst ` set al \<Longrightarrow> AList.update k v al = al @ [(k, v)]"
  by (induction al) auto

lemma map_snd_update_const:
  "map (map_prod f g) (AList.update k v al) = AList.update (f k) (g v) (map (map_prod f g) al)"
  if "inj f"
  using that by (induction al) (auto simp: inj_eq)

section \<open>Doubles of small integers are exact\<close>

lemma bit_len_bounds: "0 < n \<Longrightarrow> 2 ^ bit_len n \<le> n \<and> n < 2 ^ Suc (bit_len n)"
proof (induction n rule: bit_len.induct)
  case (1 n)
  show ?case
  proof (cases "n \<le> 1")
    case True
    with 1 show ?thesis by (simp add: bit_len.simps [of n])
  next
    case False
    with 1 have "2 ^ bit_len (n div 2) \<le> n div 2 \<and> n div 2 < 2 ^ Suc (bit_len (n div 2))" by simp
    with False show ?thesis by (auto simp: bit_len.simps [of n])
  qed
qed

text \<open>The value of a double that is an integer, read off its three fields.\<close>

definition double_int :: "c_double \<Rightarrow> int" where
  "double_int d =
     (let b = unat d; e = b div 2 ^ 52 mod 2 ^ 11; m = (2 ^ 52 + b mod 2 ^ 52) div 2 ^ (1075 - e)
      in if d = 0 then 0 else if 2 ^ 63 \<le> b then - int m else int m)"

lemma high_low:
  fixes a f p :: nat
  assumes "f < p"
  shows "(a * p + f) div p = a" "(a * p + f) mod p = f"
  using assms by (simp_all add: div_mult_self3)

lemma double_fields:
  fixes e f :: nat
  assumes "e < 2 ^ 11" and "f < 2 ^ 52"
  shows "(e * 2 ^ 52 + f + 2 ^ 63) div 2 ^ 52 mod 2 ^ 11 = e" "(e * 2 ^ 52 + f + 2 ^ 63) mod 2 ^ 52 = f"
    "(e * 2 ^ 52 + f) div 2 ^ 52 mod 2 ^ 11 = e" "(e * 2 ^ 52 + f) mod 2 ^ 52 = f"
    "e * 2 ^ 52 + f < 2 ^ 63"
proof -
  have s: "e * 2 ^ 52 + f + 2 ^ 63 = (e + 2 ^ 11) * 2 ^ 52 + f" by simp
  have m: "(e + 2 ^ 11) mod 2 ^ 11 = e" "e mod 2 ^ 11 = e" using assms(1) by simp_all
  show "(e * 2 ^ 52 + f + 2 ^ 63) div 2 ^ 52 mod 2 ^ 11 = e" "(e * 2 ^ 52 + f + 2 ^ 63) mod 2 ^ 52 = f"
    unfolding s high_low [OF assms(2)] m by (rule refl)+
  show "(e * 2 ^ 52 + f) div 2 ^ 52 mod 2 ^ 11 = e" "(e * 2 ^ 52 + f) mod 2 ^ 52 = f"
    unfolding high_low [OF assms(2)] m by (rule refl)+
  have "Suc e * 2 ^ 52 \<le> 2 ^ 11 * 2 ^ 52" using assms(1) by (intro mult_le_mono1) simp
  then show "e * 2 ^ 52 + f < 2 ^ 63" using assms(2) by simp
qed

lemma double_of_int_exact:
  assumes "\<bar>x\<bar> < 2 ^ 53"
  shows "double_int (double_of_int x) = x"
proof (cases "x = 0")
  case True
  then show ?thesis by (simp add: double_of_int_def double_int_def)
next
  case False
  define m e f where "m = nat \<bar>x\<bar>" and "e = bit_len m" and "f = m * 2 ^ (52 - e) - 2 ^ 52"
  have m: "2 ^ e \<le> m" "m < 2 ^ Suc e" using bit_len_bounds [of m] False by (auto simp: m_def e_def)
  have "m < 2 ^ 53" using assms by (simp add: m_def)
  then have e: "e \<le> 52"
  proof -
    have "2 ^ e < (2 :: nat) ^ 53" using m(1) \<open>m < 2 ^ 53\<close> by linarith
    then have "e < 53" by (rule power_less_imp_less_exp [rotated]) simp
    then show ?thesis by simp
  qed
  have p: "(2 :: nat) ^ e * 2 ^ (52 - e) = 2 ^ 52" using e by (simp flip: power_add)
  have lo: "2 ^ 52 \<le> m * 2 ^ (52 - e)" using mult_le_mono1 [OF m(1), of "2 ^ (52 - e)"] p by simp
  have "m * 2 ^ (52 - e) < 2 ^ Suc e * 2 ^ (52 - e)" using m(2) by (intro mult_strict_right_mono) simp_all
  also have "\<dots> = 2 ^ 53" by (simp only: power_Suc mult.assoc p) simp
  finally have hi: "m * 2 ^ (52 - e) < 2 ^ 53" .
  have f: "f < 2 ^ 52" "2 ^ 52 + f = m * 2 ^ (52 - e)" using lo hi by (simp_all add: f_def)
  have ee: "e + 1023 < 2 ^ 11" "1075 - (e + 1023) = 52 - e" using e by simp_all
  note fields = double_fields [OF ee(1) f(1)]
  define w where "w = (e + 1023) * 2 ^ 52 + f + (if x < 0 then 2 ^ 63 else 0)"
  have w: "double_of_int x = word_of_nat w"
    using False e by (simp add: double_of_int_def Let_def m_def [symmetric] e_def [symmetric] f_def w_def)
  have wlt: "w < 2 ^ 64" using fields(5) by (simp add: w_def)
  then have u: "unat (word_of_nat w :: c_double) = w" by (simp add: unat_of_nat take_bit_nat_eq_self)
  have "0 < w" by (simp add: w_def)
  then have nz: "(word_of_nat w :: c_double) \<noteq> 0" using u by (metis not_less_zero unat_0)
  have fl: "w div 2 ^ 52 mod 2 ^ 11 = e + 1023" "w mod 2 ^ 52 = f" "2 ^ 63 \<le> w \<longleftrightarrow> x < 0"
    using fields by (simp_all add: w_def)
  have "(2 ^ 52 + f) div 2 ^ (52 - e) = m" unfolding f(2) by simp
  then show ?thesis
    unfolding w double_int_def Let_def u fl ee(2) using nz by (simp add: m_def)
qed

end
