(* ===== verification/Json_Dom.thy ===== *)
theory Json_Dom
  imports Prelude
begin

text \<open>
  The JSON document model of \<open>src/json-dom.h\<close> and \<open>src/json-dom.c\<close> at the level of
  values: a \<open>JsonNode\<close> with its \<open>data\<close> is a value of type \<open>json\<close>. A \<open>GHashTable\<close> with
  string keys is an association list with distinct keys (its iteration order is not
  specified and plays no role here), a \<open>GArray\<close> is a list. The node heap, with
  allocation, aliasing and \<open>JsonNode_free\<close>, is the subject of \<open>Json_Heap\<close>.
\<close>

section \<open>Nodes and their types\<close>

datatype JsonNodeType =
  JT_LONG | JT_STRING | JT_MAP | JT_ARRAY | JT_NULL | JT_BOOLEAN | JT_DOUBLE

fun jt_code :: "JsonNodeType \<Rightarrow> int" where
  "jt_code JT_LONG = 1"
| "jt_code JT_STRING = 2"
| "jt_code JT_MAP = 3"
| "jt_code JT_ARRAY = 4"
| "jt_code JT_NULL = 5"
| "jt_code JT_BOOLEAN = 6"
| "jt_code JT_DOUBLE = 7"

lemma jt_code_inject [simp]: "jt_code a = jt_code b \<longleftrightarrow> a = b"
  by (cases a; cases b) auto

instantiation JsonNodeType :: linorder
begin

definition less_eq_JsonNodeType :: "JsonNodeType \<Rightarrow> JsonNodeType \<Rightarrow> bool" where
  "less_eq_JsonNodeType a b \<longleftrightarrow> jt_code a \<le> jt_code b"

definition less_JsonNodeType :: "JsonNodeType \<Rightarrow> JsonNodeType \<Rightarrow> bool" where
  "less_JsonNodeType a b \<longleftrightarrow> jt_code a < jt_code b"

instance
  by standard (auto simp: less_eq_JsonNodeType_def less_JsonNodeType_def)

end

datatype json =
    JNull
  | JBoolean c_int
  | JLong c_long
  | JDouble c_double
  | JString string
  | JMap "(string \<times> json) list"
  | JArray "json list"

fun JsonNode_getType :: "json \<Rightarrow> JsonNodeType" where
  "JsonNode_getType JNull = JT_NULL"
| "JsonNode_getType (JBoolean b) = JT_BOOLEAN"
| "JsonNode_getType (JLong l) = JT_LONG"
| "JsonNode_getType (JDouble d) = JT_DOUBLE"
| "JsonNode_getType (JString s) = JT_STRING"
| "JsonNode_getType (JMap m) = JT_MAP"
| "JsonNode_getType (JArray a) = JT_ARRAY"

definition JsonNode_isContainer :: "json \<Rightarrow> bool" where
  "JsonNode_isContainer node =
     (case JsonNode_getType node of JT_MAP \<Rightarrow> True | JT_ARRAY \<Rightarrow> True | _ \<Rightarrow> False)"

text \<open>
  Reading the data of a node. The accessors do not look at its type: on a node of another
  type they read an object as what it is not.
\<close>

fun JsonNode_getBoolean :: "json \<Rightarrow> c_int outcome" where
  "JsonNode_getBoolean (JBoolean b) = Ret b"
| "JsonNode_getBoolean _ = Undef"

fun JsonNode_getLong :: "json \<Rightarrow> c_long outcome" where
  "JsonNode_getLong (JLong l) = Ret l"
| "JsonNode_getLong _ = Undef"

text \<open>The pointer itself, when it is one to a \<open>GString\<close>.\<close>

fun JsonNode_getString :: "json \<Rightarrow> string option" where
  "JsonNode_getString (JString s) = Some s"
| "JsonNode_getString _ = None"

section \<open>Constructors\<close>

definition JsonNode_newNull :: json where
  "JsonNode_newNull = JNull"

definition JsonNode_newFromBoolean :: "c_int \<Rightarrow> json" where
  "JsonNode_newFromBoolean b = JBoolean b"

definition JsonNode_newFromLong :: "c_long \<Rightarrow> json" where
  "JsonNode_newFromLong l = JLong l"

definition JsonNode_newFromDouble :: "c_double \<Rightarrow> json" where
  "JsonNode_newFromDouble d = JDouble d"

text \<open>\<open>g_string_new(s)\<close> copies the C string \<open>s\<close>.\<close>

definition JsonNode_newFromString :: "string \<Rightarrow> json" where
  "JsonNode_newFromString s = JString (c_str s)"

text \<open>
  \<open>g_string_new_len(s, len)\<close> copies \<open>len\<close> bytes, NULs included; the length is an
  \<open>int\<close>, and a negative one makes it copy the C string instead.
\<close>

definition JsonNode_newFromStringLen :: "string \<Rightarrow> c_int \<Rightarrow> json" where
  "JsonNode_newFromStringLen s len =
     JString (if 0 \<le> sint len then take (nat (sint len)) s else c_str s)"

definition JsonNode_newArray :: json where
  "JsonNode_newArray = JArray []"

definition JsonNode_newMap :: json where
  "JsonNode_newMap = JMap []"

lemmas json_new_defs [c_defs] =
  JsonNode_newNull_def JsonNode_newFromBoolean_def JsonNode_newFromLong_def
  JsonNode_newFromDouble_def JsonNode_newFromString_def JsonNode_newFromStringLen_def
  JsonNode_newArray_def JsonNode_newMap_def

section \<open>Containers\<close>

text \<open>
  On a node that is no array the C code reports \<open>Invalid type\<close> and then goes on to
  append to \<open>parent->data\<close> as if it were a \<open>GArray\<close>.
\<close>

fun JsonNode_array_append :: "json \<Rightarrow> json \<Rightarrow> json outcome" where
  "JsonNode_array_append (JArray a) node = Ret (JArray (a @ [node]))"
| "JsonNode_array_append _ node = Undef"

definition invalid_type :: gerror where
  "invalid_type = mk_error Quark0 EINVAL ''Invalid type''"

fun JsonNode_map_insert :: "json \<Rightarrow> string \<Rightarrow> json \<Rightarrow> json \<times> gerror option" where
  "JsonNode_map_insert (JMap m) key node = (JMap (AList.update (c_str key) node m), None)"
| "JsonNode_map_insert parent key node = (parent, Some invalid_type)"

fun JsonNode_map_lookup :: "json \<Rightarrow> string \<Rightarrow> json option \<times> gerror option" where
  "JsonNode_map_lookup (JMap m) key = (map_of m (c_str key), None)"
| "JsonNode_map_lookup node key = (None, Some invalid_type)"

text \<open>
  A call \<open>JsonNode_map_insert(map, key, node, NULL)\<close> whose error is ignored, and a
  sequence of such calls on one map.
\<close>

definition map_put :: "string \<Rightarrow> json \<Rightarrow> json \<Rightarrow> json" where
  "map_put key node parent = fst (JsonNode_map_insert parent key node)"

definition map_get :: "json \<Rightarrow> string \<Rightarrow> json option" where
  "map_get node key = fst (JsonNode_map_lookup node key)"

abbreviation map_puts :: "(string \<times> json) list \<Rightarrow> json \<Rightarrow> json" where
  "map_puts \<equiv> fold (\<lambda>(k, v). map_put k v)"

lemma map_put_JMap [simp]: "map_put k v (JMap m) = JMap (AList.update (c_str k) v m)"
  by (simp add: map_put_def)

lemma map_get_JMap [simp]: "map_get (JMap m) k = map_of m (c_str k)"
  by (simp add: map_get_def)

section \<open>Well-formed documents\<close>

text \<open>
  What every document built by the operations satisfies: the keys of a map are
  distinct C strings, at every level.
\<close>

fun wf_json :: "json \<Rightarrow> bool" where
  "wf_json (JMap m) \<longleftrightarrow>
     distinct (map fst m) \<and> list_all (\<lambda>(k, v). nul_free k \<and> wf_json v) m"
| "wf_json (JArray a) \<longleftrightarrow> list_all wf_json a"
| "wf_json _ \<longleftrightarrow> True"

lemma list_all_update:
  "list_all P m \<Longrightarrow> P (k, v) \<Longrightarrow> list_all P (AList.update k v m)"
  by (induction m) auto

lemma wf_map_insert:
  assumes "wf_json parent" and "wf_json node"
  shows "wf_json (fst (JsonNode_map_insert parent key node))"
  using assms by (cases parent) (auto simp: distinct_update intro!: list_all_update)

lemma wf_array_append:
  "wf_json parent \<Longrightarrow> wf_json node \<Longrightarrow> JsonNode_array_append parent node = Ret parent' \<Longrightarrow>
   wf_json parent'"
  by (cases parent) auto

lemma wf_map_lookup:
  assumes "wf_json node" and "JsonNode_map_lookup node key = (Some v, e)"
  shows "wf_json v"
  using assms by (cases node) (auto dest!: map_of_SomeD simp: list_all_iff)

lemma wf_new [simp]:
  "wf_json JsonNode_newNull" "wf_json (JsonNode_newFromBoolean b)"
  "wf_json (JsonNode_newFromLong l)" "wf_json (JsonNode_newFromDouble d)"
  "wf_json (JsonNode_newFromString s)" "wf_json (JsonNode_newFromStringLen s n)"
  "wf_json JsonNode_newArray" "wf_json JsonNode_newMap"
  by (simp_all add: c_defs)

lemma wf_map_put [simp]: "wf_json p \<Longrightarrow> wf_json v \<Longrightarrow> wf_json (map_put k v p)"
  by (simp add: map_put_def wf_map_insert)

section \<open>The map interface\<close>

text \<open>
  What the clients of the node maps (responses, stat results, requests) rely on: a
  lookup sees the last insertion under an equal key. A key is compared as a C string.
\<close>

locale string_map =
  fixes put :: "string \<Rightarrow> 'v \<Rightarrow> 'm \<Rightarrow> 'm"
    and get :: "'m \<Rightarrow> string \<Rightarrow> 'v option"
    and is_map :: "'m \<Rightarrow> bool"
  assumes get_put: "is_map m \<Longrightarrow>
      get (put k v m) k' = (if c_str k = c_str k' then Some v else get m k')"
    and is_map_put: "is_map m \<Longrightarrow> is_map (put k v m)"
begin

abbreviation put_all :: "(string \<times> 'v) list \<Rightarrow> 'm \<Rightarrow> 'm" where
  "put_all \<equiv> fold (\<lambda>(k, v). put k v)"

lemma is_map_put_all: "is_map m \<Longrightarrow> is_map (put_all kvs m)"
  by (induction kvs arbitrary: m) (auto simp: is_map_put)

lemma get_put_other:
  "is_map m \<Longrightarrow> c_str k \<notin> (\<lambda>p. c_str (fst p)) ` set kvs \<Longrightarrow> get (put_all kvs m) k = get m k"
  by (induction kvs arbitrary: m) (auto simp: get_put is_map_put)

lemma get_put_all:
  assumes "is_map m" and "distinct (map (\<lambda>p. c_str (fst p)) kvs)" and "(k, v) \<in> set kvs"
  shows "get (put_all kvs m) k = Some v"
  using assms
proof (induction kvs arbitrary: m)
  case Nil
  then show ?case by simp
next
  case (Cons kv kvs)
  obtain k' v' where kv: "kv = (k', v')" by (cases kv)
  show ?case
  proof (cases "(k, v) = (k', v')")
    case True
    with Cons.prems kv show ?thesis
      by (auto simp: get_put_other get_put is_map_put)
  next
    case False
    with Cons.prems kv have "(k, v) \<in> set kvs" by auto
    with Cons kv show ?thesis by (simp add: is_map_put)
  qed
qed

end

definition is_JMap :: "json \<Rightarrow> bool" where
  "is_JMap node \<longleftrightarrow> JsonNode_getType node = JT_MAP"

lemma is_JMap_simps [simp]: "is_JMap (JMap m)" "is_JMap JsonNode_newMap"
  by (simp_all add: is_JMap_def JsonNode_newMap_def)

interpretation node_map: string_map map_put map_get is_JMap
proof unfold_locales
  fix m k v k'
  assume "is_JMap m"
  then obtain al where "m = JMap al"
    by (cases m) (auto simp: is_JMap_def)
  then show "map_get (map_put k v m) k' = (if c_str k = c_str k' then Some v else map_get m k')"
    and "is_JMap (map_put k v m)"
    by (simp_all add: update_conv is_JMap_def)
qed

end
