(* ===== verification/Utils.thy ===== *)
theory Utils
  imports Prelude
begin

text \<open>
  \<open>src/utils.c\<close>: error texts that may be computed between a failing call and the use
  of its \<open>errno\<close>. The C library calls (\<open>strerror_r\<close> in the variant the feature macros
  select, the locale's character set, the conversion to UTF-8) are fields of a record;
  each may leave any value in \<open>errno\<close>.
\<close>

section \<open>Decimal numbers\<close>

definition digit :: "nat \<Rightarrow> char" where
  "digit d = char_of (48 + d)"

fun dec_nat :: "nat \<Rightarrow> string" where
  "dec_nat n = (if n < 10 then [digit n] else dec_nat (n div 10) @ [digit (n mod 10)])"

declare dec_nat.simps [simp del]

definition dec_int :: "int \<Rightarrow> string" where
  "dec_int i = (if i < 0 then ''-'' @ dec_nat (nat (- i)) else dec_nat (nat i))"

section \<open>Error texts\<close>

record strerror_env =
  gnu_variant :: bool
  gnu_strerror :: "int \<Rightarrow> nat \<Rightarrow> string"
  xsi_strerror :: "int \<Rightarrow> nat \<Rightarrow> int \<times> string"
  utf8_charset :: bool
  locale_to_utf8 :: "string \<Rightarrow> string option"
  errno_left :: "int \<Rightarrow> int \<Rightarrow> int"

definition MAX_STRERR_SIZE :: nat where
  "MAX_STRERR_SIZE = 256"

text \<open>
  The XSI variant fills the buffer and may fail; \<open>snprintf\<close> cuts its text to the
  buffer, and the last byte of the buffer is made a NUL.
\<close>

definition gnu_strerror_r :: "strerror_env \<Rightarrow> int \<Rightarrow> nat \<Rightarrow> string" where
  "gnu_strerror_r E error len =
     (if gnu_variant E then c_str (gnu_strerror E error len)
      else case xsi_strerror E error len of (rc, buffer) \<Rightarrow>
        if rc \<noteq> 0 then take (len - 1) (''Unknown error '' @ dec_int error)
        else c_str (if len \<noteq> 0 then take (len - 1) buffer else buffer))"

text \<open>
  The result is the interned text (\<open>None\<close> is the null pointer, left by a failed
  conversion) and the value of \<open>errno\<close> on return.
\<close>

definition iop_strerror :: "strerror_env \<Rightarrow> int \<Rightarrow> int \<Rightarrow> string option \<times> int" where
  "iop_strerror E err errno_in =
     (let saved_errno = errno_in;
          ret = gnu_strerror_r E err MAX_STRERR_SIZE;
          errno1 = errno_left E err errno_in;
          msg = (if \<not> utf8_charset E then locale_to_utf8 E ret else Some ret);
          errno2 = saved_errno
      in (msg, errno2))"

text \<open>What \<open>printf\<close> makes of the result under \<open>%s\<close>.\<close>

definition iop_msg :: "strerror_env \<Rightarrow> int \<Rightarrow> string" where
  "iop_msg E err = (case fst (iop_strerror E err 0) of None \<Rightarrow> ''(null)'' | Some m \<Rightarrow> m)"

lemma iop_strerror_text: "fst (iop_strerror E err e) = fst (iop_strerror E err e')"
  by (simp add: iop_strerror_def Let_def)

lemma length_c_str: "length (c_str s) \<le> length s"
  by (simp add: c_str_def length_takeWhile_le)

lemma gnu_strerror_r_bound:
  "\<not> gnu_variant E \<Longrightarrow> 0 < len \<Longrightarrow> length (gnu_strerror_r E err len) < len"
  using length_c_str [of "take (len - 1) (snd (xsi_strerror E err len))"]
  by (auto simp: gnu_strerror_r_def split: prod.split)

text \<open>
  Asking for the text of an error leaves \<open>errno\<close> as it was, whatever the library does
  to it on the way; with the XSI \<open>strerror_r\<close> and a UTF-8 locale there is always a text, and
  it fits the buffer of 256 bytes with its NUL even when the library does not end it.
\<close>

lemma iop_strerror_keeps_errno:
  "snd (iop_strerror E err errno_in) = errno_in \<and>
   (if gnu_variant E \<or> \<not> utf8_charset E then True
    else \<exists>m. fst (iop_strerror E err errno_in) = Some m \<and> length m < 256)"
  using gnu_strerror_r_bound [of E MAX_STRERR_SIZE err]
  by (simp add: iop_strerror_def Let_def MAX_STRERR_SIZE_def)

end
