(* ===== verification/Posix.thy ===== *)
theory Posix
  imports Json_Dom Utils
begin

text \<open>
  What the exported functions see of the system. The kernel, the C library and glib's
  base64 and UUID routines are fields of the record \<open>posix\<close>, functions on an arbitrary
  state \<open>'w\<close> of the world. A call either succeeds with a value or fails with an error
  number; the wrappers turn that into the C convention: a negative result, and \<open>errno\<close>
  set. The descriptors that are open because the code opened them are tracked.
\<close>

section \<open>The system interface\<close>

datatype 'a sysres = Succ 'a | Fail int

record stat =
  st_ino :: c_long
  st_dev :: c_long
  st_mode :: c_int
  st_nlink :: c_long
  st_uid :: c_int
  st_gid :: c_int
  st_size :: c_long
  st_atime :: c_long
  st_mtime :: c_long
  st_ctime :: c_long
  st_blocks :: c_long

record statvfs =
  f_bsize :: c_long
  f_frsize :: c_long
  f_blocks :: c_long
  f_bfree :: c_long
  f_bavail :: c_long
  f_files :: c_long
  f_ffree :: c_long
  f_favail :: c_long
  f_fsid :: c_long
  f_flag :: c_long
  f_namemax :: c_long

type_synonym ('w, 'a) os_call = "'w \<Rightarrow> 'a sysres \<times> 'w"
type_synonym b64_state = "int \<times> int"

record 'w posix =
  strerr :: strerror_env
  os_rename :: "string \<Rightarrow> string \<Rightarrow> ('w, unit) os_call"
  os_link :: "string \<Rightarrow> string \<Rightarrow> ('w, unit) os_call"
  os_symlink :: "string \<Rightarrow> string \<Rightarrow> ('w, unit) os_call"
  os_unlink :: "string \<Rightarrow> ('w, unit) os_call"
  os_rmdir :: "string \<Rightarrow> ('w, unit) os_call"
  os_mkdir :: "string \<Rightarrow> c_int \<Rightarrow> ('w, unit) os_call"
  os_chmod :: "string \<Rightarrow> c_int \<Rightarrow> ('w, unit) os_call"
  os_access :: "string \<Rightarrow> c_int \<Rightarrow> ('w, unit) os_call"
  os_stat :: "string \<Rightarrow> ('w, stat) os_call"
  os_lstat :: "string \<Rightarrow> ('w, stat) os_call"
  os_statvfs :: "string \<Rightarrow> ('w, statvfs) os_call"
  os_open :: "string \<Rightarrow> c_int \<Rightarrow> c_int \<Rightarrow> ('w, nat) os_call"
  os_close :: "nat \<Rightarrow> ('w, unit) os_call"
  os_futimens :: "nat \<Rightarrow> ('w, unit) os_call"
  os_ftruncate :: "nat \<Rightarrow> c_long \<Rightarrow> ('w, unit) os_call"
  os_fsync :: "nat \<Rightarrow> ('w, unit) os_call"
  os_fstat :: "nat \<Rightarrow> ('w, stat) os_call"
  os_fstatvfs :: "nat \<Rightarrow> ('w, statvfs) os_call"
  os_read :: "nat \<Rightarrow> nat \<Rightarrow> ('w, string) os_call"
  os_write :: "nat \<Rightarrow> string \<Rightarrow> ('w, nat) os_call"
  os_pwrite :: "nat \<Rightarrow> string \<Rightarrow> ('w, nat) os_call"
  os_opendir :: "string \<Rightarrow> ('w, nat) os_call"
  os_readdir :: "nat \<Rightarrow> 'w \<Rightarrow> string list \<times> 'w"
  os_glob :: "string \<Rightarrow> 'w \<Rightarrow> (int \<times> string list) \<times> 'w"
  os_fopen :: "string \<Rightarrow> ('w, nat) os_call"
  os_fscanf_u64 :: "nat \<Rightarrow> 'w \<Rightarrow> c_long list \<times> 'w"
  os_sleep :: "c_int \<Rightarrow> 'w \<Rightarrow> 'w"
  os_malloc :: "nat \<Rightarrow> ('w, unit) os_call"
  os_memalign :: "nat \<Rightarrow> nat \<Rightarrow> 'w \<Rightarrow> int \<times> 'w"
  g_uuid :: "'w \<Rightarrow> string option \<times> 'w"
  g_b64_decode :: "string \<Rightarrow> string"
  g_b64_step :: "string \<Rightarrow> b64_state \<Rightarrow> string \<times> b64_state"
  g_b64_close :: "b64_state \<Rightarrow> string \<times> b64_state"

text \<open>The state of the process as one request sees it.\<close>

record 'w proc =
  os :: 'w
  errno :: int
  fds :: "nat list"

section \<open>Calls in the C convention\<close>

definition syscall :: "('w, 'a) os_call \<Rightarrow> 'w proc \<Rightarrow> 'a option \<times> 'w proc" where
  "syscall f s =
     (case f (os s) of
        (Succ a, w) \<Rightarrow> (Some a, s\<lparr>os := w\<rparr>)
      | (Fail e, w) \<Rightarrow> (None, s\<lparr>os := w, errno := e\<rparr>))"

text \<open>Calls that return 0 or -1.\<close>

definition c_call :: "('w, unit) os_call \<Rightarrow> 'w proc \<Rightarrow> int \<times> 'w proc" where
  "c_call f s = (case syscall f s of (Some _, s') \<Rightarrow> (0, s') | (None, s') \<Rightarrow> (- 1, s'))"

text \<open>Calls that return a new descriptor or -1.\<close>

definition c_open_call :: "('w, nat) os_call \<Rightarrow> 'w proc \<Rightarrow> int \<times> 'w proc" where
  "c_open_call f s =
     (case syscall f s of
        (Some fd, s') \<Rightarrow> (int fd, s'\<lparr>fds := fd # fds s'\<rparr>)
      | (None, s') \<Rightarrow> (- 1, s'))"

definition c_open :: "'w posix \<Rightarrow> string \<Rightarrow> c_int \<Rightarrow> c_int \<Rightarrow> 'w proc \<Rightarrow> int \<times> 'w proc" where
  "c_open P path flags mode = c_open_call (os_open P (c_str path) flags mode)"

definition c_close :: "'w posix \<Rightarrow> int \<Rightarrow> 'w proc \<Rightarrow> int \<times> 'w proc" where
  "c_close P fd s =
     (case c_call (os_close P (nat fd)) s of
        (rv, s') \<Rightarrow> (rv, s'\<lparr>fds := remove1 (nat fd) (fds s')\<rparr>))"

definition close_quiet :: "'w posix \<Rightarrow> int \<Rightarrow> 'w proc \<Rightarrow> 'w proc" where
  "close_quiet P fd s = snd (c_close P fd s)"

section \<open>Errors and results\<close>

definition set_error_from_errno :: "'w posix \<Rightarrow> quark \<Rightarrow> int \<Rightarrow> gerror" where
  "set_error_from_errno P q errcode = mk_error q errcode (iop_msg (strerr P) errcode)"

definition c_FALSE :: c_int where "c_FALSE = 0"
definition c_TRUE :: c_int where "c_TRUE = 1"

type_synonym hresult = "json option \<times> gerror option"

definition stdApiWrapper :: "'w posix \<Rightarrow> int \<Rightarrow> 'w proc \<Rightarrow> hresult" where
  "stdApiWrapper P rv s =
     (if rv < 0
      then (Some (JsonNode_newFromBoolean c_FALSE),
            Some (set_error_from_errno P IOPROCESS_STDAPI_ERROR (errno s)))
      else (Some (JsonNode_newFromBoolean c_TRUE), None))"

text \<open>
  An exported function: \<open>JsonNode *f(const JsonNode *args, GError **err)\<close>, where
  \<open>args\<close> may be the null pointer.
\<close>

type_synonym 'w hres = "(hresult \<times> 'w proc) outcome"
type_synonym 'w handler = "'w posix \<Rightarrow> json option \<Rightarrow> 'w proc \<Rightarrow> 'w hres"

section \<open>Open flags and modes of Linux\<close>

definition O_RDONLY :: c_int where "O_RDONLY = 0"
definition O_WRONLY :: c_int where "O_WRONLY = 1"
definition O_CREAT :: c_int where "O_CREAT = 0x40"
definition O_EXCL :: c_int where "O_EXCL = 0x80"
definition O_TRUNC :: c_int where "O_TRUNC = 0x200"
definition O_DSYNC :: c_int where "O_DSYNC = 0x1000"
definition O_DIRECT :: c_int where "O_DIRECT = 0x4000"

definition S_IRUSR :: c_int where "S_IRUSR = 0x100"
definition S_IWUSR :: c_int where "S_IWUSR = 0x80"
definition S_IRGRP :: c_int where "S_IRGRP = 0x20"
definition S_IWGRP :: c_int where "S_IWGRP = 0x10"
definition S_IROTH :: c_int where "S_IROTH = 4"

lemmas open_flag_defs =
  O_RDONLY_def O_WRONLY_def O_CREAT_def O_EXCL_def O_TRUNC_def O_DSYNC_def O_DIRECT_def

section \<open>Facts on the calls\<close>

lemma syscall_fds [simp]: "syscall f s = (r, s') \<Longrightarrow> fds s' = fds s"
  by (auto simp: syscall_def split: prod.splits sysres.splits)

lemma c_call_fds [simp]: "c_call f s = (rv, s') \<Longrightarrow> fds s' = fds s"
  by (auto simp: c_call_def split: prod.splits option.splits)

lemma c_call_rv: "c_call f s = (rv, s') \<Longrightarrow> rv = 0 \<or> rv = - 1"
  by (auto simp: c_call_def split: prod.splits option.splits)

lemma c_open_call_cases:
  assumes "c_open_call f s = (fd, s')"
  obtains (fail) "fd = - 1" "fds s' = fds s"
    | (ok) "0 \<le> fd" "fds s' = nat fd # fds s"
  using assms by (auto simp: c_open_call_def split: prod.splits option.splits)

lemma close_quiet_fds [simp]: "fds (close_quiet P fd s) = remove1 (nat fd) (fds s)"
  by (auto simp: close_quiet_def c_close_def split: prod.splits)

section \<open>A system to run the code on\<close>

text \<open>
  A small system that meets the documented behaviour the properties ask for: one file,
  read and written in pieces of at most 4 bytes at a position that \<open>open\<close> resets; direct
  writes must have a multiple of 512 bytes; the encoding of a byte is the byte.
\<close>

record world =
  content :: string
  pos :: nat
  slept :: nat

definition demo_stat :: "world \<Rightarrow> stat" where
  "demo_stat w = \<lparr>st_ino = 11, st_dev = 22, st_mode = 0x81A4, st_nlink = 1, st_uid = 0, st_gid = 0,
     st_size = word_of_nat (length (content w)), st_atime = 1000, st_mtime = 2000, st_ctime = 3000,
     st_blocks = 8\<rparr>"

definition demo_statvfs :: statvfs where
  "demo_statvfs = \<lparr>f_bsize = 6, f_frsize = 6, f_blocks = 100, f_bfree = 50, f_bavail = 40,
     f_files = 30, f_ffree = 20, f_favail = 10, f_fsid = 5, f_flag = 0, f_namemax = 255\<rparr>"

definition demo_ok :: "('w, unit) os_call" where
  "demo_ok w = (Succ (), w)"

definition demo_strerror :: strerror_env where
  "demo_strerror = \<lparr>gnu_variant = True, gnu_strerror = (\<lambda>e n. ''error''),
     xsi_strerror = (\<lambda>e n. (0, ''error'')), utf8_charset = True, locale_to_utf8 = Some,
     errno_left = (\<lambda>e old. old)\<rparr>"

definition demo_posix :: "world posix" where
  "demo_posix =
     \<lparr>strerr = demo_strerror,
      os_rename = (\<lambda>a b. demo_ok), os_link = (\<lambda>a b. demo_ok), os_symlink = (\<lambda>a b. demo_ok),
      os_unlink = (\<lambda>a w. (Fail 2, w)), os_rmdir = (\<lambda>a w. (Fail 20, w)),
      os_mkdir = (\<lambda>a m. demo_ok), os_chmod = (\<lambda>a m. demo_ok), os_access = (\<lambda>a m. demo_ok),
      os_stat = (\<lambda>a w. (Succ (demo_stat w), w)), os_lstat = (\<lambda>a w. (Succ (demo_stat w), w)),
      os_statvfs = (\<lambda>a w. (Succ demo_statvfs, w)),
      os_open = (\<lambda>a f m w. (Succ 3, w\<lparr>pos := 0\<rparr>)), os_close = (\<lambda>fd. demo_ok),
      os_futimens = (\<lambda>fd. demo_ok),
      os_ftruncate = (\<lambda>fd n w. (Succ (), w\<lparr>content := take (unat n) (content w)\<rparr>)),
      os_fsync = (\<lambda>fd. demo_ok),
      os_fstat = (\<lambda>fd w. (Succ (demo_stat w), w)),
      os_fstatvfs = (\<lambda>fd w. (Succ demo_statvfs, w)),
      os_read = (\<lambda>fd n w. let bs = take (min n 4) (drop (pos w) (content w))
        in (Succ bs, w\<lparr>pos := pos w + length bs\<rparr>)),
      os_write = (\<lambda>fd bs w. let b = take 4 bs
        in (Succ (length b), w\<lparr>content := take (pos w) (content w) @ b, pos := pos w + length b\<rparr>)),
      os_pwrite = (\<lambda>fd bs w. if 512 dvd length bs then (Succ (length bs), w) else (Fail EINVAL, w)),
      os_opendir = (\<lambda>a w. (Succ 3, w)),
      os_readdir = (\<lambda>fd w. ([''.'', ''..'', ''a'', ''b''], w)),
      os_glob = (\<lambda>a w. ((0, [''a'', ''b'']), w)),
      os_fopen = (\<lambda>a w. (Succ 3, w)), os_fscanf_u64 = (\<lambda>fd w. ([10, 20, 30], w)),
      os_sleep = (\<lambda>n w. w\<lparr>slept := slept w + unat n\<rparr>),
      os_malloc = (\<lambda>n. demo_ok), os_memalign = (\<lambda>a n w. (0, w)),
      g_uuid = (\<lambda>w. (Some ''u'', w)),
      g_b64_decode = (\<lambda>x. x), g_b64_step = Pair, g_b64_close = (\<lambda>st. ([], st))\<rparr>"

definition demo_proc :: "string \<Rightarrow> world proc" where
  "demo_proc bytes = \<lparr>os = \<lparr>content = bytes, pos = 0, slept = 0\<rparr>, errno = 0, fds = []\<rparr>"

end
