(* ===== verification/Args.thy ===== *)
theory Args
  imports Posix
begin

text \<open>
  Argument extraction of \<open>src/exported-functions.c\<close> (\<open>safeGetArg\<close>, \<open>safeGetArgValue\<close>,
  \<open>safeGetArgValues\<close>) and \<open>JsonNode_getValue\<close> of \<open>src/json-dom.c\<close>, which stores the value
  of a node through an untyped pointer. The store has the size and meaning of the node's
  type, whatever the type of the variable is.
\<close>

section \<open>Storing a node's value in a C variable\<close>

text \<open>
  The variables of the callers are \<open>GString *\<close>, \<open>long\<close> or \<open>int\<close>. \<open>VBad\<close> is a content
  that is no value of the variable's type: not initialised, a forged pointer, a pointer
  to an object of another type, or an address where a number is expected.
\<close>

datatype ctype = TString | TLong | TInt
datatype cval = VStr string | VLong c_long | VInt c_int | VBad

text \<open>Four bytes stored at the address of a \<open>long\<close> replace its low half.\<close>

definition store_low :: "c_int \<Rightarrow> c_long \<Rightarrow> c_long" where
  "store_low v old = (old AND 0xFFFFFFFF00000000) OR ucast v"

fun store_int :: "ctype \<Rightarrow> c_int \<Rightarrow> cval \<Rightarrow> cval outcome" where
  "store_int TInt v old = Ret (VInt v)"
| "store_int TLong v (VLong w) = Ret (VLong (store_low v w))"
| "store_int TLong v old = Ret VBad"
| "store_int TString v old = Ret VBad"

text \<open>Eight bytes do not fit an \<open>int\<close>: the store runs over the end of the variable.\<close>

fun store_word :: "ctype \<Rightarrow> cval \<Rightarrow> cval \<Rightarrow> cval outcome" where
  "store_word TInt v old = Undef"
| "store_word TLong (VLong l) old = Ret (VLong l)"
| "store_word TLong v old = Ret VBad"
| "store_word TString (VStr s) old = Ret (VStr s)"
| "store_word TString v old = Ret VBad"

text \<open>
  Of the types a node can have, the \<open>switch\<close> has no case for a double. No variable here
  is a pointer to a hash table or an array.
\<close>

definition JsonNode_getValue :: "json \<Rightarrow> ctype \<Rightarrow> cval \<Rightarrow> cval outcome" where
  "JsonNode_getValue node ty old =
     (case JsonNode_getType node of
        JT_NULL \<Rightarrow> store_int ty 0 old
      | JT_BOOLEAN \<Rightarrow> bind_outcome (JsonNode_getBoolean node) (\<lambda>b. store_int ty b old)
      | JT_MAP \<Rightarrow> store_word ty VBad old
      | JT_STRING \<Rightarrow>
          store_word ty (case JsonNode_getString node of None \<Rightarrow> VBad | Some s \<Rightarrow> VStr s) old
      | JT_LONG \<Rightarrow> bind_outcome (JsonNode_getLong node) (\<lambda>l. store_word ty (VLong l) old)
      | JT_ARRAY \<Rightarrow> store_word ty VBad old
      | JT_DOUBLE \<Rightarrow> Ret old)"

lemma JsonNode_getValue_simps [simp]:
  "JsonNode_getValue JNull ty old = store_int ty 0 old"
  "JsonNode_getValue (JBoolean b) ty old = store_int ty b old"
  "JsonNode_getValue (JLong l) ty old = store_word ty (VLong l) old"
  "JsonNode_getValue (JDouble d) ty old = Ret old"
  "JsonNode_getValue (JString s) ty old = store_word ty (VStr s) old"
  "JsonNode_getValue (JMap m) ty old = store_word ty VBad old"
  "JsonNode_getValue (JArray a) ty old = store_word ty VBad old"
  by (simp_all add: JsonNode_getValue_def)

section \<open>Arguments\<close>

definition argument_error :: "string \<Rightarrow> gerror" where
  "argument_error msg = mk_error IOPROCESS_ARGUMENT_ERROR EINVAL msg"

definition safeGetArg :: "json option \<Rightarrow> string \<Rightarrow> JsonNodeType \<Rightarrow> json option \<times> gerror option" where
  "safeGetArg args argName argType =
     (case args of
        None \<Rightarrow> (None, Some (argument_error ''args is empty''))
      | Some a \<Rightarrow>
          if JsonNode_getType a \<noteq> JT_MAP
          then (None, Some (argument_error ''args must be a map''))
          else case fst (JsonNode_map_lookup a argName) of
            None \<Rightarrow> (None, Some (argument_error
              (''arg '' @ [CHR 0x27] @ argName @ [CHR 0x27] @ '' was not found in list'')))
          | Some tmp \<Rightarrow>
              if JsonNode_getType tmp \<noteq> argType
              then (Some tmp, Some (argument_error
                (''Param '' @ [CHR 0x27] @ argName @ [CHR 0x27] @ '' has the wrong type'')))
              else (Some tmp, None))"

text \<open>
  The error is handed on only when there is no node; a node of the wrong type is stored
  all the same.
\<close>

definition safeGetArgValue :: "json option \<Rightarrow> string \<Rightarrow> JsonNodeType \<Rightarrow> ctype \<Rightarrow> cval
    \<Rightarrow> (cval \<times> gerror option) outcome" where
  "safeGetArgValue args argName argType ty old =
     (case safeGetArg args argName argType of
        (None, tmpError) \<Rightarrow> Ret (old, tmpError)
      | (Some tmp, tmpError) \<Rightarrow>
          bind_outcome (JsonNode_getValue tmp ty old) (\<lambda>v. Ret (v, None)))"

text \<open>A variadic entry: name, expected type, the variable's type and its content so far.\<close>

type_synonym arg = "string \<times> JsonNodeType \<times> ctype \<times> cval"

fun safeGetArgValues :: "json option \<Rightarrow> arg list \<Rightarrow> (cval list \<times> gerror option) outcome" where
  "safeGetArgValues args [] = Ret ([], None)"
| "safeGetArgValues args ((argName, argType, ty, old) # argp) =
     bind_outcome (safeGetArgValue args argName argType ty old)
       (\<lambda>(v, tmpError). case tmpError of
          Some e \<Rightarrow> Ret (v # map (\<lambda>(_, _, _, old). old) argp, Some e)
        | None \<Rightarrow> bind_outcome (safeGetArgValues args argp) (\<lambda>(vs, e). Ret (v # vs, e)))"

text \<open>
  The prologue every exported function shares: extract the arguments, and on an error
  propagate it and return the null pointer.
\<close>

definition with_args :: "json option \<Rightarrow> arg list \<Rightarrow> (cval list \<Rightarrow> 'w proc \<Rightarrow> 'w hres)
    \<Rightarrow> 'w proc \<Rightarrow> 'w hres" where
  "with_args args argp body s =
     bind_outcome (safeGetArgValues args argp)
       (\<lambda>(vals, tmpError). case tmpError of
          Some e \<Rightarrow> Ret ((None, Some e), s)
        | None \<Rightarrow> body vals s)"

section \<open>Facts\<close>

text \<open>The node type that fits a variable, and the value stored for it.\<close>

fun fits :: "JsonNodeType \<Rightarrow> ctype \<Rightarrow> bool" where
  "fits JT_STRING TString = True"
| "fits JT_LONG TLong = True"
| "fits JT_BOOLEAN TInt = True"
| "fits _ _ = False"

fun cval_of :: "json \<Rightarrow> cval" where
  "cval_of (JString s) = VStr s"
| "cval_of (JLong l) = VLong l"
| "cval_of (JBoolean b) = VInt b"
| "cval_of _ = VBad"

lemma getValue_fits:
  "fits (JsonNode_getType node) ty \<Longrightarrow> JsonNode_getValue node ty old = Ret (cval_of node)"
  by (cases node; cases ty) auto

text \<open>Arguments of the right types are read as they are.\<close>

definition arg_ok :: "json \<Rightarrow> arg \<Rightarrow> bool" where
  "arg_ok a = (\<lambda>(n, t, ty, old). fits t ty \<and>
     (\<exists>v. map_get a n = Some v \<and> JsonNode_getType v = t))"

definition arg_val :: "json \<Rightarrow> arg \<Rightarrow> cval" where
  "arg_val a = (\<lambda>(n, t, ty, old). cval_of (the (map_get a n)))"

lemma safeGetArgValue_ok:
  assumes "is_JMap a" and "arg_ok a (n, t, ty, old)"
  shows "safeGetArgValue (Some a) n t ty old = Ret (arg_val a (n, t, ty, old), None)"
  using assms
  by (auto simp: safeGetArgValue_def safeGetArg_def arg_ok_def arg_val_def is_JMap_def map_get_def
      getValue_fits)

lemma safeGetArgValues_ok:
  assumes "is_JMap a"
  shows "list_all (arg_ok a) argp \<Longrightarrow>
    safeGetArgValues (Some a) argp = Ret (map (arg_val a) argp, None)"
proof (induction argp)
  case Nil
  then show ?case by simp
next
  case (Cons x argp)
  obtain n t ty old where x: "x = (n, t, ty, old)" by (cases x) auto
  with Cons show ?case by (simp add: safeGetArgValue_ok [OF assms])
qed

lemma with_args_ok:
  "is_JMap a \<Longrightarrow> list_all (arg_ok a) argp \<Longrightarrow>
   with_args (Some a) argp body s = body (map (arg_val a) argp) s"
  by (simp add: with_args_def safeGetArgValues_ok)

text \<open>A missing argument is reported, and nothing else happens.\<close>

lemma safeGetArg_missing:
  assumes "is_JMap a" and "map_get a n = None"
  shows "safeGetArgValue (Some a) n t ty old =
    Ret (old, Some (argument_error (''arg '' @ [CHR 0x27] @ n @ [CHR 0x27] @ '' was not found in list'')))"
  using assms by (simp add: safeGetArgValue_def safeGetArg_def is_JMap_def map_get_def)

lemma with_args_cases:
  assumes "with_args args argp body s = Ret (r, s')"
  obtains (err) e where "r = (None, Some e)" "s' = s"
    | (ok) vals where "safeGetArgValues args argp = Ret (vals, None)" "body vals s = Ret (r, s')"
proof -
  from assms obtain vals e where *: "safeGetArgValues args argp = Ret (vals, e)"
    "(case e of Some e \<Rightarrow> Ret ((None, Some e), s) | None \<Rightarrow> body vals s) = Ret (r, s')"
    unfolding with_args_def by (auto simp: bind_outcome_eq_Ret)
  then show thesis using err ok by (cases e) auto
qed

section \<open>The contract of an exported function\<close>

text \<open>
  What the request handler relies on, for every exported function: it closes every
  descriptor it opened and no other, and its result, if any, is a well-formed document.
\<close>

definition keeps :: "'w proc \<Rightarrow> hresult \<Rightarrow> 'w proc \<Rightarrow> bool" where
  "keeps s r s' \<longleftrightarrow> fds s' = fds s \<and> (\<forall>v. fst r = Some v \<longrightarrow> wf_json v)"

locale exported_function =
  fixes callback :: "'w handler"
  assumes contract: "callback P args s = Ret (r, s') \<Longrightarrow> keeps s r s'"
begin

lemma no_descriptor_leak: "callback P args s = Ret (r, s') \<Longrightarrow> fds s' = fds s"
  using contract by (auto simp: keeps_def)

lemma result_wf: "callback P args s = Ret ((Some v, e), s') \<Longrightarrow> wf_json v"
  using contract by (force simp: keeps_def)

end

lemma with_args_keeps:
  assumes "\<And>vals r s'. body vals s = Ret (r, s') \<Longrightarrow> keeps s r s'"
    and "with_args args argp body s = Ret (r, s')"
  shows "keeps s r s'"
  using assms(2) by (cases rule: with_args_cases) (auto simp: keeps_def [of s "(None, _)" s] assms(1))

lemma wf_map_puts: "list_all (\<lambda>(k, v). wf_json v) kvs \<Longrightarrow> wf_json m \<Longrightarrow> wf_json (map_puts kvs m)"
  by (induction kvs arbitrary: m) auto

lemma stdApiWrapper_wf [simp]: "stdApiWrapper P rv s = (Some v, e) \<Longrightarrow> wf_json v"
  by (auto simp: stdApiWrapper_def split: if_splits)

lemma stdApiWrapper_keeps: "stdApiWrapper P rv s'' = r \<Longrightarrow> fds s' = fds s \<Longrightarrow> keeps s r s'"
  by (auto simp: keeps_def stdApiWrapper_def split: if_split_asm)

lemmas body_splits =
  list.split_asm cval.split_asm if_split_asm prod.split_asm option.split_asm

section \<open>Properties\<close>

text \<open>
  When every argument is in the map with the type its variable has, extraction stores
  exactly their values, in order, and reports no error.
\<close>

lemma extraction_reads_arguments:
  assumes "is_JMap a" and "list_all (arg_ok a) argp"
  shows "safeGetArgValues (Some a) argp = Ret (map (arg_val a) argp, None)"
  using assms by (rule safeGetArgValues_ok)

lemma extraction_reads_arguments_witness:
  "safeGetArgValues (Some (JMap [(''mode'', JLong 5), (''path'', JString ''p'')]))
     [(''path'', JT_STRING, TString, VBad), (''mode'', JT_LONG, TLong, VBad)] =
   Ret ([VStr ''p'', VLong 5], None)"
  using extraction_reads_arguments [of "JMap [(''mode'', JLong 5), (''path'', JString ''p'')]"
      "[(''path'', JT_STRING, TString, VBad), (''mode'', JT_LONG, TLong, VBad)]"]
  by (simp add: arg_ok_def arg_val_def c_str_def)

text \<open>
  The first argument that is missing ends the extraction with an argument error that
  names it; the arguments before it are stored, it and those after it keep their contents.
\<close>

lemma missing_argument_reported:
  assumes "is_JMap a" and "list_all (arg_ok a) before" and "map_get a n = None"
  shows "safeGetArgValues (Some a) (before @ (n, t, ty, old) # after) =
    Ret (map (arg_val a) before @ old # map (\<lambda>(_, _, _, old). old) after,
      Some (mk_error IOPROCESS_ARGUMENT_ERROR 22
        (''arg '' @ [CHR 0x27] @ n @ [CHR 0x27] @ '' was not found in list'')))"
  using assms(2)
proof (induction before)
  case Nil
  then show ?case using safeGetArg_missing [OF assms(1,3)] by (simp add: argument_error_def EINVAL_def)
next
  case (Cons x before)
  obtain m u uy old' where x: "x = (m, u, uy, old')" by (cases x) auto
  with Cons show ?case by (simp add: safeGetArgValue_ok [OF assms(1)])
qed

lemma missing_argument_reported_witness:
  "safeGetArgValues (Some (JMap [(''path'', JString ''p'')]))
     [(''path'', JT_STRING, TString, VBad), (''mode'', JT_LONG, TLong, VBad)] =
   Ret ([VStr ''p'', VBad], Some (mk_error IOPROCESS_ARGUMENT_ERROR 22
     (''arg '' @ [CHR 0x27] @ ''mode'' @ [CHR 0x27] @ '' was not found in list'')))"
  using missing_argument_reported [of "JMap [(''path'', JString ''p'')]"
      "[(''path'', JT_STRING, TString, VBad)]" "''mode''" JT_LONG TLong VBad "[]"]
  by (simp add: arg_ok_def arg_val_def c_str_def)

text \<open>
  An argument that is present is never reported, whatever its type: a value that does
  not fit the variable leaves a bad pointer or number in it, or overruns it.
\<close>

lemma wrong_type_not_reported:
  assumes "is_JMap a" and "map_get a n = Some node" and "JsonNode_getType node \<noteq> t"
  shows "safeGetArgValue (Some a) n t ty old =
    bind_outcome (JsonNode_getValue node ty old) (\<lambda>v. Ret (v, None))"
  using assms
  by (auto simp: safeGetArgValue_def safeGetArg_def is_JMap_def map_get_def split: prod.splits)

lemma wrong_type_not_reported_witness:
  "safeGetArgValue (Some (JMap [(''path'', JLong 7)])) ''path'' JT_STRING TString VBad = Ret (VBad, None)"
  using wrong_type_not_reported [of "JMap [(''path'', JLong 7)]" "''path''" "JLong 7" JT_STRING TString VBad]
  by (simp add: c_str_def)

end
