(* ===== verification/Exported_Paths.thy ===== *)
theory Exported_Paths
  imports Args
begin

text \<open>
  The exported functions of \<open>src/exported-functions.c\<close> that act on a path and hold no
  descriptor: the testing commands, the wrappers of single system calls, and the ones
  that report file attributes. A path is passed to the kernel as a C string.
\<close>

section \<open>Argument lists\<close>

abbreviation path_arg :: "string \<Rightarrow> arg" where
  "path_arg n \<equiv> (n, JT_STRING, TString, VBad)"

abbreviation long_arg :: "string \<Rightarrow> arg" where
  "long_arg n \<equiv> (n, JT_LONG, TLong, VBad)"

section \<open>Testing commands\<close>

definition exp_ping :: "'w handler" where
  "exp_ping P args s = Ret ((Some (JsonNode_newFromString ''pong''), None), s)"

definition exp_memstat :: "'w handler" where
  "exp_memstat P args s =
     (case c_open_call (os_fopen P ''/proc/self/statm'') s of (fd, s) \<Rightarrow>
        if fd < 0 then
          Ret ((None, Some (set_error_from_errno P IOPROCESS_GENERAL_ERROR (errno s))), s)
        else case os_fscanf_u64 P (nat fd) (os s) of (scanned, w) \<Rightarrow>
          let s1 = s\<lparr>os := w\<rparr> in
          if length scanned < 3 then
            Ret ((None, Some (mk_error IOPROCESS_GENERAL_ERROR EINVAL ''bad statm format'')),
                 close_quiet P fd s1)
          else
            Ret ((Some (map_puts [
                (''size'', JsonNode_newFromLong (scanned ! 0)),
                (''rss'', JsonNode_newFromLong (scanned ! 1)),
                (''shr'', JsonNode_newFromLong (scanned ! 2))] JsonNode_newMap), None),
              close_quiet P fd s1))"

definition exp_crash :: "'w handler" where
  "exp_crash P args s = Exit 1"

text \<open>\<open>sleep\<close> takes an \<open>unsigned int\<close>.\<close>

definition exp_echo :: "'w handler" where
  "exp_echo P args s =
     with_args args [path_arg ''text'', (''sleep'', JT_LONG, TLong, VLong 0)]
       (\<lambda>vals s. case vals of
          [VStr text, VLong sleep_sec] \<Rightarrow>
            (let s1 = (if 0 < sint sleep_sec then s\<lparr>os := os_sleep P (ucast sleep_sec) (os s)\<rparr> else s)
             in Ret ((Some (JsonNode_newFromString text), None), s1))
        | _ \<Rightarrow> Undef) s"

section \<open>Single system calls\<close>

definition std_call :: "'w posix \<Rightarrow> ('w, unit) os_call \<Rightarrow> 'w proc \<Rightarrow> 'w hres" where
  "std_call P f s = (case c_call f s of (rv, s) \<Rightarrow> Ret (stdApiWrapper P rv s, s))"

definition exp_rename :: "'w handler" where
  "exp_rename P args s =
     with_args args [path_arg ''oldpath'', path_arg ''newpath'']
       (\<lambda>vals s. case vals of
          [VStr oldpath, VStr newpath] \<Rightarrow> std_call P (os_rename P (c_str oldpath) (c_str newpath)) s
        | _ \<Rightarrow> Undef) s"

definition exp_link :: "'w handler" where
  "exp_link P args s =
     with_args args [path_arg ''oldpath'', path_arg ''newpath'']
       (\<lambda>vals s. case vals of
          [VStr oldpath, VStr newpath] \<Rightarrow> std_call P (os_link P (c_str oldpath) (c_str newpath)) s
        | _ \<Rightarrow> Undef) s"

definition exp_symlink :: "'w handler" where
  "exp_symlink P args s =
     with_args args [path_arg ''oldpath'', path_arg ''newpath'']
       (\<lambda>vals s. case vals of
          [VStr oldpath, VStr newpath] \<Rightarrow>
            std_call P (os_symlink P (c_str oldpath) (c_str newpath)) s
        | _ \<Rightarrow> Undef) s"

definition exp_unlink :: "'w handler" where
  "exp_unlink P args s =
     with_args args [path_arg ''path'']
       (\<lambda>vals s. case vals of
          [VStr path] \<Rightarrow> std_call P (os_unlink P (c_str path)) s
        | _ \<Rightarrow> Undef) s"

definition exp_rmdir :: "'w handler" where
  "exp_rmdir P args s =
     with_args args [path_arg ''path'']
       (\<lambda>vals s. case vals of
          [VStr path] \<Rightarrow> std_call P (os_rmdir P (c_str path)) s
        | _ \<Rightarrow> Undef) s"

text \<open>A \<open>long\<close> mode is cut to the 32 bits of \<open>mode_t\<close>, or of the \<open>int\<close> of \<open>access\<close>.\<close>

definition exp_mkdir :: "'w handler" where
  "exp_mkdir P args s =
     with_args args [path_arg ''path'', long_arg ''mode'']
       (\<lambda>vals s. case vals of
          [VStr path, VLong mode] \<Rightarrow> std_call P (os_mkdir P (c_str path) (ucast mode)) s
        | _ \<Rightarrow> Undef) s"

definition exp_chmod :: "'w handler" where
  "exp_chmod P args s =
     with_args args [path_arg ''path'', long_arg ''mode'']
       (\<lambda>vals s. case vals of
          [VStr path, VLong mode] \<Rightarrow> std_call P (os_chmod P (c_str path) (ucast mode)) s
        | _ \<Rightarrow> Undef) s"

definition exp_access :: "'w handler" where
  "exp_access P args s =
     with_args args [path_arg ''path'', long_arg ''mode'']
       (\<lambda>vals s. case vals of
          [VStr path, VLong mode] \<Rightarrow> std_call P (os_access P (c_str path) (ucast mode)) s
        | _ \<Rightarrow> Undef) s"

definition exp_lexists :: "'w handler" where
  "exp_lexists P args s =
     with_args args [path_arg ''path'']
       (\<lambda>vals s. case vals of
          [VStr path] \<Rightarrow>
            (case syscall (os_lstat P (c_str path)) s of
               (None, s) \<Rightarrow> Ret ((Some (JsonNode_newFromBoolean c_FALSE), None), s)
             | (Some _, s) \<Rightarrow> Ret ((Some (JsonNode_newFromBoolean c_TRUE), None), s))
        | _ \<Rightarrow> Undef) s"

section \<open>Directories\<close>

fun listdir_loop :: "string list \<Rightarrow> json \<Rightarrow> json outcome" where
  "listdir_loop [] result = Ret result"
| "listdir_loop (fname # eps) result =
     (if c_streq fname ''.'' then listdir_loop eps result
      else if c_streq fname ''..'' then listdir_loop eps result
      else bind_outcome (JsonNode_array_append result (JsonNode_newFromString fname))
             (listdir_loop eps))"

definition exp_listdir :: "'w handler" where
  "exp_listdir P args s =
     with_args args [path_arg ''path'']
       (\<lambda>vals s. case vals of
          [VStr path] \<Rightarrow>
            (case c_open_call (os_opendir P (c_str path)) s of (dp, s) \<Rightarrow>
               if dp < 0 then
                 Ret ((None, Some (set_error_from_errno P IOPROCESS_GENERAL_ERROR (errno s))), s)
               else case os_readdir P (nat dp) (os s) of (eps, w) \<Rightarrow>
                 bind_outcome (listdir_loop eps JsonNode_newArray)
                   (\<lambda>result. Ret ((Some result, None), close_quiet P dp (s\<lparr>os := w\<rparr>))))
        | _ \<Rightarrow> Undef) s"

definition GLOB_NOSPACE :: int where "GLOB_NOSPACE = 1"
definition GLOB_ABORTED :: int where "GLOB_ABORTED = 2"
definition GLOB_NOMATCH :: int where "GLOB_NOMATCH = 3"

fun append_all :: "string list \<Rightarrow> json \<Rightarrow> json outcome" where
  "append_all [] result = Ret result"
| "append_all (p # ps) result =
     bind_outcome (JsonNode_array_append result (JsonNode_newFromString p)) (append_all ps)"

definition exp_glob :: "'w handler" where
  "exp_glob P args s =
     with_args args [path_arg ''pattern'']
       (\<lambda>vals s. case vals of
          [VStr pattern] \<Rightarrow>
            (case os_glob P (c_str pattern) (os s) of ((rv, gl_pathv), w) \<Rightarrow>
               let s1 = s\<lparr>os := w\<rparr>; result = JsonNode_newArray in
               if rv = GLOB_NOSPACE then
                 Ret ((Some result, Some (set_error_from_errno P IOPROCESS_GENERAL_ERROR ENOMEM)), s1)
               else if rv = GLOB_ABORTED then
                 Ret ((Some result, Some (set_error_from_errno P IOPROCESS_GENERAL_ERROR EIO)), s1)
               else if rv = GLOB_NOMATCH then Ret ((Some result, None), s1)
               else bind_outcome (append_all gl_pathv result) (\<lambda>r. Ret ((Some r, None), s1)))
        | _ \<Rightarrow> Undef) s"

section \<open>Attributes\<close>

text \<open>Unsigned fields are zero-extended to \<open>long\<close>; times become doubles.\<close>

definition stat_map :: "stat \<Rightarrow> json" where
  "stat_map st = map_puts [
     (''st_ino'', JsonNode_newFromLong (st_ino st)),
     (''st_dev'', JsonNode_newFromLong (st_dev st)),
     (''st_mode'', JsonNode_newFromLong (ucast (st_mode st))),
     (''st_nlink'', JsonNode_newFromLong (st_nlink st)),
     (''st_uid'', JsonNode_newFromLong (ucast (st_uid st))),
     (''st_gid'', JsonNode_newFromLong (ucast (st_gid st))),
     (''st_size'', JsonNode_newFromLong (st_size st)),
     (''st_atime'', JsonNode_newFromDouble (double_of_int (sint (st_atime st)))),
     (''st_mtime'', JsonNode_newFromDouble (double_of_int (sint (st_mtime st)))),
     (''st_ctime'', JsonNode_newFromDouble (double_of_int (sint (st_ctime st)))),
     (''st_blocks'', JsonNode_newFromLong (st_blocks st))] JsonNode_newMap"

definition exp_stat :: "'w handler" where
  "exp_stat P args s =
     with_args args [path_arg ''path'']
       (\<lambda>vals s. case vals of
          [VStr path] \<Rightarrow>
            (case syscall (os_stat P (c_str path)) s of
               (None, s) \<Rightarrow>
                 Ret ((None, Some (set_error_from_errno P IOPROCESS_STDAPI_ERROR (errno s))), s)
             | (Some st, s) \<Rightarrow> Ret ((Some (stat_map st), None), s))
        | _ \<Rightarrow> Undef) s"

definition exp_lstat :: "'w handler" where
  "exp_lstat P args s =
     with_args args [path_arg ''path'']
       (\<lambda>vals s. case vals of
          [VStr path] \<Rightarrow>
            (case syscall (os_lstat P (c_str path)) s of
               (None, s) \<Rightarrow>
                 Ret ((None, Some (set_error_from_errno P IOPROCESS_STDAPI_ERROR (errno s))), s)
             | (Some st, s) \<Rightarrow> Ret ((Some (stat_map st), None), s))
        | _ \<Rightarrow> Undef) s"

definition statvfs_map :: "statvfs \<Rightarrow> json" where
  "statvfs_map st = map_puts [
     (''f_bsize'', JsonNode_newFromLong (f_bsize st)),
     (''f_frsize'', JsonNode_newFromLong (f_frsize st)),
     (''f_blocks'', JsonNode_newFromLong (f_blocks st)),
     (''f_bfree'', JsonNode_newFromLong (f_bfree st)),
     (''f_bavail'', JsonNode_newFromLong (f_bavail st)),
     (''f_files'', JsonNode_newFromLong (f_files st)),
     (''f_ffree'', JsonNode_newFromLong (f_ffree st)),
     (''f_favail'', JsonNode_newFromLong (f_favail st)),
     (''f_fsid'', JsonNode_newFromLong (f_fsid st)),
     (''f_flag'', JsonNode_newFromLong (f_flag st)),
     (''f_namemax'', JsonNode_newFromDouble (double_of_int (uint (f_namemax st))))]
     JsonNode_newMap"

definition exp_statvfs :: "'w handler" where
  "exp_statvfs P args s =
     with_args args [path_arg ''path'']
       (\<lambda>vals s. case vals of
          [VStr path] \<Rightarrow>
            (case syscall (os_statvfs P (c_str path)) s of
               (None, s) \<Rightarrow>
                 Ret ((None, Some (set_error_from_errno P IOPROCESS_STDAPI_ERROR (errno s))), s)
             | (Some st, s) \<Rightarrow> Ret ((Some (statvfs_map st), None), s))
        | _ \<Rightarrow> Undef) s"

section \<open>The contract holds\<close>

lemma std_call_keeps: "std_call P f s = Ret (r, s') \<Longrightarrow> keeps s r s'"
  by (auto simp: std_call_def intro: stdApiWrapper_keeps split: prod.split_asm)

lemma listdir_loop_wf:
  "listdir_loop eps r = Ret r' \<Longrightarrow> wf_json r \<Longrightarrow> wf_json r'"
proof (induction eps r rule: listdir_loop.induct)
  case (2 fname eps r)
  then show ?case
    using wf_array_append [of r "JsonNode_newFromString fname"]
    by (auto simp: bind_outcome_eq_Ret split: if_splits)
qed simp

lemma append_all_wf:
  "append_all ps r = Ret r' \<Longrightarrow> wf_json r \<Longrightarrow> wf_json r'"
proof (induction ps r rule: append_all.induct)
  case (2 p ps r)
  then show ?case
    using wf_array_append [of r "JsonNode_newFromString p"]
    by (auto simp: bind_outcome_eq_Ret)
qed simp

lemma open_close_fds:
  "c_open_call f s = (fd, s1) \<Longrightarrow> \<not> fd < 0 \<Longrightarrow> remove1 (nat fd) (fds s1) = fds s"
  "c_open_call f s = (fd, s1) \<Longrightarrow> fd < 0 \<Longrightarrow> fds s1 = fds s"
  by (auto elim: c_open_call_cases)

lemma stat_map_wf [simp]: "wf_json (stat_map st)" "wf_json (statvfs_map sv)"
  unfolding stat_map_def statvfs_map_def by (intro wf_map_puts; simp)+

interpretation ping: exported_function exp_ping
  by unfold_locales (auto simp: exp_ping_def keeps_def)

interpretation memstat: exported_function exp_memstat
  by unfold_locales
    (auto simp: exp_memstat_def keeps_def Let_def open_close_fds split: prod.split_asm if_split_asm)

interpretation crash: exported_function exp_crash
  by unfold_locales (simp add: exp_crash_def)

interpretation echo: exported_function exp_echo
  by unfold_locales (unfold exp_echo_def, erule with_args_keeps [rotated],
      auto simp: keeps_def Let_def split: body_splits)

interpretation rename: exported_function exp_rename
  by unfold_locales (unfold exp_rename_def, erule with_args_keeps [rotated],
      auto dest: std_call_keeps split: body_splits)

interpretation link: exported_function exp_link
  by unfold_locales (unfold exp_link_def, erule with_args_keeps [rotated],
      auto dest: std_call_keeps split: body_splits)

interpretation symlink: exported_function exp_symlink
  by unfold_locales (unfold exp_symlink_def, erule with_args_keeps [rotated],
      auto dest: std_call_keeps split: body_splits)

interpretation unlink: exported_function exp_unlink
  by unfold_locales (unfold exp_unlink_def, erule with_args_keeps [rotated],
      auto dest: std_call_keeps split: body_splits)

interpretation rmdir: exported_function exp_rmdir
  by unfold_locales (unfold exp_rmdir_def, erule with_args_keeps [rotated],
      auto dest: std_call_keeps split: body_splits)

interpretation mkdir: exported_function exp_mkdir
  by unfold_locales (unfold exp_mkdir_def, erule with_args_keeps [rotated],
      auto dest: std_call_keeps split: body_splits)

interpretation chmod: exported_function exp_chmod
  by unfold_locales (unfold exp_chmod_def, erule with_args_keeps [rotated],
      auto dest: std_call_keeps split: body_splits)

interpretation access: exported_function exp_access
  by unfold_locales (unfold exp_access_def, erule with_args_keeps [rotated],
      auto dest: std_call_keeps split: body_splits)

interpretation lexists: exported_function exp_lexists
  by unfold_locales (unfold exp_lexists_def, erule with_args_keeps [rotated],
      auto simp: keeps_def split: body_splits)

interpretation listdir: exported_function exp_listdir
  by unfold_locales (unfold exp_listdir_def, erule with_args_keeps [rotated],
      auto simp: keeps_def bind_outcome_eq_Ret open_close_fds dest: listdir_loop_wf split: body_splits)

interpretation glob: exported_function exp_glob
  by unfold_locales (unfold exp_glob_def, erule with_args_keeps [rotated],
      auto simp: keeps_def bind_outcome_eq_Ret Let_def dest: append_all_wf split: body_splits)

interpretation stat: exported_function exp_stat
  by unfold_locales (unfold exp_stat_def, erule with_args_keeps [rotated],
      auto simp: keeps_def split: body_splits)

interpretation lstat: exported_function exp_lstat
  by unfold_locales (unfold exp_lstat_def, erule with_args_keeps [rotated],
      auto simp: keeps_def split: body_splits)

interpretation statvfs: exported_function exp_statvfs
  by unfold_locales (unfold exp_statvfs_def, erule with_args_keeps [rotated],
      auto simp: keeps_def split: body_splits)

section \<open>Lists of names\<close>

lemma append_all_array: "append_all ps (JArray a) = Ret (JArray (a @ map JsonNode_newFromString ps))"
  by (induction ps arbitrary: a) simp_all

lemma listdir_loop_array:
  "listdir_loop eps (JArray a) =
     Ret (JArray (a @ map JsonNode_newFromString (filter (\<lambda>e. c_str e \<notin> {''.'', ''..''}) eps)))"
  by (induction eps arbitrary: a) (simp_all add: c_streq_def c_str_def)

section \<open>Attributes read back\<close>

lemma stat_map_fields:
  "map_get (stat_map st) ''st_mode'' = Some (JLong (ucast (st_mode st)))"
  "map_get (stat_map st) ''st_size'' = Some (JLong (st_size st))"
  "map_get (stat_map st) ''st_mtime'' = Some (JDouble (double_of_int (sint (st_mtime st))))"
  unfolding stat_map_def
  by (rule node_map.get_put_all;
      simp add: c_str_def JsonNode_newFromLong_def JsonNode_newFromDouble_def)+

section \<open>Properties\<close>

text \<open>The arguments of the properties: a map with the given fields.\<close>

definition has_string :: "json \<Rightarrow> string \<Rightarrow> string \<Rightarrow> bool" where
  "has_string a n v \<longleftrightarrow> is_JMap a \<and> map_get a n = Some (JString v)"

definition has_long :: "json \<Rightarrow> string \<Rightarrow> c_long \<Rightarrow> bool" where
  "has_long a n v \<longleftrightarrow> is_JMap a \<and> map_get a n = Some (JLong v)"

definition has_bool :: "json \<Rightarrow> string \<Rightarrow> c_int \<Rightarrow> bool" where
  "has_bool a n v \<longleftrightarrow> is_JMap a \<and> map_get a n = Some (JBoolean v)"

lemmas has_defs = has_string_def has_long_def has_bool_def

lemma safeGetArgValue_has [simp]:
  "has_string a n v \<Longrightarrow> safeGetArgValue (Some a) n JT_STRING TString old = Ret (VStr v, None)"
  "has_long a n l \<Longrightarrow> safeGetArgValue (Some a) n JT_LONG TLong old = Ret (VLong l, None)"
  "has_bool a n b \<Longrightarrow> safeGetArgValue (Some a) n JT_BOOLEAN TInt old = Ret (VInt b, None)"
  by (auto simp: has_defs safeGetArgValue_def safeGetArg_def is_JMap_def map_get_def)

text \<open>
  \<open>rename\<close> makes one call of \<open>rename(2)\<close> on its two paths, as C strings; it answers
  true when that succeeds, and false with the standard API error of the call's \<open>errno\<close>
  when it fails. The other wrappers of one system call have the same shape.
\<close>

lemma rename_reports_call:
  assumes "has_string a ''oldpath'' old" and "has_string a ''newpath'' new"
  shows "exp_rename P (Some a) s =
    (case os_rename P (c_str old) (c_str new) (os s) of
       (Succ _, w) \<Rightarrow> Ret ((Some (JBoolean 1), None), s\<lparr>os := w\<rparr>)
     | (Fail e, w) \<Rightarrow>
         Ret ((Some (JBoolean 0), Some (mk_error IOPROCESS_STDAPI_ERROR e (iop_msg (strerr P) e))),
              s\<lparr>os := w, errno := e\<rparr>))"
  using assms
  by (simp add: exp_rename_def with_args_def std_call_def c_call_def syscall_def stdApiWrapper_def
      set_error_from_errno_def JsonNode_newFromBoolean_def c_TRUE_def c_FALSE_def
      split: prod.split sysres.split)

lemma rename_reports_call_witness:
  "exp_rename demo_posix (Some (JMap [(''oldpath'', JString ''a''), (''newpath'', JString ''b'')])) (demo_proc []) =
   Ret ((Some (JBoolean 1), None), demo_proc [])"
  using rename_reports_call [of "JMap [(''oldpath'', JString ''a''), (''newpath'', JString ''b'')]"
      "''a''" "''b''" demo_posix "demo_proc []"]
  by (simp add: has_defs c_str_def demo_posix_def demo_ok_def demo_proc_def)

text \<open>A path that is no string is not caught: the wrapper uses the number as a pointer.\<close>

lemma numeric_path_undefined:
  assumes "has_long a ''path'' l"
  shows "exp_unlink P (Some a) s = Undef"
  using assms
  by (auto simp: exp_unlink_def with_args_def safeGetArgValue_def safeGetArg_def has_long_def
      is_JMap_def map_get_def)

text \<open>
  \<open>echo\<close> sleeps for the given seconds, modulo \<open>2^32\<close>, and answers the text up to its
  first NUL byte; it is the identity exactly on texts without one.
\<close>

lemma echo_answers_text:
  assumes "has_string a ''text'' t" and "has_long a ''sleep'' n"
  shows "\<exists>s' answer. exp_echo P (Some a) s = Ret ((Some (JString answer), None), s') \<and>
    answer = c_str t \<and> (answer = t \<longleftrightarrow> CHR 0x00 \<notin> set t) \<and>
    os s' = (if 0 < sint n then os_sleep P (ucast n) (os s) else os s)"
proof -
  have "c_str t = t \<longleftrightarrow> CHR 0x00 \<notin> set t"
    by (auto simp: nul_free_iff [symmetric] nul_free_def list_all_iff)
  then show ?thesis
    using assms by (simp add: exp_echo_def with_args_def JsonNode_newFromString_def Let_def)
qed

lemma echo_answers_text_witness:
  "\<exists>s' answer. exp_echo demo_posix (Some (JMap [(''text'', JString [CHR 0x68, CHR 0x00, CHR 0x69]),
      (''sleep'', JLong 1)])) (demo_proc []) = Ret ((Some (JString answer), None), s') \<and>
    answer = ''h'' \<and> slept (os s') = 1"
  using echo_answers_text [of "JMap [(''text'', JString [CHR 0x68, CHR 0x00, CHR 0x69]), (''sleep'', JLong 1)]"
      "[CHR 0x68, CHR 0x00, CHR 0x69]" 1 demo_posix "demo_proc []"]
  by (auto simp: has_defs c_str_def demo_posix_def demo_proc_def)

text \<open>
  C28: \<open>listdir\<close> answers the names of the directory in the order \<open>readdir\<close> gives them,
  without the entries \<open>.\<close> and \<open>..\<close> and without any other change, and closes the directory.
\<close>

theorem listdir_names:
  assumes "has_string a ''path'' path" and "os_opendir P (c_str path) (os s) = (Succ dp, w)"
    and "os_readdir P dp w = (names, w')" and "list_all nul_free names"
  shows "\<exists>s'. exp_listdir P (Some a) s =
      Ret ((Some (JArray (map JString (filter (\<lambda>e. e \<notin> {''.'', ''..''}) names))), None), s') \<and>
    fds s' = fds s"
proof -
  have "map JsonNode_newFromString (filter (\<lambda>e. c_str e \<notin> {''.'', ''..''}) names) =
      map JString (filter (\<lambda>e. e \<notin> {''.'', ''..''}) names)"
    using assms(4) by (induction names) (auto simp: JsonNode_newFromString_def)
  then show ?thesis
    using assms(1-3) listdir_loop_array [of names "[]"]
    by (simp add: exp_listdir_def with_args_def c_open_call_def syscall_def JsonNode_newArray_def)
qed

lemma listdir_names_witness:
  "\<exists>s'. exp_listdir demo_posix (Some (JMap [(''path'', JString ''d'')])) (demo_proc []) =
    Ret ((Some (JArray [JString ''a'', JString ''b'']), None), s') \<and> fds s' = []"
  using listdir_names [of "JMap [(''path'', JString ''d'')]" "''d''" demo_posix "demo_proc []" 3 _
      "[''.'', ''..'', ''a'', ''b'']"]
  by (simp add: has_defs c_str_def nul_free_def demo_posix_def demo_proc_def)

text \<open>
  \<open>glob\<close> answers the matches in order; no match is an empty array without an error, a
  failed allocation \<open>ENOMEM\<close> and an unreadable directory \<open>EIO\<close>.
\<close>

lemma glob_outcomes:
  assumes "has_string a ''pattern'' pat" and "os_glob P (c_str pat) (os s) = ((rv, names), w)"
  shows "\<exists>array err s'. exp_glob P (Some a) s = Ret ((Some (JArray array), err), s') \<and>
    array = (if rv \<in> {1, 2, 3} then [] else map (\<lambda>n. JString (c_str n)) names) \<and>
    map_option code err = (if rv = 1 then Some ENOMEM else if rv = 2 then Some EIO else None)"
  using assms append_all_array [of names "[]"]
  by (auto simp: exp_glob_def with_args_def Let_def GLOB_NOSPACE_def GLOB_ABORTED_def GLOB_NOMATCH_def
      JsonNode_newArray_def JsonNode_newFromString_def set_error_from_errno_def)

lemma glob_outcomes_witness:
  "\<exists>array err s'. exp_glob demo_posix (Some (JMap [(''pattern'', JString ''*'')])) (demo_proc []) =
      Ret ((Some (JArray array), err), s') \<and> array = [JString ''a'', JString ''b''] \<and> err = None"
  using glob_outcomes [of "JMap [(''pattern'', JString ''*'')]" "''*''" demo_posix "demo_proc []"]
  by (simp add: has_defs c_str_def demo_posix_def demo_proc_def)

text \<open>
  C29: \<open>stat\<close> answers the attributes of its path: the mode, size and modification time of
  the call's result, in the fields of those names; a failure is a null result with the
  standard API error of the call's \<open>errno\<close>.
\<close>

theorem stat_answers_attributes:
  assumes "has_string a ''path'' path"
  shows "(\<exists>st w res. os_stat P (c_str path) (os s) = (Succ st, w) \<and>
      exp_stat P (Some a) s = Ret ((Some res, None), s\<lparr>os := w\<rparr>) \<and>
      map_get res ''st_mode'' = Some (JLong (ucast (st_mode st))) \<and>
      map_get res ''st_size'' = Some (JLong (st_size st)) \<and>
      map_get res ''st_mtime'' = Some (JDouble (double_of_int (sint (st_mtime st))))) \<or>
    (\<exists>e w. os_stat P (c_str path) (os s) = (Fail e, w) \<and>
      exp_stat P (Some a) s =
        Ret ((None, Some (mk_error IOPROCESS_STDAPI_ERROR e (iop_msg (strerr P) e))), s\<lparr>os := w, errno := e\<rparr>))"
proof -
  obtain r w where r: "os_stat P (c_str path) (os s) = (r, w)" by fastforce
  show ?thesis
    using assms r
    by (cases r) (simp_all add: exp_stat_def with_args_def syscall_def stat_map_fields set_error_from_errno_def)
qed

lemma stat_answers_attributes_witness:
  "\<exists>w res. exp_stat demo_posix (Some (JMap [(''path'', JString ''f'')])) (demo_proc ''abc'') =
      Ret ((Some res, None), (demo_proc ''abc'')\<lparr>os := w\<rparr>) \<and>
    map_get res ''st_mode'' = Some (JLong 0x81A4) \<and> map_get res ''st_size'' = Some (JLong 3)"
  using stat_answers_attributes [of "JMap [(''path'', JString ''f'')]" "''f''" demo_posix "demo_proc ''abc''"]
  by (auto simp: has_defs c_str_def demo_posix_def demo_proc_def demo_stat_def)

text \<open>
  The time stamps of a \<open>stat\<close> answer, which are sent as doubles, are exact for all times
  of less than \<open>2^53\<close> seconds from the epoch.
\<close>

lemma stat_times_exact:
  assumes "\<bar>sint (st_mtime st)\<bar> < 2 ^ 53"
  shows "\<exists>d. map_get (stat_map st) ''st_mtime'' = Some (JDouble d) \<and> double_int d = sint (st_mtime st)"
  using stat_map_fields(3) [of st] double_of_int_exact [OF assms] by blast

lemma stat_times_exact_witness:
  "\<exists>d. map_get (stat_map (demo_stat \<lparr>content = [], pos = 0, slept = 0\<rparr>)) ''st_mtime'' = Some (JDouble d) \<and>
    double_int d = 2000"
  using stat_times_exact [of "demo_stat \<lparr>content = [], pos = 0, slept = 0\<rparr>"]
  by (simp add: demo_stat_def)

end
