(* ===== verification/Exported_Files.thy ===== *)
theory Exported_Files
  imports Exported_Paths
begin

text \<open>
  The exported functions of \<open>src/exported-functions.c\<close> that work on an open file:
  \<open>touch\<close>, \<open>truncate\<close>, \<open>fsyncPath\<close>, \<open>writefile\<close> and \<open>readfile\<close>. The transfer loops
  need not end (a kernel that accepts no byte, a file that shrank), so they are partial
  functions; \<open>None\<close> is a loop that runs for ever.
\<close>

abbreviation bool_arg :: "string \<Rightarrow> cval \<Rightarrow> arg" where
  "bool_arg n old \<equiv> (n, JT_BOOLEAN, TInt, old)"

definition defMode :: c_long where
  "defMode = ucast (S_IRUSR OR S_IWUSR OR S_IRGRP OR S_IROTH)"

section \<open>touch, truncate, fsyncPath\<close>

definition exp_touch :: "'w handler" where
  "exp_touch P args s =
     with_args args [path_arg ''path'', long_arg ''flags'', long_arg ''mode'']
       (\<lambda>vals s. case vals of
          [VStr path, VLong flags, VLong mode] \<Rightarrow>
            (let mode = (if mode = 0 then defMode else mode);
                 allFlags = ucast (O_WRONLY OR O_CREAT) :: c_long;
                 allFlags = (if flags \<noteq> 0 then allFlags OR flags else allFlags)
             in case c_open P path (ucast allFlags) (ucast mode) s of (fd, s) \<Rightarrow>
               if fd = - 1 then Ret (stdApiWrapper P fd s, s)
               else case c_call (os_futimens P (nat fd)) s of (rv, s) \<Rightarrow>
                 let s = close_quiet P fd s in Ret (stdApiWrapper P rv s, s))
        | _ \<Rightarrow> Undef) s"

definition exp_truncate :: "'w handler" where
  "exp_truncate P args s =
     with_args args [path_arg ''path'', long_arg ''size'', long_arg ''mode'', bool_arg ''excl'' (VInt 0)]
       (\<lambda>vals s. case vals of
          [VStr path, VLong sz, VLong mode, VInt excl] \<Rightarrow>
            (let mode = (if mode = 0 then defMode else mode);
                 flags = O_CREAT OR O_WRONLY;
                 flags = (if excl \<noteq> 0 then flags OR O_EXCL else flags)
             in case c_open P path flags (ucast mode) s of (fd, s) \<Rightarrow>
               if fd = - 1 then Ret (stdApiWrapper P fd s, s)
               else case c_call (os_ftruncate P (nat fd) sz) s of (rv, s) \<Rightarrow>
                 let s = close_quiet P fd s in Ret (stdApiWrapper P rv s, s))
        | _ \<Rightarrow> Undef) s"

definition exp_fsyncPath :: "'w handler" where
  "exp_fsyncPath P args s =
     with_args args [path_arg ''path'']
       (\<lambda>vals s. case vals of
          [VStr path] \<Rightarrow>
            (case c_open P path O_RDONLY 0 s of (fd, s) \<Rightarrow>
               if fd = - 1 then
                 Ret ((None, Some (set_error_from_errno P IOPROCESS_GENERAL_ERROR (errno s))), s)
               else case c_call (os_fsync P (nat fd)) s of (rv, s) \<Rightarrow>
                 let err = (if rv \<noteq> 0
                            then Some (set_error_from_errno P IOPROCESS_STDAPI_ERROR (errno s))
                            else None)
                 in Ret ((None, err), close_quiet P fd s))
        | _ \<Rightarrow> Undef) s"

section \<open>writefile\<close>

definition SAFE_ALIGN :: nat where
  "SAFE_ALIGN = 4096"

definition general_error :: "'w posix \<Rightarrow> int \<Rightarrow> gerror" where
  "general_error P e = set_error_from_errno P IOPROCESS_GENERAL_ERROR e"

text \<open>The loop ends with an error or with all the data written.\<close>

partial_function (option) write_loop :: "'w posix \<Rightarrow> nat \<Rightarrow> string \<Rightarrow> nat \<Rightarrow> 'w proc
    \<Rightarrow> (gerror option \<times> 'w proc) option" where
  "write_loop px fd data bwritten s =
     (if bwritten < length data then
        (case syscall (os_write px fd (drop bwritten data)) s of
           (None, s') \<Rightarrow> Some (Some (general_error px (errno s')), s')
         | (Some rv, s') \<Rightarrow> write_loop px fd data (bwritten + rv) s')
      else Some (None, s))"

definition write_body :: "'w posix \<Rightarrow> int \<Rightarrow> string \<Rightarrow> 'w proc \<Rightarrow> (gerror option \<times> 'w proc) outcome" where
  "write_body P fd data s =
     bind_outcome (of_option (write_loop P (nat fd) data 0 s)) (\<lambda>(err, s).
       case err of
         Some e \<Rightarrow> Ret (Some e, s)
       | None \<Rightarrow>
           (case c_call (os_fsync P (nat fd)) s of (rv, s) \<Rightarrow>
              Ret (if rv \<noteq> 0 then Some (general_error P (errno s)) else None, s)))"

text \<open>
  \<open>posix_memalign\<close> returns its error and does not set \<open>errno\<close>; \<open>writefile\<close> reports
  \<open>errno\<close> all the same.
\<close>

definition exp_writefile :: "'w handler" where
  "exp_writefile P args s =
     with_args args [path_arg ''path'', path_arg ''data'', bool_arg ''direct'' VBad]
       (\<lambda>vals s. case vals of
          [VStr path, VStr dataStr, VInt direct] \<Rightarrow>
            (let flags = O_WRONLY OR O_CREAT OR O_TRUNC;
                 flags = (if direct \<noteq> 0 then flags OR O_DIRECT else flags)
             in case c_open P path flags
                  (S_IRUSR OR S_IWUSR OR S_IRGRP OR S_IWGRP OR S_IROTH) s of (fd, s) \<Rightarrow>
               if fd = - 1 then Ret ((None, Some (general_error P (errno s))), s)
               else
                 let data = g_b64_decode P (c_str dataStr);
                     (rv, w) = (if direct \<noteq> 0
                                then os_memalign P SAFE_ALIGN (length data) (os s) else (0, os s));
                     s = s\<lparr>os := w\<rparr>
                 in if rv \<noteq> 0 then
                      Ret ((None, Some (general_error P (errno s))), close_quiet P fd s)
                    else bind_outcome (write_body P fd data s) (\<lambda>(err, s).
                      Ret ((None, err), close_quiet P fd s)))
        | _ \<Rightarrow> Undef) s"

section \<open>readfile\<close>

text \<open>The size of the base64 buffer, computed in \<open>unsigned long\<close> and stored in an \<open>int\<close>.\<close>

definition b64_buffsize :: "c_long \<Rightarrow> c_int" where
  "b64_buffsize buffsize = ucast ((buffsize div 3 + 1) * 4 + 4)"

text \<open>
  The size of the base64 buffer (what \<open>malloc\<close> got, the \<open>int\<close> converted to \<open>size_t\<close>)
  bounds what each encoding step may write, and the close of the encoder, which an error of
  \<open>read\<close> calls as well. The total is an \<open>int\<close>: passing its maximum is
  undefined.
\<close>

partial_function (option) read_loop :: "'w posix \<Rightarrow> nat \<Rightarrow> nat \<Rightarrow> nat \<Rightarrow> int \<Rightarrow> int \<Rightarrow> string
    \<Rightarrow> b64_state \<Rightarrow> 'w proc \<Rightarrow> ((gerror + int \<times> string \<times> b64_state) \<times> 'w proc) outcome option" where
  "read_loop px fd buffsize b64size st_sz total_rd b64str st s =
     (if total_rd < st_sz then
        (case syscall (os_read px fd buffsize) s of
           (None, s') \<Rightarrow>
             if b64size < length (fst (g_b64_close px st)) then Some Undef
             else Some (Ret (Inl (general_error px (errno s')), s'))
         | (Some buff, s') \<Rightarrow>
             if 2 ^ 31 \<le> total_rd + int (length buff) then Some Undef
             else case g_b64_step px buff st of (b64buff, st') \<Rightarrow>
               if b64size < length b64buff then Some Undef
               else read_loop px fd buffsize b64size st_sz (total_rd + int (length buff))
                      (b64str @ b64buff) st' s')
      else Some (Ret (Inr (total_rd, b64str, st), s)))"

definition read_finish :: "'w posix \<Rightarrow> nat \<Rightarrow> int \<Rightarrow> string \<Rightarrow> b64_state \<Rightarrow> json outcome" where
  "read_finish P b64size total_rd b64str st =
     (if 0 < total_rd then
        (let b64buff = fst (g_b64_close P st) in
         if b64size < length b64buff then Undef
         else Ret (JsonNode_newFromString (b64str @ b64buff)))
      else Ret (JsonNode_newFromString b64str))"

definition read_result :: "'w posix \<Rightarrow> nat \<Rightarrow> gerror + int \<times> string \<times> b64_state \<Rightarrow> 'w proc
    \<Rightarrow> 'w hres" where
  "read_result P b64size r s =
     (case r of
        Inl e \<Rightarrow> Ret ((None, Some e), s)
      | Inr (total_rd, b64str, st) \<Rightarrow>
          bind_outcome (read_finish P b64size total_rd b64str st)
            (\<lambda>result. Ret ((Some result, None), s)))"

definition read_body :: "'w posix \<Rightarrow> int \<Rightarrow> 'w proc \<Rightarrow> 'w hres" where
  "read_body P fd s =
     (case syscall (os_fstat P (nat fd)) s of
        (None, s) \<Rightarrow> Ret ((None, Some (general_error P (errno s))), s)
      | (Some st, s) \<Rightarrow>
     (case syscall (os_fstatvfs P (nat fd)) s of
        (None, s) \<Rightarrow> Ret ((None, Some (general_error P (errno s))), s)
      | (Some svfs, s) \<Rightarrow>
     (let buffsize = f_bsize svfs; b64buffsize = b64_buffsize buffsize in
      case os_memalign P SAFE_ALIGN (unat buffsize) (os s) of (rv, w) \<Rightarrow>
      let s = s\<lparr>os := w\<rparr> in
      if rv \<noteq> 0 then Ret ((None, Some (general_error P rv)), s)
      else
        let b64size = unat (scast b64buffsize :: c_long) in
        case syscall (os_malloc P b64size) s of
          (None, s) \<Rightarrow> Ret ((None, Some (general_error P (errno s))), s)
        | (Some _, s) \<Rightarrow>
            bind_outcome (of_option (read_loop P (nat fd) (unat buffsize) b64size
                (sint (st_size st)) 0 [] (0, 0) s)) (\<lambda>out.
              bind_outcome out (\<lambda>(r, s). read_result P b64size r s)))))"

definition exp_readfile :: "'w handler" where
  "exp_readfile P args s =
     with_args args [path_arg ''path'', bool_arg ''direct'' (VInt 0)]
       (\<lambda>vals s. case vals of
          [VStr path, VInt direct] \<Rightarrow>
            (let flags = (if direct \<noteq> 0 then O_RDONLY OR O_DIRECT else O_RDONLY)
             in case c_open P path flags 0 s of (fd, s) \<Rightarrow>
               if fd = - 1 then Ret ((None, Some (general_error P (errno s))), s)
               else bind_outcome (read_body P fd s) (\<lambda>(r, s). Ret (r, close_quiet P fd s)))
        | _ \<Rightarrow> Undef) s"

section \<open>The contract holds\<close>

lemma write_loop_fds:
  assumes "write_loop P fd data n s = Some r"
  shows "fds (snd r) = fds s"
proof (rule write_loop.raw_induct [where P = "\<lambda>P fd data n s r. fds (snd r) = fds s", OF _ assms])
  fix f :: "'w posix \<Rightarrow> nat \<Rightarrow> string \<Rightarrow> nat \<Rightarrow> 'w proc \<Rightarrow> (gerror option \<times> 'w proc) option"
    and P fd data n s r
  assume IH: "\<And>P fd data n s r. f P fd data n s = Some r \<Longrightarrow> fds (snd r) = fds s"
    and eq: "(if n < length data then
        (case syscall (os_write P fd (drop n data)) s of
           (None, s') \<Rightarrow> Some (Some (general_error P (errno s')), s')
         | (Some rv, s') \<Rightarrow> f P fd data (n + rv) s')
      else Some (None, s)) = Some r"
  from eq show "fds (snd r) = fds s"
    by (auto split: if_split_asm prod.split_asm option.split_asm dest!: IH)
qed

lemma read_loop_fds:
  assumes "read_loop P fd bs b64 sz tot str st s = Some r"
  shows "\<forall>x s'. r = Ret (x, s') \<longrightarrow> fds s' = fds s"
proof (rule read_loop.raw_induct
    [where P = "\<lambda>P fd bs b64 sz tot str st s r. \<forall>x s'. r = Ret (x, s') \<longrightarrow> fds s' = fds s",
      OF _ assms], goal_cases)
  case (1 f P fd bs b64 sz tot str st s r)
  from 1(2) show ?case
    by (auto split: if_split_asm prod.split_asm option.split_asm dest!: 1(1))
qed

lemma c_open_fds:
  "c_open P path fl m s = (fd, s1) \<Longrightarrow> fd \<noteq> - 1 \<Longrightarrow> remove1 (nat fd) (fds s1) = fds s"
  "c_open P path fl m s = (- 1, s1) \<Longrightarrow> fds s1 = fds s"
  unfolding c_open_def by (auto elim!: c_open_call_cases)

interpretation touch: exported_function exp_touch
  by unfold_locales (unfold exp_touch_def, erule with_args_keeps [rotated],
      auto simp: Let_def c_open_fds intro: stdApiWrapper_keeps split: body_splits)

interpretation truncate: exported_function exp_truncate
  by unfold_locales (unfold exp_truncate_def, erule with_args_keeps [rotated],
      auto simp: Let_def c_open_fds intro: stdApiWrapper_keeps split: body_splits)

interpretation fsyncPath: exported_function exp_fsyncPath
  by unfold_locales (unfold exp_fsyncPath_def, erule with_args_keeps [rotated],
      auto simp: Let_def keeps_def c_open_fds split: body_splits)

lemma write_body_fds: "write_body P fd data s = Ret (e, s') \<Longrightarrow> fds s' = fds s"
  unfolding write_body_def
  by (cases "write_loop P (nat fd) data 0 s")
    (auto simp: bind_outcome_eq_Ret dest!: write_loop_fds split: option.split_asm prod.split_asm)

interpretation writefile: exported_function exp_writefile
  by unfold_locales (unfold exp_writefile_def, erule with_args_keeps [rotated],
      auto simp: Let_def keeps_def c_open_fds bind_outcome_eq_Ret dest!: write_body_fds
        split: body_splits)

lemma read_finish_wf: "read_finish P b tot str st = Ret v \<Longrightarrow> wf_json v"
  by (auto simp: read_finish_def Let_def split: if_split_asm)

lemma read_result_keeps: "read_result P b r s = Ret (x, s') \<Longrightarrow> keeps s x s'"
  by (cases r) (auto simp: read_result_def keeps_def bind_outcome_eq_Ret dest!: read_finish_wf)

lemma read_body_keeps: "read_body P fd s = Ret (r, s') \<Longrightarrow> keeps s r s'"
  unfolding read_body_def
  by (auto simp: keeps_def Let_def bind_outcome_eq_Ret of_option_def
      dest!: read_loop_fds read_result_keeps split: body_splits)

interpretation readfile: exported_function exp_readfile
  by unfold_locales (unfold exp_readfile_def, erule with_args_keeps [rotated],
      auto simp: Let_def keeps_def c_open_fds bind_outcome_eq_Ret
        dest!: read_body_keeps split: body_splits)

section \<open>Writing all of the data\<close>

text \<open>
  Documented behaviour of the system, for a file whose bytes are a view of the world: a
  write appends at least one of the bytes it is given, \<open>fsync\<close> succeeds, and neither it nor
  \<open>close\<close> changes the file.
\<close>

definition accepts_writes :: "'w posix \<Rightarrow> nat \<Rightarrow> ('w \<Rightarrow> string) \<Rightarrow> bool" where
  "accepts_writes P fd view \<longleftrightarrow>
     (\<forall>bs w. bs \<noteq> [] \<longrightarrow> (\<exists>n w'. os_write P fd bs w = (Succ n, w') \<and> 0 < n \<and> n \<le> length bs \<and>
        view w' = view w @ take n bs)) \<and>
     (\<forall>w. \<exists>w'. os_fsync P fd w = (Succ (), w') \<and> view w' = view w) \<and>
     (\<forall>w. view (snd (os_close P fd w)) = view w)"

lemma write_loop_all:
  assumes "accepts_writes P fd view" and "n \<le> length data"
  shows "\<exists>s'. write_loop P fd data n s = Some (None, s') \<and> view (os s') = view (os s) @ drop n data"
  using assms(2)
proof (induction "length data - n" arbitrary: n s rule: less_induct)
  case less
  show ?case
  proof (cases "n < length data")
    case True
    then have "drop n data \<noteq> []" by simp
    with assms(1) obtain k w where k: "os_write P fd (drop n data) (os s) = (Succ k, w)" "0 < k"
      "k \<le> length (drop n data)" "view w = view (os s) @ take k (drop n data)"
      unfolding accepts_writes_def by meson
    have "\<exists>s'. write_loop P fd data (n + k) (s\<lparr>os := w\<rparr>) = Some (None, s') \<and>
        view (os s') = view (os (s\<lparr>os := w\<rparr>)) @ drop (n + k) data"
      using k(2,3) True by (intro less.hyps) auto
    moreover have "take k (drop n data) @ drop (n + k) data = drop n data"
      using append_take_drop_id [of k "drop n data"] by (simp add: add.commute)
    ultimately show ?thesis
      using k True by (subst write_loop.simps) (auto simp: syscall_def)
  next
    case False
    with less.prems show ?thesis by (subst write_loop.simps) simp
  qed
qed

text \<open>After the last write the file is synced, and nothing else is done to it.\<close>

lemma write_body_all:
  assumes "accepts_writes P (nat fd) view"
  shows "\<exists>w1 w2 s'. write_body P fd data s = Ret (None, s') \<and> view w1 = view (os s) @ data \<and>
    os_fsync P (nat fd) w1 = (Succ (), w2) \<and> view w2 = view w1 \<and> os s' = w2"
proof -
  obtain s1 where s1: "write_loop P (nat fd) data 0 s = Some (None, s1)" "view (os s1) = view (os s) @ data"
    using write_loop_all [OF assms, of 0 data s] by auto
  obtain w where w: "os_fsync P (nat fd) (os s1) = (Succ (), w)" "view w = view (os s1)"
    using assms unfolding accepts_writes_def by meson
  with s1 show ?thesis
    by (intro exI [of _ "os s1"] exI [of _ w] exI [of _ "s1\<lparr>os := w\<rparr>"])
      (simp add: write_body_def c_call_def syscall_def)
qed

lemma os_close_quiet: "os (close_quiet P fd s) = snd (os_close P (nat fd) (os s))"
  by (auto simp: close_quiet_def c_close_def c_call_def syscall_def split: prod.splits sysres.splits option.splits)

section \<open>Reading all of the file\<close>

text \<open>
  Documented behaviour for reading: \<open>rest\<close> is what the descriptor has still to give; a
  read gives some of it, and nothing only at the end.
\<close>

definition gives_reads :: "'w posix \<Rightarrow> nat \<Rightarrow> ('w \<Rightarrow> string) \<Rightarrow> bool" where
  "gives_reads P fd rest \<longleftrightarrow>
     (\<forall>n w. 0 < n \<longrightarrow> (\<exists>bs w'. os_read P fd n w = (Succ bs, w') \<and> rest w = bs @ rest w' \<and>
        length bs \<le> n \<and> (bs = [] \<longrightarrow> rest w = [])))"

text \<open>
  glib's incremental encoder: the output of the steps and of the final call is the encoding
  of all the input, and a step stays within the documented bound.
\<close>

fun b64_run :: "'w posix \<Rightarrow> string list \<Rightarrow> b64_state \<Rightarrow> string \<times> b64_state" where
  "b64_run P [] st = ([], st)"
| "b64_run P (c # cs) st =
     (case g_b64_step P c st of (out, st') \<Rightarrow>
      case b64_run P cs st' of (outs, st'') \<Rightarrow> (out @ outs, st''))"

definition b64_bound :: "nat \<Rightarrow> nat" where
  "b64_bound n = (n div 3 + 1) * 4 + 4"

definition encodes :: "'w posix \<Rightarrow> (string \<Rightarrow> string) \<Rightarrow> bool" where
  "encodes P enc \<longleftrightarrow>
     (\<forall>cs. fst (b64_run P cs (0, 0)) @ fst (g_b64_close P (snd (b64_run P cs (0, 0)))) = enc (concat cs)) \<and>
     (\<forall>bs st. length (fst (g_b64_step P bs st)) \<le> b64_bound (length bs)) \<and>
     (\<forall>st. length (fst (g_b64_close P st)) \<le> 4)"

lemma b64_bound_mono: "m \<le> n \<Longrightarrow> b64_bound m \<le> b64_bound n"
  by (simp add: b64_bound_def div_le_mono)

lemma b64_buffsize_exact:
  assumes "unat n \<le> 2 ^ 30"
  shows "unat (scast (b64_buffsize n) :: c_long) = b64_bound (unat n)"
proof -
  have "b64_bound (unat n) \<le> b64_bound (2 ^ 30)" by (rule b64_bound_mono [OF assms])
  then have b: "b64_bound (unat n) < 2 ^ 31" by (simp add: b64_bound_def)
  have 1: "(n div 3 + 1) * 4 + 4 = word_of_nat (b64_bound (unat n))"
    by (simp add: b64_bound_def word_arith_nat_div)
  have 2: "ucast (word_of_nat k :: c_long) = (word_of_nat k :: c_int)" if "k < 2 ^ 31" for k
    using that by (simp add: unsigned_of_nat take_bit_nat_eq_self)
  have 3: "scast (word_of_nat k :: c_int) = (word_of_nat k :: c_long)" if "k < 2 ^ 31" for k
    using that by (simp add: signed_of_nat signed_take_bit_int_eq_self)
  show ?thesis
    unfolding b64_buffsize_def 1 2 [OF b] 3 [OF b] using b by (simp add: unat_of_nat take_bit_nat_eq_self)
qed

definition steps_bounded :: "'w posix \<Rightarrow> bool" where
  "steps_bounded P \<longleftrightarrow> (\<forall>bs st. length (fst (g_b64_step P bs st)) \<le> b64_bound (length bs))"

lemma step_fits:
  assumes "steps_bounded P" and "length bs \<le> n" and "b64_bound n \<le> m"
  shows "length (fst (g_b64_step P bs st)) \<le> m"
  by (rule order_trans [OF _ order_trans [OF b64_bound_mono [OF assms(2)] assms(3)]])
    (use assms(1) in \<open>simp add: steps_bounded_def del: split_paired_All\<close>)

lemma read_step:
  assumes "gives_reads P fd rest" and "steps_bounded P" and "0 < buffsize" and "b64_bound buffsize \<le> b64size"
    and "tot < sz" and "tot + int (length (rest (os s))) \<le> sz" and "sz < 2 ^ 31"
  obtains bs w where "os_read P fd buffsize (os s) = (Succ bs, w)" "rest (os s) = bs @ rest w"
    "bs = [] \<longrightarrow> rest (os s) = []"
    "read_loop P fd buffsize b64size sz tot str st s =
      read_loop P fd buffsize b64size sz (tot + int (length bs)) (str @ fst (g_b64_step P bs st))
        (snd (g_b64_step P bs st)) (s\<lparr>os := w\<rparr>)"
proof -
  from assms(1,3) obtain bs w where r: "os_read P fd buffsize (os s) = (Succ bs, w)"
    "rest (os s) = bs @ rest w" "length bs \<le> buffsize" "bs = [] \<longrightarrow> rest (os s) = []"
    unfolding gives_reads_def by meson
  from r(2) assms(6,7) have "\<not> 2 ^ 31 \<le> tot + int (length bs)" by simp
  moreover have "length (fst (g_b64_step P bs st)) \<le> b64size" by (rule step_fits [OF assms(2) r(3) assms(4)])
  ultimately have "read_loop P fd buffsize b64size sz tot str st s =
      read_loop P fd buffsize b64size sz (tot + int (length bs)) (str @ fst (g_b64_step P bs st))
        (snd (g_b64_step P bs st)) (s\<lparr>os := w\<rparr>)"
    using assms(5) r(1)
    by (cases "g_b64_step P bs st") (subst read_loop.simps, simp add: syscall_def not_less)
  with r that show thesis by blast
qed

lemma read_loop_all:
  assumes "gives_reads P fd rest" and "steps_bounded P" and "0 < buffsize" and "b64_bound buffsize \<le> b64size"
    and "tot + int (length (rest (os s))) = sz" and "sz < 2 ^ 31"
  shows "\<exists>cs s'. read_loop P fd buffsize b64size sz tot str st s =
      Some (Ret (Inr (sz, str @ fst (b64_run P cs st), snd (b64_run P cs st)), s')) \<and> concat cs = rest (os s)"
  using assms(5)
proof (induction "length (rest (os s))" arbitrary: tot str st s rule: less_induct)
  case less
  show ?case
  proof (cases "rest (os s) = []")
    case True
    with less.prems have "tot = sz" by simp
    then show ?thesis
      using True by (subst read_loop.simps) (auto intro!: exI [of _ "[]"])
  next
    case False
    then have "0 < length (rest (os s))" by simp
    then have lt: "tot < sz" using less.prems by linarith
    obtain bs w where r: "rest (os s) = bs @ rest w" "bs = [] \<longrightarrow> rest (os s) = []"
      "read_loop P fd buffsize b64size sz tot str st s =
        read_loop P fd buffsize b64size sz (tot + int (length bs)) (str @ fst (g_b64_step P bs st))
          (snd (g_b64_step P bs st)) (s\<lparr>os := w\<rparr>)"
      using read_step [OF assms(1-4) lt _ assms(6), of s str st] less.prems by blast
    with False have "length (rest w) < length (rest (os s))" by (cases bs) auto
    with less.hyps [of "s\<lparr>os := w\<rparr>" "tot + int (length bs)"] less.prems r(1)
    obtain cs s' where cs: "read_loop P fd buffsize b64size sz (tot + int (length bs))
        (str @ fst (g_b64_step P bs st)) (snd (g_b64_step P bs st)) (s\<lparr>os := w\<rparr>) =
      Some (Ret (Inr (sz, (str @ fst (g_b64_step P bs st)) @ fst (b64_run P cs (snd (g_b64_step P bs st))),
        snd (b64_run P cs (snd (g_b64_step P bs st)))), s'))" "concat cs = rest w"
      by fastforce
    show ?thesis
      using cs r by (intro exI [of _ "bs # cs"] exI [of _ s']) (simp split: prod.split)
  qed
qed


text \<open>A file of 2 GiB or more takes the total over the end of an \<open>int\<close>.\<close>

lemma read_loop_overflow:
  assumes "gives_reads P fd rest" and "0 < buffsize" and "2 ^ 31 \<le> sz"
    and "tot < 2 ^ 31" and "2 ^ 31 \<le> tot + int (length (rest (os s)))"
  shows "read_loop P fd buffsize b64size sz tot str st s = Some Undef"
  using assms(4,5)
proof (induction "length (rest (os s))" arbitrary: tot str st s rule: less_induct)
  case less
  from assms(1,2) obtain bs w where r: "os_read P fd buffsize (os s) = (Succ bs, w)"
    "rest (os s) = bs @ rest w" "bs = [] \<longrightarrow> rest (os s) = []"
    unfolding gives_reads_def by meson
  obtain out st' where g: "g_b64_step P bs st = (out, st')" by (cases "g_b64_step P bs st")
  have "tot < sz" using less.prems(1) assms(3) by simp
  note step = read_loop.simps [of P fd buffsize b64size sz tot str st s] syscall_def r(1) g this
  show ?case
  proof (cases "2 ^ 31 \<le> tot + int (length bs) \<or> b64size < length out")
    case True
    then show ?thesis by (auto simp: step)
  next
    case False
    have "rest (os s) \<noteq> []" using less.prems by auto
    with r(2,3) have "length (rest (os (s\<lparr>os := w\<rparr>))) < length (rest (os s))" by (cases bs) auto
    with less.hyps [OF this, of "tot + int (length bs)"] False less.prems(2) r(2) show ?thesis
      by (simp add: step)
  qed
qed

section \<open>A file to read\<close>

text \<open>
  The file at \<open>path\<close> opens as descriptor \<open>fd\<close> with the bytes \<open>bytes\<close> to give; its size is
  said to be \<open>sz\<close> and its block size is positive and at most \<open>2^30\<close>; memory is there.
\<close>

definition serves_file :: "'w posix \<Rightarrow> string \<Rightarrow> nat \<Rightarrow> ('w \<Rightarrow> string) \<Rightarrow> string \<Rightarrow> int \<Rightarrow> bool" where
  "serves_file P path fd rest bytes sz \<longleftrightarrow>
     (\<forall>fl m w. \<exists>w'. os_open P path fl m w = (Succ fd, w') \<and> rest w' = bytes) \<and>
     (\<forall>w. rest w = bytes \<longrightarrow>
        (\<exists>st w'. os_fstat P fd w = (Succ st, w') \<and> rest w' = rest w \<and> sint (st_size st) = sz)) \<and>
     (\<forall>w. \<exists>sv w'. os_fstatvfs P fd w = (Succ sv, w') \<and> rest w' = rest w \<and>
        0 < unat (f_bsize sv) \<and> unat (f_bsize sv) \<le> 2 ^ 30) \<and>
     (\<forall>a n w. \<exists>w'. os_memalign P a n w = (0, w') \<and> rest w' = rest w) \<and>
     (\<forall>n w. \<exists>w'. os_malloc P n w = (Succ (), w') \<and> rest w' = rest w) \<and>
     gives_reads P fd rest"

lemma read_body_start:
  assumes "serves_file P path fd rest bytes sz" and "rest (os s) = bytes"
  obtains n s1 where "0 < n" "b64_bound n \<ge> 4" "rest (os s1) = bytes"
    "read_body P (int fd) s = bind_outcome (of_option (read_loop P fd n (b64_bound n) sz 0 [] (0, 0) s1))
      (\<lambda>out. bind_outcome out (\<lambda>(r, s). read_result P (b64_bound n) r s))"
proof -
  from assms obtain st w1 where 1: "os_fstat P fd (os s) = (Succ st, w1)" "rest w1 = bytes" "sint (st_size st) = sz"
    unfolding serves_file_def by metis
  from assms 1 obtain sv w2 where 2: "os_fstatvfs P fd w1 = (Succ sv, w2)" "rest w2 = bytes"
    "0 < unat (f_bsize sv)" "unat (f_bsize sv) \<le> 2 ^ 30"
    unfolding serves_file_def by metis
  from assms 2 obtain w3 where 3: "os_memalign P SAFE_ALIGN (unat (f_bsize sv)) w2 = (0, w3)" "rest w3 = bytes"
    unfolding serves_file_def by metis
  from assms 3 obtain w4 where 4: "os_malloc P (b64_bound (unat (f_bsize sv))) w3 = (Succ (), w4)" "rest w4 = bytes"
    unfolding serves_file_def by metis
  show thesis
    using 1 2(1) 3(1) 4 2(3)
    by (intro that [of "unat (f_bsize sv)" "s\<lparr>os := w4\<rparr>"])
      (simp_all add: read_body_def syscall_def Let_def b64_buffsize_exact [OF 2(4)] b64_bound_def)
qed

lemma readfile_open:
  assumes "has_string a ''path'' path" and "has_bool a ''direct'' direct"
    and "serves_file P (c_str path) fd rest bytes sz"
  obtains s1 where "rest (os s1) = bytes"
    "exp_readfile P (Some a) s =
      bind_outcome (read_body P (int fd) s1) (\<lambda>(r, s). Ret (r, close_quiet P (int fd) s))"
proof -
  define fl where "fl = (if direct \<noteq> 0 then O_RDONLY OR O_DIRECT else O_RDONLY)"
  from assms(3) obtain w where w: "os_open P (c_str path) fl 0 (os s) = (Succ fd, w)" "rest w = bytes"
    unfolding serves_file_def by metis
  then have "c_open P path fl 0 s = (int fd, s\<lparr>os := w, fds := fd # fds s\<rparr>)"
    by (simp add: c_open_def c_open_call_def syscall_def)
  with assms(1,2) w(2) show thesis
    by (intro that [of "s\<lparr>os := w, fds := fd # fds s\<rparr>"])
      (simp_all add: exp_readfile_def with_args_def fl_def [symmetric] Let_def)
qed

text \<open>For the witnesses: the file has the given bytes whenever it is opened, and the given size.\<close>

definition file_posix :: "string \<Rightarrow> c_long \<Rightarrow> world posix" where
  "file_posix bytes sz = demo_posix\<lparr>os_open := (\<lambda>a f m w. (Succ 3, w\<lparr>content := bytes, pos := 0\<rparr>)),
     os_fstat := (\<lambda>fd w. (Succ ((demo_stat w)\<lparr>st_size := sz\<rparr>), w))\<rparr>"

definition unread :: "world \<Rightarrow> string" where
  "unread w = drop (pos w) (content w)"

lemma take_drop_length: "drop (length (take k xs)) xs = drop k xs" "take (length (take k xs)) xs = take k xs"
  and length_take_le: "length (take k xs) \<le> length xs"
  by (simp_all add: min_def)

lemma demo_read:
  assumes "0 < n"
  shows "\<exists>bs w'. os_read demo_posix fd n w = (Succ bs, w') \<and> unread w = bs @ unread w' \<and>
    length bs \<le> n \<and> (bs = [] \<longrightarrow> unread w = [])"
proof -
  let ?xs = "drop (pos w) (content w)"
  let ?bs = "take (min n 4) ?xs"
  have "drop (pos w + length ?bs) (content w) = drop (length ?bs) ?xs"
    by (simp only: drop_drop add.commute)
  then have "?xs = ?bs @ drop (pos w + length ?bs) (content w)"
    by (simp only: take_drop_length append_take_drop_id)
  then show ?thesis
    using assms by (intro exI [of _ ?bs] exI [of _ "w\<lparr>pos := pos w + length ?bs\<rparr>"])
      (auto simp: demo_posix_def unread_def Let_def)
qed

lemma demo_write:
  assumes "bs \<noteq> []"
  shows "\<exists>n w'. os_write demo_posix fd bs w = (Succ n, w') \<and> 0 < n \<and> n \<le> length bs \<and>
    take (pos w') (content w') = take (pos w) (content w) @ take n bs"
proof -
  let ?b = "take 4 bs"
  have "take (pos w + length ?b) (take (pos w) (content w) @ ?b) = take (pos w) (content w) @ ?b"
    by (rule take_all) simp
  then show ?thesis
    using assms by (intro exI [of _ "length ?b"]
        exI [of _ "w\<lparr>content := take (pos w) (content w) @ ?b, pos := pos w + length ?b\<rparr>"])
      (simp add: demo_posix_def Let_def take_drop_length length_take_le del: length_take)
qed

lemma file_posix_serves: "serves_file (file_posix bytes sz) p 3 unread bytes (sint sz)"
proof -
  have "gives_reads (file_posix bytes sz) 3 unread"
    using demo_read [where fd = 3] by (simp add: gives_reads_def file_posix_def)
  then show ?thesis
    by (simp add: serves_file_def) (simp add: file_posix_def demo_posix_def unread_def demo_statvfs_def demo_ok_def)
qed

lemma file_posix_encodes: "encodes (file_posix bytes sz) id"
proof -
  have "b64_run (file_posix bytes sz) cs st = (concat cs, st)" for cs st
    by (induction cs arbitrary: st) (simp_all add: file_posix_def demo_posix_def)
  moreover have "n \<le> b64_bound n" for n by (simp add: b64_bound_def)
  ultimately show ?thesis by (simp add: encodes_def) (simp add: file_posix_def demo_posix_def)
qed

section \<open>Properties\<close>

text \<open>
  C16: \<open>readfile\<close> returns the encoding of every byte of the file, however the system cuts
  the reads, for a file of less than 2 GiB whose size is what \<open>fstat\<close> says; it never
  overruns its buffers and it ends.
\<close>

theorem readfile_returns_contents:
  assumes "has_string a ''path'' path" and "has_bool a ''direct'' direct"
    and "serves_file P (c_str path) fd rest bytes (int (length bytes))" and "length bytes < 2 ^ 31"
    and "encodes P enc" and "nul_free (enc bytes)" and "enc [] = []"
  shows "\<exists>s'. exp_readfile P (Some a) s = Ret ((Some (JString (enc bytes)), None), s')"
proof -
  obtain s1 where o: "rest (os s1) = bytes" "exp_readfile P (Some a) s =
      bind_outcome (read_body P (int fd) s1) (\<lambda>(r, s). Ret (r, close_quiet P (int fd) s))"
    by (rule readfile_open [OF assms(1-3)])
  obtain n s2 where b: "0 < n" "4 \<le> b64_bound n" "rest (os s2) = bytes"
    "read_body P (int fd) s1 = bind_outcome
      (of_option (read_loop P fd n (b64_bound n) (int (length bytes)) 0 [] (0, 0) s2))
      (\<lambda>out. bind_outcome out (\<lambda>(r, s). read_result P (b64_bound n) r s))"
    by (rule read_body_start [OF assms(3) o(1)])
  have g: "gives_reads P fd rest" using assms(3) by (simp add: serves_file_def)
  have sb: "steps_bounded P" using assms(5) by (simp add: encodes_def steps_bounded_def)
  obtain cs s3 where l: "read_loop P fd n (b64_bound n) (int (length bytes)) 0 [] (0, 0) s2 =
      Some (Ret (Inr (int (length bytes), fst (b64_run P cs (0, 0)), snd (b64_run P cs (0, 0))), s3))"
    "concat cs = bytes"
    using read_loop_all [OF g sb b(1) order_refl, of 0 s2 "int (length bytes)" "[]" "(0, 0)"] b(3) assms(4)
    by auto
  have e: "fst (b64_run P cs (0, 0)) @ fst (g_b64_close P (snd (b64_run P cs (0, 0)))) = enc bytes"
    "length (fst (g_b64_close P (snd (b64_run P cs (0, 0))))) \<le> 4"
    using assms(5) l(2) by (auto simp: encodes_def simp del: split_paired_All)
  have "read_finish P (b64_bound n) (int (length bytes)) (fst (b64_run P cs (0, 0))) (snd (b64_run P cs (0, 0))) =
      Ret (JString (enc bytes))"
    using e b(2) assms(6,7)
    by (cases "bytes = []") (auto simp: read_finish_def Let_def JsonNode_newFromString_def)
  then show ?thesis using o(2) b(4) l(1) by (auto simp: read_result_def split_def)
qed

lemma readfile_returns_contents_witness:
  "\<exists>s'. exp_readfile (file_posix ''hello you'' 9)
      (Some (JMap [(''path'', JString ''f''), (''direct'', JBoolean 0)])) (demo_proc []) =
    Ret ((Some (JString ''hello you''), None), s')"
  using readfile_returns_contents [of "JMap [(''path'', JString ''f''), (''direct'', JBoolean 0)]" "''f''" 0
      "file_posix ''hello you'' 9" 3 unread "''hello you''" id "demo_proc []"]
    file_posix_serves [of "''hello you''" 9 "''f''"] file_posix_encodes [of "''hello you''" 9]
  by (simp add: has_defs c_str_def nul_free_def)



text \<open>
  C34: a file of 2 GiB or more overflows the \<open>int\<close> that counts the bytes read, which is
  undefined behaviour, whatever its size, the cut of the reads and the encoding.
\<close>

theorem readfile_overflows_int:
  assumes "has_string a ''path'' path" and "has_bool a ''direct'' direct"
    and "serves_file P (c_str path) fd rest bytes (int (length bytes))" and "2 ^ 31 \<le> length bytes"
  shows "exp_readfile P (Some a) s = Undef"
proof -
  obtain s1 where o: "rest (os s1) = bytes" "exp_readfile P (Some a) s =
      bind_outcome (read_body P (int fd) s1) (\<lambda>(r, s). Ret (r, close_quiet P (int fd) s))"
    by (rule readfile_open [OF assms(1-3)])
  obtain n s2 where b: "0 < n" "rest (os s2) = bytes" "read_body P (int fd) s1 = bind_outcome
      (of_option (read_loop P fd n (b64_bound n) (int (length bytes)) 0 [] (0, 0) s2))
      (\<lambda>out. bind_outcome out (\<lambda>(r, s). read_result P (b64_bound n) r s))"
    by (rule read_body_start [OF assms(3) o(1)])
  have "gives_reads P fd rest" using assms(3) by (simp add: serves_file_def)
  then have "read_loop P fd n (b64_bound n) (int (length bytes)) 0 [] (0, 0) s2 = Some Undef"
    using b(1,2) assms(4) by (intro read_loop_overflow [where rest = rest]) simp_all
  with o(2) b(3) show ?thesis by simp
qed

lemma readfile_overflows_int_witness:
  "exp_readfile (file_posix (replicate (2 ^ 31) (CHR 0x61)) 0x80000000)
     (Some (JMap [(''path'', JString ''f''), (''direct'', JBoolean 0)])) (demo_proc []) = Undef"
proof (rule readfile_overflows_int [where fd = 3 and rest = unread and bytes = "replicate (2 ^ 31) (CHR 0x61)"
      and path = "''f''" and direct = 0])
  have "sint (0x80000000 :: c_long) = int (length (replicate (2 ^ 31) (CHR 0x61)))"
    unfolding length_replicate by simp
  with file_posix_serves [of "replicate (2 ^ 31) (CHR 0x61)" "0x80000000" "c_str ''f''"]
  show "serves_file (file_posix (replicate (2 ^ 31) (CHR 0x61)) 0x80000000) (c_str ''f'') 3 unread
      (replicate (2 ^ 31) (CHR 0x61)) (int (length (replicate (2 ^ 31) (CHR 0x61))))" by (simp only:)
  show "2 ^ 31 \<le> length (replicate (2 ^ 31) (CHR 0x61))" unfolding length_replicate by (rule order_refl)
qed (simp_all add: has_defs c_str_def)

text \<open>
  C17: without direct I/O \<open>writefile\<close> puts exactly the decoded data into a file that \<open>open\<close>
  has emptied, however small the pieces the system takes; when all of it is written it calls
  \<open>fsync\<close>, and then does nothing but close the file; it ends, reports no error, and leaves
  no descriptor open.
\<close>

theorem writefile_stores_data:
  assumes "has_string a ''path'' path" and "has_string a ''data'' data" and "has_bool a ''direct'' 0"
    and "os_open P (c_str path) (O_WRONLY OR O_CREAT OR O_TRUNC) 0x1B4 (os s) = (Succ fd, w)" and "view w = []"
    and "accepts_writes P fd view"
  shows "\<exists>s' w1 w2. exp_writefile P (Some a) s = Ret ((None, None), s') \<and>
    view w1 = g_b64_decode P (c_str data) \<and> os_fsync P fd w1 = (Succ (), w2) \<and>
    os s' = snd (os_close P fd w2) \<and> view (os s') = g_b64_decode P (c_str data) \<and> fds s' = fds s"
proof -
  have mode: "S_IRUSR OR S_IWUSR OR S_IRGRP OR S_IWGRP OR S_IROTH = 0x1B4"
    by (simp add: S_IRUSR_def S_IWUSR_def S_IRGRP_def S_IWGRP_def S_IROTH_def)
  let ?s1 = "s\<lparr>os := w, fds := fd # fds s\<rparr>" and ?data = "g_b64_decode P (c_str data)"
  have "c_open P path (O_WRONLY OR O_CREAT OR O_TRUNC) (S_IRUSR OR S_IWUSR OR S_IRGRP OR S_IWGRP OR S_IROTH) s =
      (int fd, ?s1)"
    using assms(4) by (simp add: c_open_def c_open_call_def syscall_def mode)
  moreover obtain w1 w2 s2 where b: "write_body P (int fd) ?data ?s1 = Ret (None, s2)"
    "view w1 = ?data" "os_fsync P fd w1 = (Succ (), w2)" "view w2 = view w1" "os s2 = w2"
    using write_body_all [of P "int fd" view ?data ?s1] assms(5,6) by auto
  ultimately have "exp_writefile P (Some a) s = Ret ((None, None), close_quiet P (int fd) s2)"
    using assms(1-3) by (simp add: exp_writefile_def with_args_def Let_def)
  moreover have "view (snd (os_close P fd w2)) = ?data" using assms(6) b(2,4) by (simp add: accepts_writes_def)
  moreover have "fds (close_quiet P (int fd) s2) = fds s" using write_body_fds [OF b(1)] by simp
  ultimately show ?thesis using b os_close_quiet [of P "int fd" s2] by auto
qed

lemma writefile_stores_data_witness:
  "\<exists>s'. exp_writefile demo_posix (Some (JMap [(''path'', JString ''f''), (''data'', JString ''0123456789''),
      (''direct'', JBoolean 0)])) (demo_proc ''old'') = Ret ((None, None), s') \<and>
    take (pos (os s')) (content (os s')) = ''0123456789''"
proof -
  have acc: "accepts_writes demo_posix 3 (\<lambda>w. take (pos w) (content w))"
    using demo_write [where fd = 3]
    by (simp add: accepts_writes_def) (simp add: demo_posix_def demo_ok_def)
  show ?thesis
    using writefile_stores_data [of "JMap [(''path'', JString ''f''), (''data'', JString ''0123456789''),
        (''direct'', JBoolean 0)]" "''f''" "''0123456789''" demo_posix "demo_proc ''old''" 3 _
        "\<lambda>w. take (pos w) (content w)", OF _ _ _ _ _ acc]
    by (simp add: has_defs c_str_def) (simp add: demo_posix_def, blast)
qed

text \<open>
  When the aligned buffer of a direct write cannot be allocated, \<open>writefile\<close> reports the
  \<open>errno\<close> that was there before, 0 for instance, and not the error of \<open>posix_memalign\<close>.
\<close>

lemma writefile_memalign_stale_errno:
  assumes "has_string a ''path'' path" and "has_string a ''data'' data" and "has_bool a ''direct'' 1"
    and "os_open P (c_str path) (O_WRONLY OR O_CREAT OR O_TRUNC OR O_DIRECT) 0x1B4 (os s) = (Succ fd, w)"
    and "os_memalign P 4096 (length (g_b64_decode P (c_str data))) w = (rv, w')" and "rv \<noteq> 0"
  shows "\<exists>s' err. exp_writefile P (Some a) s = Ret ((None, Some err), s') \<and> code err = errno s"
proof -
  have mode: "S_IRUSR OR S_IWUSR OR S_IRGRP OR S_IWGRP OR S_IROTH = 0x1B4"
    by (simp add: S_IRUSR_def S_IWUSR_def S_IRGRP_def S_IWGRP_def S_IROTH_def)
  have "c_open P path (O_WRONLY OR O_CREAT OR O_TRUNC OR O_DIRECT)
      (S_IRUSR OR S_IWUSR OR S_IRGRP OR S_IWGRP OR S_IROTH) s = (int fd, s\<lparr>os := w, fds := fd # fds s\<rparr>)"
    using assms(4) by (simp add: c_open_def c_open_call_def syscall_def mode)
  then show ?thesis
    using assms(1-3,5,6)
    by (simp add: exp_writefile_def with_args_def Let_def SAFE_ALIGN_def general_error_def
        set_error_from_errno_def or.assoc)
qed

lemma writefile_memalign_stale_errno_witness:
  "\<exists>s' err. exp_writefile (demo_posix\<lparr>os_memalign := (\<lambda>a n w. (ENOMEM, w))\<rparr>)
      (Some (JMap [(''path'', JString ''f''), (''data'', JString ''d''), (''direct'', JBoolean 1)])) (demo_proc []) =
    Ret ((None, Some err), s') \<and> code err = 0"
  using writefile_memalign_stale_errno [of "JMap [(''path'', JString ''f''), (''data'', JString ''d''),
        (''direct'', JBoolean 1)]" "''f''" "''d''" "demo_posix\<lparr>os_memalign := (\<lambda>a n w. (ENOMEM, w))\<rparr>"
      "demo_proc []" 3 _ ENOMEM]
  by (simp add: has_defs c_str_def ENOMEM_def) (simp add: demo_posix_def demo_proc_def)

text \<open>
  \<open>touch\<close> opens its path for writing, creates it if need be with the mode it is given
  or, for mode 0, with \<open>rw-r--r--\<close>, adds the caller's flags, sets the times and closes the
  file; it answers true exactly when both calls succeed.
\<close>

lemma touch_opens_and_sets_times:
  assumes "has_string a ''path'' path" and "has_long a ''flags'' flags" and "has_long a ''mode'' mode"
    and "os_open P (c_str path) (0x41 OR ucast flags) (if mode = 0 then 0x1A4 else ucast mode) (os s) = (Succ fd, w)"
    and "os_futimens P fd w = (r, w')"
  shows "\<exists>b err s'. exp_touch P (Some a) s = Ret ((Some (JBoolean b), err), s') \<and> fds s' = fds s \<and>
    (if r = Succ () then b = 1 \<and> err = None else b = 0 \<and> err \<noteq> None)"
proof -
  have m: "ucast (if mode = 0 then defMode else mode) = (if mode = 0 then 0x1A4 else ucast mode :: c_int)"
    by (simp add: defMode_def S_IRUSR_def S_IWUSR_def S_IRGRP_def S_IROTH_def)
  have fl: "ucast (if flags \<noteq> 0 then ucast (O_WRONLY OR O_CREAT) OR flags else ucast (O_WRONLY OR O_CREAT)) =
      (0x41 OR ucast flags :: c_int)"
    by (simp add: O_WRONLY_def O_CREAT_def unsigned_or_eq)
  let ?s1 = "s\<lparr>os := w, fds := fd # fds s\<rparr>"
  have "c_open P path (0x41 OR ucast flags) (if mode = 0 then 0x1A4 else ucast mode) s = (int fd, ?s1)"
    using assms(4) by (simp add: c_open_def c_open_call_def syscall_def)
  then have "exp_touch P (Some a) s = (case c_call (os_futimens P fd) ?s1 of (rv, s2) \<Rightarrow>
      Ret (stdApiWrapper P rv (close_quiet P (int fd) s2), close_quiet P (int fd) s2))"
    using assms(1-3) by (simp add: exp_touch_def with_args_def Let_def m fl)
  then show ?thesis
    using assms(5)
    by (cases r) (auto simp: c_call_def syscall_def stdApiWrapper_def JsonNode_newFromBoolean_def
        c_TRUE_def c_FALSE_def)
qed

lemma touch_opens_and_sets_times_witness:
  "\<exists>err s'. exp_touch demo_posix (Some (JMap [(''path'', JString ''f''), (''flags'', JLong 0), (''mode'', JLong 0)]))
      (demo_proc []) = Ret ((Some (JBoolean 1), err), s') \<and> fds s' = [] \<and> err = None"
  using touch_opens_and_sets_times [of "JMap [(''path'', JString ''f''), (''flags'', JLong 0), (''mode'', JLong 0)]"
      "''f''" 0 0 demo_posix "demo_proc []" 3 _ "Succ ()"]
  by (simp add: has_defs c_str_def) (simp add: demo_posix_def demo_proc_def demo_ok_def)

text \<open>
  C40: all outcomes of \<open>truncate\<close>, which creates the file if need be and opens it exclusively on
  request: an error of \<open>open\<close> or \<open>ftruncate\<close> is reported with a false result, and no
  descriptor stays open. An error of \<open>close\<close> is not seen when the size was set; when
  setting it failed and closing fails too, the error of \<open>close\<close> is reported instead.
\<close>

theorem truncate_outcomes:
  assumes "has_string a ''path'' path" and "has_long a ''size'' sz" and "has_long a ''mode'' mode"
    and "has_bool a ''excl'' excl"
    and "os_open P (c_str path) (if excl = 0 then 0x41 else 0xC1) (if mode = 0 then 0x1A4 else ucast mode) (os s) =
      (opened, w1)"
    and "\<And>fd. opened = Succ fd \<Longrightarrow> os_ftruncate P fd sz w1 = (changed, w2) \<and> os_close P fd w2 = (closed, w3)"
  shows "\<exists>s'. fds s' = fds s \<and> exp_truncate P (Some a) s = Ret (
    (case opened of
       Fail e \<Rightarrow> (Some (JBoolean 0), Some (set_error_from_errno P IOPROCESS_STDAPI_ERROR e))
     | Succ fd \<Rightarrow>
         (case changed of
            Succ _ \<Rightarrow> (Some (JBoolean 1), None)
          | Fail e \<Rightarrow> (Some (JBoolean 0), Some (set_error_from_errno P IOPROCESS_STDAPI_ERROR
              (case closed of Succ _ \<Rightarrow> e | Fail e' \<Rightarrow> e'))))), s')"
proof -
  have m: "ucast (if mode = 0 then defMode else mode) = (if mode = 0 then 0x1A4 else ucast mode :: c_int)"
    by (simp add: defMode_def S_IRUSR_def S_IWUSR_def S_IRGRP_def S_IROTH_def)
  have fl: "(if excl \<noteq> 0 then (O_CREAT OR O_WRONLY) OR O_EXCL else O_CREAT OR O_WRONLY) =
      (if excl = 0 then 0x41 else 0xC1)"
    by (simp add: O_CREAT_def O_WRONLY_def O_EXCL_def)
  let ?s1 = "case opened of Succ fd \<Rightarrow> s\<lparr>os := w1, fds := fd # fds s\<rparr> | Fail e \<Rightarrow> s\<lparr>os := w1, errno := e\<rparr>"
  have "c_open P path (if excl = 0 then 0x41 else 0xC1) (if mode = 0 then 0x1A4 else ucast mode) s =
      (case opened of Succ fd \<Rightarrow> int fd | Fail e \<Rightarrow> - 1, ?s1)"
    using assms(5) by (simp add: c_open_def c_open_call_def syscall_def split: sysres.split)
  then have run: "exp_truncate P (Some a) s =
      (case opened of
         Fail e \<Rightarrow> Ret (stdApiWrapper P (- 1) ?s1, ?s1)
       | Succ fd \<Rightarrow> (case c_call (os_ftruncate P fd sz) ?s1 of (rv, s2) \<Rightarrow>
           Ret (stdApiWrapper P rv (close_quiet P (int fd) s2), close_quiet P (int fd) s2)))"
    using assms(1-4) unfolding exp_truncate_def with_args_def Let_def
    by (simp only: m fl safeGetArgValues.simps safeGetArgValue_has bind_outcome.simps prod.case option.case
        list.case cval.case) (simp add: Let_def split: sysres.split)
  note defs = syscall_def c_call_def close_quiet_def c_close_def stdApiWrapper_def JsonNode_newFromBoolean_def
    c_TRUE_def c_FALSE_def
  show ?thesis
  proof (cases opened)
    case (Fail e)
    then show ?thesis by (simp add: run defs)
  next
    case (Succ fd)
    with assms(6) [OF Succ] show ?thesis by (cases changed; cases closed) (simp_all add: run defs)
  qed
qed

lemma truncate_outcomes_witness:
  "\<exists>s'. fds s' = [] \<and> exp_truncate (demo_posix\<lparr>os_ftruncate := (\<lambda>fd n w. (Fail 27, w)),
       os_close := (\<lambda>fd w. (Fail 5, w))\<rparr>)
      (Some (JMap [(''path'', JString ''f''), (''size'', JLong 9), (''mode'', JLong 0), (''excl'', JBoolean 1)]))
      (demo_proc []) = Ret ((Some (JBoolean 0), Some (set_error_from_errno demo_posix IOPROCESS_STDAPI_ERROR 5)), s')"
proof -
  let ?P = "demo_posix\<lparr>os_ftruncate := (\<lambda>fd n w. (Fail 27, w)), os_close := (\<lambda>fd w. (Fail 5, w))\<rparr>"
  let ?w = "(os (demo_proc []))\<lparr>pos := 0\<rparr>"
  have "\<exists>s'. fds s' = fds (demo_proc []) \<and> exp_truncate ?P
      (Some (JMap [(''path'', JString ''f''), (''size'', JLong 9), (''mode'', JLong 0), (''excl'', JBoolean 1)]))
      (demo_proc []) = Ret (
      (case Succ (3 :: nat) of
         Fail e \<Rightarrow> (Some (JBoolean 0), Some (set_error_from_errno ?P IOPROCESS_STDAPI_ERROR e))
       | Succ fd \<Rightarrow>
           (case (Fail 27 :: unit sysres) of
              Succ _ \<Rightarrow> (Some (JBoolean 1), None)
            | Fail e \<Rightarrow> (Some (JBoolean 0), Some (set_error_from_errno ?P IOPROCESS_STDAPI_ERROR
                (case (Fail 5 :: unit sysres) of Succ _ \<Rightarrow> e | Fail e' \<Rightarrow> e'))))), s')"
    by (rule truncate_outcomes [where path = "''f''" and sz = 9 and mode = 0 and excl = 1 and
          ?w1.0 = ?w and ?w2.0 = ?w and ?w3.0 = ?w])
      (simp_all add: has_defs c_str_def, simp_all add: demo_posix_def demo_proc_def)
  then show ?thesis by (simp add: set_error_from_errno_def demo_proc_def)
qed

end
