(* ===== verification/Exported_Probe.thy ===== *)
theory Exported_Probe
  imports Exported_Files
begin

text \<open>
  \<open>exp_probe_block_size\<close> of \<open>src/exported-functions.c\<close>: it writes to a new file with
  direct I/O, in sizes 1, 512 and 4096, and reports the first size the storage takes.
\<close>

section \<open>The probe file\<close>

record probe =
  probe_fd :: int
  probe_path :: string

text \<open>Returns 0, or the negated error number; the structure is filled on success.\<close>

definition create_probe :: "'w posix \<Rightarrow> probe \<Rightarrow> string \<Rightarrow> c_int \<Rightarrow> 'w proc
    \<Rightarrow> (int \<times> probe) \<times> 'w proc" where
  "create_probe P probe dir flags s =
     (case g_uuid P (os s) of (uuid, w) \<Rightarrow>
      let s = s\<lparr>os := w\<rparr> in
      case uuid of
        None \<Rightarrow> ((- ENOMEM, probe), s)
      | Some uuid \<Rightarrow>
          let path = c_str dir @ ''/.prob-'' @ uuid in
          case c_open P path (flags OR O_CREAT OR O_EXCL) (S_IRUSR OR S_IWUSR) s of (fd, s) \<Rightarrow>
            let probe = probe\<lparr>probe_fd := fd\<rparr> in
            if fd < 0 then ((- errno s, probe), s)
            else ((0, probe\<lparr>probe_path := path\<rparr>), s))"

definition delete_probe :: "'w posix \<Rightarrow> probe \<Rightarrow> 'w proc \<Rightarrow> int \<times> 'w proc" where
  "delete_probe P probe s =
     (if probe_fd probe \<noteq> - 1 then
        (let s = close_quiet P (probe_fd probe) s in
         case c_call (os_unlink P (c_str (probe_path probe))) s of (rv, s) \<Rightarrow>
           (if rv \<noteq> 0 then - errno s else 0, s))
      else (0, s))"

section \<open>The probe writes\<close>

text \<open>\<open>do rv = pwrite(...); while (rv < 0 && errno == EINTR)\<close>\<close>

partial_function (option) pwrite_retry :: "'w posix \<Rightarrow> nat \<Rightarrow> string \<Rightarrow> 'w proc
    \<Rightarrow> (int \<times> 'w proc) option" where
  "pwrite_retry px fd buf s =
     (case syscall (os_pwrite px fd buf) s of
        (None, s') \<Rightarrow> if errno s' = EINTR then pwrite_retry px fd buf s' else Some (- 1, s')
      | (Some n, s') \<Rightarrow> Some (int n, s'))"

definition probe_buf :: string where
  "probe_buf = replicate 4096 (CHR 0x00)"

definition probe_sizes :: "nat list" where
  "probe_sizes = [1, 512, 4096]"

text \<open>The result is the block size, or -1 with an error.\<close>

fun probe_loop :: "'w posix \<Rightarrow> nat \<Rightarrow> nat list \<Rightarrow> 'w proc
    \<Rightarrow> ((int \<times> gerror option) \<times> 'w proc) outcome" where
  "probe_loop P fd [] s = Ret ((- 1, Some (general_error P EINVAL)), s)"
| "probe_loop P fd (block_size # sizes) s =
     bind_outcome (of_option (pwrite_retry P fd (take block_size probe_buf) s)) (\<lambda>(rv, s).
       if rv < 0 then
         (if errno s \<noteq> EINVAL then Ret ((- 1, Some (general_error P (errno s))), s)
          else probe_loop P fd sizes s)
       else Ret ((int block_size, None), s))"

definition exp_probe_block_size :: "'w handler" where
  "exp_probe_block_size P args s =
     with_args args [path_arg ''dir'']
       (\<lambda>vals s. case vals of
          [VStr dir] \<Rightarrow>
            (case create_probe P \<lparr>probe_fd = - 1, probe_path = []\<rparr> dir
                    (O_WRONLY OR O_DIRECT OR O_DSYNC) s of ((rv, probe), s) \<Rightarrow>
             if rv \<noteq> 0 then Ret ((None, Some (general_error P (- rv))), s)
             else
               case os_memalign P 4096 4096 (os s) of (rv, w) \<Rightarrow>
               let s = s\<lparr>os := w\<rparr> in
               if rv \<noteq> 0 then
                 Ret ((None, Some (general_error P rv)), snd (delete_probe P probe s))
               else
                 bind_outcome (probe_loop P (nat (probe_fd probe)) probe_sizes s)
                   (\<lambda>((block_size, err), s).
                     let s = snd (delete_probe P probe s) in
                     if block_size = - 1 then Ret ((None, err), s)
                     else Ret ((Some (JsonNode_newFromLong (word_of_int block_size)), err), s)))
        | _ \<Rightarrow> Undef) s"

section \<open>The contract holds\<close>

lemma pwrite_retry_fds:
  assumes "pwrite_retry P fd buf s = Some r"
  shows "fds (snd r) = fds s"
proof (rule pwrite_retry.raw_induct [where P = "\<lambda>P fd buf s r. fds (snd r) = fds s", OF _ assms],
    goal_cases)
  case (1 f P fd buf s r)
  from 1(2) show ?case
    by (auto split: if_split_asm prod.split_asm option.split_asm dest!: 1(1))
qed

lemma probe_loop_fds: "probe_loop P fd sizes s = Ret (r, s') \<Longrightarrow> fds s' = fds s"
  by (induction P fd sizes s rule: probe_loop.induct)
    (auto simp: bind_outcome_eq_Ret of_option_def dest!: pwrite_retry_fds
      split: if_split_asm option.split_asm prod.split_asm)

lemma create_probe_fds:
  assumes "create_probe P p dir fl s = ((rv, p'), s')" and "probe_fd p = - 1"
  shows "if probe_fd p' = - 1 then fds s' = fds s
         else rv = 0 \<and> fds s' = nat (probe_fd p') # fds s"
proof (cases "g_uuid P (os s)")
  case (Pair uuid w)
  show ?thesis
  proof (cases uuid)
    case None
    then show ?thesis using assms Pair by (auto simp: create_probe_def)
  next
    case (Some u)
    define path where "path = c_str dir @ ''/.prob-'' @ u"
    obtain fd s1 where o: "c_open P path (fl OR O_CREAT OR O_EXCL) (S_IRUSR OR S_IWUSR) (s\<lparr>os := w\<rparr>) = (fd, s1)"
      by fastforce
    from assms Pair Some o have r: "probe_fd p' = fd" "s' = s1" "0 \<le> fd \<Longrightarrow> rv = 0"
      by (auto simp: create_probe_def Let_def path_def split: if_split_asm)
    from o [unfolded c_open_def] show ?thesis
      by (rule c_open_call_cases) (use r in auto)
  qed
qed

lemma create_probe_fail_fds:
  assumes "create_probe P p dir fl s = ((rv, p'), s')" and "probe_fd p = - 1" and "rv \<noteq> 0"
  shows "fds s' = fds s"
  using create_probe_fds [OF assms(1,2)] assms(3) by (auto split: if_split_asm)

lemma delete_probe_fds [simp]:
  "fds (snd (delete_probe P p s)) =
     (if probe_fd p = - 1 then fds s else remove1 (nat (probe_fd p)) (fds s))"
  by (auto simp: delete_probe_def Let_def split: prod.split)

lemma delete_probe_os:
  "probe_fd p \<noteq> - 1 \<Longrightarrow> os (snd (delete_probe P p s)) =
     snd (os_unlink P (c_str (probe_path p)) (snd (os_close P (nat (probe_fd p)) (os s))))"
  by (auto simp: delete_probe_def Let_def os_close_quiet c_call_def syscall_def
      split: prod.splits sysres.splits option.splits)

lemma probe_body_keeps:
  assumes "create_probe P \<lparr>probe_fd = - 1, probe_path = []\<rparr> dir fl s = ((rv, p'), s1)" and "fds s2 = fds s1"
    and "rv = 0"
  shows "fds (snd (delete_probe P p' s2)) = fds s"
  using create_probe_fds [OF assms(1)] assms(2,3) by (auto split: if_split_asm)

interpretation probe_block_size: exported_function exp_probe_block_size
  by unfold_locales
    (unfold exp_probe_block_size_def, erule with_args_keeps [rotated],
      auto simp: keeps_def Let_def bind_outcome_eq_Ret
        dest!: probe_loop_fds
        dest: create_probe_fail_fds probe_body_keeps
        split: body_splits)

section \<open>What the storage accepts\<close>

text \<open>
  Documented behaviour of a direct write: the storage takes a write at offset 0 when its
  size is a multiple of the alignment it needs, and else fails with \<open>EINVAL\<close>.
\<close>

definition direct_io :: "'w posix \<Rightarrow> nat \<Rightarrow> nat \<Rightarrow> bool" where
  "direct_io P fd align \<longleftrightarrow> (\<forall>bs w. \<exists>w'. os_pwrite P fd bs w =
     (if align dvd length bs then Succ (length bs) else Fail EINVAL, w'))"

lemma length_probe_buf: "length (take n probe_buf) = min n 4096"
  by (simp add: probe_buf_def)

lemma pwrite_retry_direct:
  assumes "direct_io P fd align"
  shows "\<exists>s'. pwrite_retry P fd (take n probe_buf) s =
    Some (if align dvd min n 4096 then int (min n 4096) else - 1, s') \<and>
    (\<not> align dvd min n 4096 \<longrightarrow> errno s' = EINVAL)"
proof -
  from assms obtain w where "os_pwrite P fd (take n probe_buf) (os s) =
      (if align dvd length (take n probe_buf) then Succ (length (take n probe_buf)) else Fail EINVAL, w)"
    unfolding direct_io_def by meson
  then show ?thesis
    unfolding length_probe_buf by (subst pwrite_retry.simps) (auto simp: syscall_def EINVAL_def EINTR_def)
qed

text \<open>The first size of a list that the storage takes.\<close>

lemma probe_loop_direct:
  assumes "direct_io P fd align" and "list_all (\<lambda>n. n \<le> 4096) sizes"
  shows "\<exists>s'. probe_loop P fd sizes s = Ret (case find (\<lambda>n. align dvd n) sizes of
      Some n \<Rightarrow> (int n, None) | None \<Rightarrow> (- 1, Some (general_error P EINVAL)), s')"
  using assms(2)
proof (induction sizes arbitrary: s)
  case Nil
  then show ?case by simp
next
  case (Cons n sizes)
  then have n: "min n 4096 = n" by simp
  obtain s1 where s1: "pwrite_retry P fd (take n probe_buf) s = Some (if align dvd n then int n else - 1, s1)"
    "\<not> align dvd n \<longrightarrow> errno s1 = EINVAL"
    using pwrite_retry_direct [OF assms(1), of n s] unfolding n by blast
  show ?case
    using s1 Cons by (cases "align dvd n") auto
qed

section \<open>Properties\<close>

text \<open>
  C25: on storage that needs writes aligned to \<open>align\<close> bytes, \<open>probe_block_size\<close> answers the
  first of 1, 512 and 4096 that is a multiple of it, and \<open>EINVAL\<close> when none is; in both
  cases the last it does is to close the probe file and then to call \<open>unlink\<close> on it, whose
  error is not reported.
\<close>

theorem probe_finds_block_size:
  assumes "has_string a ''dir'' dir" and "g_uuid P (os s) = (Some uuid, w1)"
    and "os_open P (c_str (c_str dir @ ''/.prob-'' @ uuid)) (0x50C1) 0x180 w1 = (Succ fd, w2)"
    and "os_memalign P 4096 4096 w2 = (0, w3)" and "direct_io P fd align"
  shows "\<exists>s' w4. fds s' = fds s \<and>
    os s' = snd (os_unlink P (c_str (c_str dir @ ''/.prob-'' @ uuid)) (snd (os_close P fd w4))) \<and>
    exp_probe_block_size P (Some a) s =
    Ret (if align dvd 1 then (Some (JLong 1), None)
         else if align dvd 512 then (Some (JLong 512), None)
         else if align dvd 4096 then (Some (JLong 4096), None)
         else (None, Some (mk_error IOPROCESS_GENERAL_ERROR 22 (iop_msg (strerr P) 22))), s')"
proof -
  have fl: "O_WRONLY OR O_DIRECT OR O_DSYNC OR O_CREAT OR O_EXCL = 0x50C1" "S_IRUSR OR S_IWUSR = 0x180"
    by (simp_all add: open_flag_defs S_IRUSR_def S_IWUSR_def)
  let ?p = "\<lparr>probe_fd = int fd, probe_path = c_str dir @ ''/.prob-'' @ uuid\<rparr>"
  let ?s2 = "s\<lparr>os := w2, fds := fd # fds s\<rparr>"
  let ?s3 = "?s2\<lparr>os := w3\<rparr>"
  have c: "create_probe P \<lparr>probe_fd = - 1, probe_path = []\<rparr> dir (O_WRONLY OR O_DIRECT OR O_DSYNC) s = ((0, ?p), ?s2)"
    using assms(2,3) by (simp add: create_probe_def Let_def c_open_def c_open_call_def syscall_def fl or.assoc)
  define found where "found = (if align dvd 1 then Some 1 else if align dvd 512 then Some 512
    else if align dvd 4096 then Some 4096 else (None :: nat option))"
  have "find (\<lambda>n. align dvd n) [1, 512, 4096] = found" by (simp add: found_def)
  then obtain s4 where l: "probe_loop P fd [1, 512, 4096] ?s3 =
      Ret (case found of Some n \<Rightarrow> (int n, None) | None \<Rightarrow> (- 1, Some (general_error P EINVAL)), s4)"
    using probe_loop_direct [OF assms(5), of "[1, 512, 4096]" ?s3] by auto
  have "exp_probe_block_size P (Some a) s =
    Ret (case found of Some n \<Rightarrow> (Some (JLong (word_of_nat n)), None)
      | None \<Rightarrow> (None, Some (general_error P 22)), snd (delete_probe P ?p s4))"
    using assms(1,4) c l
    by (cases found)
      (simp_all add: exp_probe_block_size_def with_args_def Let_def probe_sizes_def JsonNode_newFromLong_def
        EINVAL_def del: probe_loop.simps)
  moreover have "fds (snd (delete_probe P ?p s4)) = fds s"
    using probe_loop_fds [OF l] by simp
  moreover note delete_probe_os [of ?p P s4]
  ultimately show ?thesis
    by (intro exI [of _ "snd (delete_probe P ?p s4)"] exI [of _ "os s4"])
      (simp add: found_def general_error_def set_error_from_errno_def)
qed

lemma probe_finds_block_size_witness:
  "\<exists>s'. fds s' = [] \<and> exp_probe_block_size demo_posix (Some (JMap [(''dir'', JString ''d'')])) (demo_proc []) =
     Ret ((Some (JLong 512), None), s')"
proof -
  have "direct_io demo_posix 3 512" by (auto simp: direct_io_def demo_posix_def)
  from probe_finds_block_size [OF _ _ _ _ this, of "JMap [(''dir'', JString ''d'')]" "''d''" "demo_proc []" "''u''"]
  show ?thesis
    by (simp add: has_defs c_str_def) (simp add: demo_posix_def demo_proc_def, blast)
qed

end
