(* ===== verification/Request.thy ===== *)
theory Request
  imports Exported_Probe
begin

text \<open>
  One request, from its document to its response: the table of exported functions, the
  extraction of the request's fields, the dispatch and the response document
  (\<open>exportedFunctions\<close>, \<open>getCallback\<close>, \<open>extractRequestInfo\<close>, \<open>buildResponse\<close>,
  \<open>servRequest\<close> and \<open>servQueueFull\<close> of \<open>src/ioprocess.c\<close>).
\<close>

section \<open>The table of exported functions\<close>

definition exportedFunctions :: "(string \<times> 'w handler) list" where
  "exportedFunctions = [
     (''ping'', exp_ping),
     (''echo'', exp_echo),
     (''memstat'', exp_memstat),
     (''crash'', exp_crash),
     (''stat'', exp_stat),
     (''lstat'', exp_lstat),
     (''statvfs'', exp_statvfs),
     (''access'', exp_access),
     (''rename'', exp_rename),
     (''unlink'', exp_unlink),
     (''rmdir'', exp_rmdir),
     (''link'', exp_link),
     (''symlink'', exp_symlink),
     (''chmod'', exp_chmod),
     (''readfile'', exp_readfile),
     (''glob'', exp_glob),
     (''listdir'', exp_listdir),
     (''writefile'', exp_writefile),
     (''lexists'', exp_lexists),
     (''truncate'', exp_truncate),
     (''mkdir'', exp_mkdir),
     (''fsyncPath'', exp_fsyncPath),
     (''touch'', exp_touch),
     (''probe_block_size'', exp_probe_block_size)]"

text \<open>The loop of \<open>getCallback\<close>, on the rest of the table.\<close>

fun find_callback :: "(string \<times> 'w handler) list \<Rightarrow> string \<Rightarrow> 'w handler option" where
  "find_callback [] methodName = None"
| "find_callback ((name, callback) # rest) methodName =
     (if \<not> c_streq name methodName then find_callback rest methodName else Some callback)"

definition getCallback :: "string \<Rightarrow> 'w handler option" where
  "getCallback methodName = find_callback exportedFunctions methodName"

section \<open>Fields of a request\<close>

text \<open>
  The results are the method name, the request id and the arguments. A field of the
  wrong type is stored as it is; a method name that is no string, or an id that is no
  number, is then used as one.
\<close>

definition extractRequestInfo :: "json \<Rightarrow> c_long
    \<Rightarrow> ((string option \<times> c_long \<times> json option) \<times> gerror option) outcome" where
  "extractRequestInfo reqInfo reqId =
     bind_outcome (safeGetArgValues (Some reqInfo)
         [(''id'', JT_LONG, TLong, VLong reqId), (''methodName'', JT_STRING, TString, VBad)])
       (\<lambda>(vals, tmpError). case vals of [v_id, v_method] \<Rightarrow>
          (case v_id of
             VLong reqId \<Rightarrow>
               (case tmpError of
                  Some e \<Rightarrow> Ret ((None, reqId, None), Some e)
                | None \<Rightarrow>
                    (case v_method of
                       VStr methodNameStr \<Rightarrow>
                         Ret ((Some (c_str methodNameStr), reqId, map_get reqInfo ''args''), None)
                     | _ \<Rightarrow> Undef))
           | _ \<Rightarrow> Undef)
        | _ \<Rightarrow> Undef)"

section \<open>Responses\<close>

definition response_code :: "gerror option \<Rightarrow> c_int" where
  "response_code err = (case err of None \<Rightarrow> 0 | Some e \<Rightarrow> word_of_int (code e))"

definition response_text :: "gerror option \<Rightarrow> string" where
  "response_text err = (case err of None \<Rightarrow> ''SUCCESS'' | Some e \<Rightarrow> message e)"

definition buildResponse :: "c_long \<Rightarrow> gerror option \<Rightarrow> json option \<Rightarrow> json" where
  "buildResponse reqId err result =
     (let errcode = response_code err;
          errstr = response_text err;
          result = (case result of None \<Rightarrow> JsonNode_newMap | Some r \<Rightarrow> r)
      in map_puts [
           (''id'', JsonNode_newFromLong reqId),
           (''errcode'', JsonNode_newFromLong (scast errcode)),
           (''errstr'', JsonNode_newFromString errstr),
           (''result'', result)] JsonNode_newMap)"

text \<open>The document pushed to the response queue, if any.\<close>

definition servQueueFull :: "'w posix \<Rightarrow> json \<Rightarrow> json outcome" where
  "servQueueFull P reqObj =
     bind_outcome (safeGetArgValues (Some reqObj) [(''id'', JT_LONG, TLong, VLong (- 1))])
       (\<lambda>(vals, _). case vals of
          [VLong reqId] \<Rightarrow>
            (let gerr = mk_error IOPROCESS_GENERAL_ERROR EAGAIN (iop_msg (strerr P) EAGAIN)
             in Ret (buildResponse reqId (Some gerr) None))
        | _ \<Rightarrow> Undef)"

definition no_such_method :: "string \<Rightarrow> gerror" where
  "no_such_method methodName =
     mk_error Quark0 EINVAL (''No such method '' @ [CHR 0x27] @ methodName @ [CHR 0x27])"

definition servRequest :: "'w posix \<Rightarrow> json \<Rightarrow> 'w proc \<Rightarrow> (json option \<times> 'w proc) outcome" where
  "servRequest P reqInfo s =
     bind_outcome (extractRequestInfo reqInfo (- 1)) (\<lambda>((methodName, reqId, args), err).
       case (err, methodName) of
         (None, Some methodName) \<Rightarrow>
           (case getCallback methodName of
              None \<Rightarrow> Ret (Some (buildResponse reqId (Some (no_such_method methodName)) None), s)
            | Some callback \<Rightarrow>
                bind_outcome (callback P args s) (\<lambda>((result, err), s).
                  Ret (Some (buildResponse reqId err result), s)))
       | _ \<Rightarrow> Ret (None, s))"

section \<open>Shared facts\<close>

lemma exported_names_distinct: "distinct (map fst exportedFunctions)"
  by (simp add: exportedFunctions_def)

lemma exported_names_nul_free: "list_all (\<lambda>(n, f). nul_free n) exportedFunctions"
  by (simp add: exportedFunctions_def nul_free_def)

lemma find_callback_entry:
  assumes "distinct (map fst tab)" and "list_all (\<lambda>(n, f). nul_free n) tab" and "(n, f) \<in> set tab"
  shows "find_callback tab n = Some f"
  using assms by (induction tab) (force simp: c_streq_def list_all_iff)+

lemma find_callback_None:
  assumes "list_all (\<lambda>(n, f). nul_free n) tab"
  shows "find_callback tab m = None \<longleftrightarrow> c_str m \<notin> fst ` set tab"
  using assms by (induction tab) (auto simp: c_streq_def split: if_split_asm)

lemma find_callback_mem: "find_callback tab m = Some f \<Longrightarrow> f \<in> snd ` set tab"
  by (induction tab) (auto split: if_split_asm)

lemmas callback_contracts =
  ping.exported_function_axioms echo.exported_function_axioms memstat.exported_function_axioms
  crash.exported_function_axioms stat.exported_function_axioms lstat.exported_function_axioms
  statvfs.exported_function_axioms access.exported_function_axioms
  rename.exported_function_axioms unlink.exported_function_axioms
  rmdir.exported_function_axioms link.exported_function_axioms
  symlink.exported_function_axioms chmod.exported_function_axioms
  readfile.exported_function_axioms glob.exported_function_axioms
  listdir.exported_function_axioms writefile.exported_function_axioms
  lexists.exported_function_axioms truncate.exported_function_axioms
  mkdir.exported_function_axioms fsyncPath.exported_function_axioms
  touch.exported_function_axioms probe_block_size.exported_function_axioms

lemma all_callbacks: "\<forall>f \<in> snd ` set exportedFunctions. exported_function f"
  by (simp add: exportedFunctions_def callback_contracts)

lemma getCallback_contract: "getCallback m = Some f \<Longrightarrow> exported_function f"
  using all_callbacks by (auto simp: getCallback_def dest: find_callback_mem)

section \<open>Well-formed requests\<close>

definition is_request :: "json \<Rightarrow> c_long \<Rightarrow> string \<Rightarrow> bool" where
  "is_request req i m \<longleftrightarrow> is_JMap req \<and> map_get req ''id'' = Some (JLong i) \<and>
     map_get req ''methodName'' = Some (JString m)"

lemma extract_request:
  "is_request req i m \<Longrightarrow>
   extractRequestInfo req r = Ret ((Some (c_str m), i, map_get req ''args''), None)"
  by (simp add: extractRequestInfo_def safeGetArgValue_ok arg_ok_def arg_val_def is_request_def)

lemma servRequest_dispatch:
  "is_request req i m \<Longrightarrow> servRequest P req s =
     (case getCallback (c_str m) of
        None \<Rightarrow> Ret (Some (buildResponse i (Some (no_such_method (c_str m))) None), s)
      | Some callback \<Rightarrow>
          bind_outcome (callback P (map_get req ''args'') s) (\<lambda>((result, err), s).
            Ret (Some (buildResponse i err result), s)))"
  by (simp add: servRequest_def extract_request)

lemma response_fields:
  "map_get (buildResponse i err res) ''id'' = Some (JLong i)"
  "map_get (buildResponse i err res) ''errcode'' =
     Some (JLong (scast (response_code err)))"
  "map_get (buildResponse i err res) ''errstr'' =
     Some (JString (c_str (response_text err)))"
  "map_get (buildResponse i err res) ''result'' =
     Some (case res of None \<Rightarrow> JsonNode_newMap | Some r \<Rightarrow> r)"
  unfolding buildResponse_def Let_def
  by (rule node_map.get_put_all; simp add: JsonNode_newFromLong_def JsonNode_newFromString_def c_str_def)+

lemma wf_buildResponse [simp]:
  "(\<And>r. res = Some r \<Longrightarrow> wf_json r) \<Longrightarrow> wf_json (buildResponse i err res)"
  unfolding buildResponse_def Let_def by (cases res) (auto intro!: wf_map_puts)

lemma servRequest_response:
  fixes P :: "'w posix"
  assumes "is_request req i m" and "servRequest P req s = Ret (r, s')"
  obtains e v where "r = Some (buildResponse i e v)" "fds s' = fds s" "\<And>x. v = Some x \<Longrightarrow> wf_json x"
proof (cases "getCallback (c_str m) :: 'w handler option")
  case None
  with assms show thesis by (intro that [of "Some (no_such_method (c_str m))" None])
    (auto simp: servRequest_dispatch)
next
  case (Some f)
  note f = getCallback_contract [OF this]
  from Some assms obtain v e where "f P (map_get req ''args'') s = Ret ((v, e), s')"
    "r = Some (buildResponse i e v)"
    by (auto simp: servRequest_dispatch bind_outcome_eq_Ret)
  then show thesis
    using exported_function.no_descriptor_leak [OF f] exported_function.result_wf [OF f]
    by (intro that) auto
qed

lemma request_entry:
  fixes f :: "'w handler"
  assumes "is_request req i n" and "(n, f) \<in> set exportedFunctions"
  shows "servRequest P req s =
    bind_outcome (f P (map_get req ''args'') s) (\<lambda>((result, err), s').
      Ret (Some (buildResponse i err result), s'))"
proof -
  have "nul_free n" using assms(2) exported_names_nul_free by (auto simp: list_all_iff)
  moreover have "getCallback n = Some f"
    unfolding getCallback_def
    by (rule find_callback_entry [OF exported_names_distinct exported_names_nul_free assms(2)])
  ultimately show ?thesis by (simp add: servRequest_dispatch [OF assms(1)])
qed

section \<open>A request at work\<close>

text \<open>The fields of a request document, and a system for the witnesses.\<close>

definition request_doc :: "c_long \<Rightarrow> string \<Rightarrow> json \<Rightarrow> json" where
  "request_doc i m args =
     map_puts [(''id'', JsonNode_newFromLong i), (''methodName'', JsonNode_newFromString m),
       (''args'', args)] JsonNode_newMap"

lemma request_doc_fields:
  "map_get (request_doc i m args) ''id'' = Some (JLong i)"
  "map_get (request_doc i m args) ''methodName'' = Some (JString (c_str m))"
  "map_get (request_doc i m args) ''args'' = Some args"
  unfolding request_doc_def
  by (rule node_map.get_put_all;
      simp add: JsonNode_newFromLong_def JsonNode_newFromString_def c_str_def)+

lemma is_request_doc [simp]: "is_request (request_doc i m args) i (c_str m)"
proof -
  have "is_JMap (request_doc i m args)"
    unfolding request_doc_def by (rule node_map.is_map_put_all) simp
  then show ?thesis by (simp add: is_request_def request_doc_fields)
qed

section \<open>Properties\<close>

text \<open>
  C11: whatever a well-formed request asks for, \<open>servRequest\<close>, if it returns, queues one
  response: a well-formed document that carries the id of the request, an error code, an
  error text and a result; and it leaves no descriptor open and closes no other.
\<close>

theorem response_carries_id:
  assumes "is_request req i m" and "servRequest P req s = Ret (r, s')"
  shows "fds s' = fds s \<and> (\<exists>resp errcode errstr result. r = Some resp \<and> wf_json resp \<and>
    map_get resp ''id'' = Some (JLong i) \<and> map_get resp ''errcode'' = Some (JLong errcode) \<and>
    map_get resp ''errstr'' = Some (JString errstr) \<and> map_get resp ''result'' = Some result)"
  using assms by (rule servRequest_response) (simp add: response_fields)

lemma response_carries_id_witness:
  "\<exists>s'. servRequest demo_posix (request_doc 7 ''ping'' (JMap [])) (demo_proc []) =
     Ret (Some (buildResponse 7 None (Some (JString ''pong''))), s') \<and> fds s' = []"
proof -
  have "getCallback ''ping'' = Some (exp_ping :: world handler)"
    by (simp add: getCallback_def exportedFunctions_def c_streq_def c_str_def)
  then have *: "servRequest demo_posix (request_doc 7 ''ping'' (JMap [])) (demo_proc []) =
      Ret (Some (buildResponse 7 None (Some (JString ''pong''))), demo_proc [])"
    by (simp add: servRequest_dispatch [OF is_request_doc] exp_ping_def JsonNode_newFromString_def c_str_def)
  from response_carries_id [OF is_request_doc *] have "fds (demo_proc []) = fds (demo_proc [])" by blast
  with * show ?thesis by (simp add: demo_proc_def)
qed

text \<open>
  A request whose method is in the table runs exactly that entry, on the request's
  \<open>args\<close> (the null pointer when there are none), and answers with its result and error.
\<close>

lemma request_runs_entry:
  assumes "is_request req i n" and "(n, f) \<in> set exportedFunctions"
  shows "servRequest P req s =
    bind_outcome (f P (map_get req ''args'') s) (\<lambda>((result, err), s').
      Ret (Some (buildResponse i err result), s'))"
  using assms by (rule request_entry)

lemma request_runs_entry_witness:
  "servRequest demo_posix (request_doc 1 ''echo'' (JMap [(''text'', JString ''hi''), (''sleep'', JLong 2)]))
     (demo_proc []) =
   Ret (Some (buildResponse 1 None (Some (JString ''hi''))),
     (demo_proc [])\<lparr>os := \<lparr>content = [], pos = 0, slept = 2\<rparr>\<rparr>)"
proof -
  have "is_request (request_doc 1 ''echo'' (JMap [(''text'', JString ''hi''), (''sleep'', JLong 2)])) 1 ''echo''"
    using is_request_doc [of 1 "''echo''"] by (simp add: c_str_def)
  moreover have "(''echo'', exp_echo) \<in> set exportedFunctions" by (simp add: exportedFunctions_def)
  ultimately have "servRequest demo_posix
      (request_doc 1 ''echo'' (JMap [(''text'', JString ''hi''), (''sleep'', JLong 2)])) (demo_proc []) =
    bind_outcome (exp_echo demo_posix (map_get (request_doc 1 ''echo''
        (JMap [(''text'', JString ''hi''), (''sleep'', JLong 2)])) ''args'') (demo_proc []))
      (\<lambda>((result, err), s'). Ret (Some (buildResponse 1 err result), s'))"
    by (rule request_runs_entry)
  then show ?thesis
    by (simp add: request_doc_fields exp_echo_def with_args_def safeGetArgValue_def safeGetArg_def c_str_def
        JsonNode_newFromString_def demo_posix_def demo_proc_def)
qed

text \<open>
  A request for a method that is not in the table is answered with \<open>EINVAL\<close>, the text
  \<open>No such method 'm'\<close> and an empty map, and nothing else happens.
\<close>

lemma unknown_method:
  fixes P :: "'w posix"
  assumes "is_request req i m" and "c_str m \<notin> fst ` set (exportedFunctions :: (string \<times> 'w handler) list)"
  shows "\<exists>resp. servRequest P req s = Ret (Some resp, s) \<and>
    map_get resp ''id'' = Some (JLong i) \<and> map_get resp ''errcode'' = Some (JLong 22) \<and>
    map_get resp ''errstr'' =
      Some (JString (''No such method '' @ [CHR 0x27] @ c_str m @ [CHR 0x27])) \<and>
    map_get resp ''result'' = Some (JMap [])"
proof -
  have "find_callback (exportedFunctions :: (string \<times> 'w handler) list) (c_str m) = None"
    using assms(2) by (simp add: find_callback_None exported_names_nul_free)
  then have "servRequest P req s = Ret (Some (buildResponse i (Some (no_such_method (c_str m))) None), s)"
    by (simp add: servRequest_dispatch [OF assms(1)] getCallback_def)
  moreover have "nul_free (''No such method '' @ [CHR 0x27] @ c_str m @ [CHR 0x27])"
    using nul_free_c_str [of m] by (simp add: nul_free_def)
  ultimately show ?thesis
    by (simp add: response_fields response_code_def response_text_def no_such_method_def
        JsonNode_newMap_def EINVAL_def)
qed

lemma unknown_method_witness:
  "\<exists>resp. servRequest demo_posix (request_doc 3 ''nosuch'' (JMap [])) (demo_proc []) =
     Ret (Some resp, demo_proc []) \<and> map_get resp ''errcode'' = Some (JLong 22)"
proof -
  have "is_request (request_doc 3 ''nosuch'' (JMap [])) 3 ''nosuch''"
    using is_request_doc [of 3 "''nosuch''"] by (simp add: c_str_def)
  moreover have "c_str ''nosuch'' \<notin> fst ` set (exportedFunctions :: (string \<times> world handler) list)"
    by (simp add: exportedFunctions_def c_str_def)
  ultimately show ?thesis
    using unknown_method [of "request_doc 3 ''nosuch'' (JMap [])" 3 "''nosuch''" demo_posix "demo_proc []"]
    by blast
qed

text \<open>
  A response has exactly the four fields of the protocol: the id, the error code as a C
  \<open>int\<close>, the error text as a C string and the result.
\<close>

lemma response_layout:
  "buildResponse i err result = JMap [
     (''id'', JLong i),
     (''errcode'', JLong (scast (case err of None \<Rightarrow> 0 :: c_int | Some e \<Rightarrow> word_of_int (code e)))),
     (''errstr'', JString (case err of None \<Rightarrow> ''SUCCESS'' | Some e \<Rightarrow> c_str (message e))),
     (''result'', case result of None \<Rightarrow> JMap [] | Some r \<Rightarrow> r)]"
  by (cases err; cases result)
    (simp_all add: buildResponse_def response_code_def response_text_def c_defs c_str_def)

text \<open>
  C27: a request that has an id but no method name is dropped: the worker queues no
  response and changes nothing, so the caller waits for ever.
\<close>

theorem no_method_no_response:
  assumes "is_JMap req" and "map_get req ''id'' = Some (JLong i)"
    and "map_get req ''methodName'' = None"
  shows "servRequest P req s = Ret (None, s)"
  using assms
  by (auto simp: servRequest_def extractRequestInfo_def safeGetArgValue_def safeGetArg_def is_JMap_def
      map_get_def)

lemma no_method_no_response_witness:
  "servRequest demo_posix (JMap [(''id'', JLong 4)]) (demo_proc []) = Ret (None, demo_proc [])"
  by (rule no_method_no_response) (simp_all add: c_str_def)

text \<open>
  A request that finds the queue full is answered with its own id, or -1 when it has
  none, the code \<open>EAGAIN\<close>, the text of that error and an empty result.
\<close>

lemma queue_full_response:
  assumes "is_JMap req" and "map_get req ''id'' \<in> {None, Some (JLong i)}"
  shows "servQueueFull P req = Ret (JMap [
    (''id'', JLong (if map_get req ''id'' = None then - 1 else i)), (''errcode'', JLong 11),
    (''errstr'', JString (c_str (iop_msg (strerr P) EAGAIN))), (''result'', JMap [])])"
  using assms
  by (auto simp: servQueueFull_def safeGetArgValue_def safeGetArg_def is_JMap_def map_get_def
      buildResponse_def response_code_def response_text_def c_defs c_str_def EAGAIN_def)

lemma queue_full_response_witness:
  "servQueueFull demo_posix (JMap [(''id'', JLong 9)]) = Ret (JMap [
    (''id'', JLong 9), (''errcode'', JLong 11), (''errstr'', JString ''error''), (''result'', JMap [])])"
  using queue_full_response [of "JMap [(''id'', JLong 9)]" 9 demo_posix]
  by (simp add: c_str_def iop_msg_def iop_strerror_def gnu_strerror_r_def demo_posix_def demo_strerror_def)

end
