(* ===== verification/Pool.thy ===== *)
theory Pool
  imports Request
begin

text \<open>
  The threads of \<open>src/ioprocess.c\<close> and the queues between them, as a step relation: the
  reader pushes requests and then the stop mark; \<open>requestHandler\<close> pops them, refuses one
  when no slot is left and pushes the others to the thread pool; the workers run
  \<open>servRequest\<close>; on the stop mark the handler waits for the pool to run dry and pushes the
  stop mark on, and the writer takes the responses up to it. Any interleaving of the
  steps is a run.
\<close>

section \<open>Systems whose runs end\<close>

text \<open>
  What the proofs on the threads use of a step relation: an invariant, and a measure
  that every step takes down where the invariant holds.
\<close>

locale ending_system =
  fixes initial :: "'s \<Rightarrow> bool"
    and step :: "'s \<Rightarrow> 's \<Rightarrow> bool"
    and inv :: "'s \<Rightarrow> bool"
    and left :: "'s \<Rightarrow> nat"
  assumes inv_initial: "initial s \<Longrightarrow> inv s"
    and inv_step: "inv s \<Longrightarrow> step s s' \<Longrightarrow> inv s'"
    and left_step: "step s s' \<Longrightarrow> left s' < left s"
begin

lemma inv_run: "step\<^sup>*\<^sup>* s s' \<Longrightarrow> inv s \<Longrightarrow> inv s'"
  by (induction rule: rtranclp_induct) (auto intro: inv_step)

lemma inv_reachable: "initial s \<Longrightarrow> step\<^sup>*\<^sup>* s s' \<Longrightarrow> inv s'"
  by (rule inv_run [OF _ inv_initial])

lemma run_bound: "(step ^^ n) s s' \<Longrightarrow> n + left s' \<le> left s"
proof (induction n arbitrary: s')
  case (Suc n)
  then obtain t where "(step ^^ n) s t" "step t s'" by auto
  then show ?case using Suc.IH left_step by fastforce
qed simp

lemma run_ends: "\<exists>s'. step\<^sup>*\<^sup>* s s' \<and> (\<forall>t. \<not> step s' t)"
proof (induction "left s" arbitrary: s rule: less_induct)
  case less
  show ?case
  proof (cases "\<exists>t. step s t")
    case True
    then obtain t where t: "step s t" by blast
    from less [OF left_step [OF t]] t show ?thesis by (blast intro: converse_rtranclp_into_rtranclp)
  next
    case False
    then show ?thesis by blast
  qed
qed

end

section \<open>The state of the threads\<close>

datatype 'a item = Msg 'a | STOP_PTR

text \<open>Where \<open>requestHandler\<close> is, and the request it holds.\<close>

datatype hpc =
    Popping
  | Deciding json
  | Refusing json
  | Restoring
  | Pushing json
  | Flushing
  | HandlerDone

text \<open>A worker runs a request, or has answered it and is about to free its slot.\<close>

datatype worker = Running json | Finishing

text \<open>
  \<open>answered\<close> is a history: the requests answered so far, each with the response that
  was queued for it, if any.
\<close>

record threads =
  input :: "json list"
  reader_done :: bool
  requestQueue :: "json item list"
  queueSlotsLeft :: c_int
  handler :: hpc
  poolQueue :: "json list"
  workers :: "worker list"
  responseQueue :: "json item list"
  written :: "json list"
  writer_done :: bool
  answered :: "(json \<times> json option) list"
  lost :: "json list"

text \<open>
  The parameters of a run: the options, the responses \<open>servRequest\<close> can give to a
  request, the response of \<open>servQueueFull\<close>, and whether allocations, thread creation or
  pipe writes may fail.
\<close>

record config =
  MAX_THREADS :: int
  MAX_QUEUED_REQUESTS :: int
  serves :: "json \<Rightarrow> json option \<Rightarrow> bool"
  refusal :: "json \<Rightarrow> json"
  may_fail :: bool

definition start :: "config \<Rightarrow> json list \<Rightarrow> threads" where
  "start c reqs =
     \<lparr>input = reqs, reader_done = False, requestQueue = [],
      queueSlotsLeft = word_of_int (MAX_THREADS c + MAX_QUEUED_REQUESTS c + 1),
      handler = Popping, poolQueue = [], workers = [], responseQueue = [],
      written = [], writer_done = False, answered = [], lost = []\<rparr>"

definition capped :: "config \<Rightarrow> bool" where
  "capped c \<longleftrightarrow> 0 \<le> MAX_QUEUED_REQUESTS c"

section \<open>The steps\<close>

inductive pool_step :: "config \<Rightarrow> threads \<Rightarrow> threads \<Rightarrow> bool" for c where
  read_request:
    "input s = r # rs \<Longrightarrow>
     pool_step c s (s\<lparr>input := rs, requestQueue := requestQueue s @ [Msg r]\<rparr>)"
| read_stop:
    "input s = [] \<Longrightarrow> \<not> reader_done s \<Longrightarrow>
     pool_step c s (s\<lparr>reader_done := True, requestQueue := requestQueue s @ [STOP_PTR]\<rparr>)"
| read_fails:
    "may_fail c \<Longrightarrow> input s \<noteq> [] \<Longrightarrow>
     pool_step c s (s\<lparr>input := [], lost := lost s @ input s\<rparr>)"
| pop_request:
    "handler s = Popping \<Longrightarrow> requestQueue s = Msg r # q \<Longrightarrow>
     pool_step c s (s\<lparr>requestQueue := q, handler := Deciding r\<rparr>)"
| pop_stop:
    "handler s = Popping \<Longrightarrow> requestQueue s = STOP_PTR # q \<Longrightarrow>
     pool_step c s (s\<lparr>requestQueue := q, handler := Flushing\<rparr>)"
| params_malloc_fails:
    "may_fail c \<Longrightarrow> handler s = Popping \<Longrightarrow> requestQueue s = Msg r # q \<Longrightarrow>
     pool_step c s (s\<lparr>requestQueue := q, handler := Flushing, lost := lost s @ [r]\<rparr>)"
| decide_full:
    "handler s = Deciding r \<Longrightarrow> capped c \<Longrightarrow> queueSlotsLeft s - 1 = 0 \<Longrightarrow>
     pool_step c s (s\<lparr>queueSlotsLeft := queueSlotsLeft s - 1, handler := Refusing r\<rparr>)"
| decide_slot:
    "handler s = Deciding r \<Longrightarrow> capped c \<Longrightarrow> queueSlotsLeft s - 1 \<noteq> 0 \<Longrightarrow>
     pool_step c s (s\<lparr>queueSlotsLeft := queueSlotsLeft s - 1, handler := Pushing r\<rparr>)"
| decide_unlimited:
    "handler s = Deciding r \<Longrightarrow> \<not> capped c \<Longrightarrow> pool_step c s (s\<lparr>handler := Pushing r\<rparr>)"
| refuse:
    "handler s = Refusing r \<Longrightarrow>
     pool_step c s (s\<lparr>handler := Restoring, responseQueue := responseQueue s @ [Msg (refusal c r)],
       answered := answered s @ [(r, Some (refusal c r))]\<rparr>)"
| restore_slot:
    "handler s = Restoring \<Longrightarrow>
     pool_step c s (s\<lparr>queueSlotsLeft := queueSlotsLeft s + 1, handler := Popping\<rparr>)"
| pool_push:
    "handler s = Pushing r \<Longrightarrow>
     pool_step c s (s\<lparr>poolQueue := poolQueue s @ [r], handler := Popping\<rparr>)"
| pool_push_fails:
    "may_fail c \<Longrightarrow> handler s = Pushing r \<Longrightarrow>
     pool_step c s (s\<lparr>poolQueue := poolQueue s @ [r], handler := Flushing\<rparr>)"
| worker_start:
    "poolQueue s = r # rs \<Longrightarrow> MAX_THREADS c = 0 \<or> int (length (workers s)) < MAX_THREADS c \<Longrightarrow>
     pool_step c s (s\<lparr>poolQueue := rs, workers := workers s @ [Running r]\<rparr>)"
| worker_respond:
    "workers s = us @ Running r # vs \<Longrightarrow> serves c r resp \<Longrightarrow>
     pool_step c s (s\<lparr>workers := us @ Finishing # vs,
       responseQueue := responseQueue s @ (case resp of None \<Rightarrow> [] | Some d \<Rightarrow> [Msg d]),
       answered := answered s @ [(r, resp)]\<rparr>)"
| worker_finish:
    "workers s = us @ Finishing # vs \<Longrightarrow>
     pool_step c s (s\<lparr>workers := us @ vs,
       queueSlotsLeft := (if capped c then queueSlotsLeft s + 1 else queueSlotsLeft s)\<rparr>)"
| flushed:
    "handler s = Flushing \<Longrightarrow> poolQueue s = [] \<Longrightarrow> workers s = [] \<Longrightarrow>
     pool_step c s (s\<lparr>handler := HandlerDone, responseQueue := responseQueue s @ [STOP_PTR]\<rparr>)"
| write_response:
    "\<not> writer_done s \<Longrightarrow> responseQueue s = Msg d # q \<Longrightarrow>
     pool_step c s (s\<lparr>responseQueue := q, written := written s @ [d]\<rparr>)"
| write_stop:
    "\<not> writer_done s \<Longrightarrow> responseQueue s = STOP_PTR # q \<Longrightarrow>
     pool_step c s (s\<lparr>responseQueue := q, writer_done := True\<rparr>)"
| write_fails:
    "may_fail c \<Longrightarrow> \<not> writer_done s \<Longrightarrow> responseQueue s = Msg d # q \<Longrightarrow>
     pool_step c s (s\<lparr>responseQueue := q, writer_done := True\<rparr>)"

section \<open>Slots\<close>

text \<open>
  Every request between the handler's decrement and the worker's increment holds a
  slot. With \<open>cap = MAX_THREADS + MAX_QUEUED_REQUESTS + 1\<close>, the counter is what is left
  of \<open>cap\<close>; it is 0 only while a request is being refused.
\<close>

fun holds_slot :: "hpc \<Rightarrow> nat" where
  "holds_slot (Refusing r) = 1"
| "holds_slot Restoring = 1"
| "holds_slot (Pushing r) = 1"
| "holds_slot _ = 0"

fun refusing :: "hpc \<Rightarrow> bool" where
  "refusing (Refusing r) = True"
| "refusing Restoring = True"
| "refusing _ = False"

definition in_flight :: "threads \<Rightarrow> nat" where
  "in_flight s = length (poolQueue s) + length (workers s)"

definition held :: "threads \<Rightarrow> nat" where
  "held s = in_flight s + holds_slot (handler s)"

definition cap :: "config \<Rightarrow> int" where
  "cap c = MAX_THREADS c + MAX_QUEUED_REQUESTS c + 1"

definition slots_ok :: "config \<Rightarrow> threads \<Rightarrow> bool" where
  "slots_ok c s \<longleftrightarrow>
     (MAX_THREADS c \<noteq> 0 \<longrightarrow> int (length (workers s)) \<le> MAX_THREADS c) \<and>
     (capped c \<longrightarrow>
        queueSlotsLeft s = word_of_int (cap c - int (held s)) \<and>
        int (held s) + (if refusing (handler s) then 0 else 1) \<le> cap c)"

text \<open>The options the program accepts, and a sum that an \<open>int\<close> can hold.\<close>

definition valid_config :: "config \<Rightarrow> bool" where
  "valid_config c \<longleftrightarrow> 0 \<le> MAX_THREADS c \<and> (capped c \<longrightarrow> 0 < MAX_THREADS c \<and> cap c < 2 ^ 31)"

lemmas slot_defs = slots_ok_def held_def in_flight_def

lemma word_slot_inc: "(word_of_int (a - int (Suc n)) :: c_int) + 1 = word_of_int (a - int n)"
  by simp

lemma word_slot_zero:
  assumes "0 \<le> x" and "x < 2 ^ 31"
  shows "(word_of_int x :: c_int) = 0 \<longleftrightarrow> x = 0"
proof -
  have "uint (word_of_int x :: c_int) = x" using assms by (simp add: uint_word_of_int_eq take_bit_int_eq_self)
  then show ?thesis by (metis uint_0_iff word_of_int_0)
qed

lemma slots_step:
  assumes "pool_step c s s'" and "slots_ok c s" and "valid_config c"
  shows "slots_ok c s'"
  using assms
proof (cases rule: pool_step.cases)
  case (decide_full r)
  with assms(2,3) have "int (Suc (in_flight s)) \<le> cap c" "cap c < 2 ^ 31"
    by (auto simp: slots_ok_def held_def valid_config_def)
  with decide_full assms(2) show ?thesis
    by (auto simp: slot_defs diff_eq_eq)
next
  case (decide_slot r)
  define x where "x = cap c - int (Suc (in_flight s))"
  have x: "0 \<le> x" "x < 2 ^ 31" "queueSlotsLeft s - 1 = word_of_int x"
    using decide_slot assms(2,3) by (auto simp: slots_ok_def held_def valid_config_def x_def)
  with decide_slot(4) word_slot_zero [OF x(1,2)] have "0 < x" by simp
  with decide_slot assms(2) x(3) show ?thesis
    by (auto simp: slot_defs x_def)
qed (auto simp: slot_defs word_slot_inc)

lemma slots_start: "valid_config c \<Longrightarrow> slots_ok c (start c reqs)"
  by (auto simp: slot_defs start_def valid_config_def cap_def capped_def)

section \<open>Requests and responses\<close>

fun msgs :: "'a item list \<Rightarrow> 'a list" where
  "msgs [] = []"
| "msgs (Msg a # q) = a # msgs q"
| "msgs (STOP_PTR # q) = msgs q"

fun in_hand :: "hpc \<Rightarrow> json list" where
  "in_hand (Deciding r) = [r]"
| "in_hand (Refusing r) = [r]"
| "in_hand (Pushing r) = [r]"
| "in_hand _ = []"

fun running :: "worker list \<Rightarrow> json list" where
  "running [] = []"
| "running (Running r # ws) = r # running ws"
| "running (Finishing # ws) = running ws"

lemma msgs_append [simp]: "msgs (p @ q) = msgs p @ msgs q"
  by (induction p rule: msgs.induct) auto

lemma running_append [simp]: "running (us @ vs) = running us @ running vs"
  by (induction us rule: running.induct) auto

lemma map_filter_append [simp]: "List.map_filter f (xs @ ys) = List.map_filter f xs @ List.map_filter f ys"
  by (simp add: List.map_filter_def)

lemma map_filter_Nil [simp]: "List.map_filter f [] = []"
  by (simp add: List.map_filter_def)

lemma map_filter_Cons [simp]:
  "List.map_filter f (x # xs) = (case f x of None \<Rightarrow> [] | Some y \<Rightarrow> [y]) @ List.map_filter f xs"
  by (simp add: List.map_filter_def split: option.split)

text \<open>The responses queued so far, in order.\<close>

definition responses :: "threads \<Rightarrow> json list" where
  "responses s = List.map_filter snd (answered s)"

definition conserved :: "json list \<Rightarrow> threads \<Rightarrow> bool" where
  "conserved reqs s \<longleftrightarrow> mset reqs =
     mset (input s) + mset (msgs (requestQueue s)) + mset (in_hand (handler s)) +
     mset (poolQueue s) + mset (running (workers s)) + mset (map fst (answered s)) + mset (lost s)"

definition answers_ok :: "config \<Rightarrow> threads \<Rightarrow> bool" where
  "answers_ok c s \<longleftrightarrow>
     list_all (\<lambda>(r, resp). serves c r resp \<or> resp = Some (refusal c r)) (answered s)"

text \<open>A queue with the stop mark at its end, or with none.\<close>

fun queue_ok :: "bool \<Rightarrow> 'a item list \<Rightarrow> bool" where
  "queue_ok stop [] \<longleftrightarrow> \<not> stop"
| "queue_ok stop (Msg a # q) \<longleftrightarrow> queue_ok stop q"
| "queue_ok stop (STOP_PTR # q) \<longleftrightarrow> stop \<and> q = []"

lemma queue_ok_push [simp]:
  "queue_ok False (q @ [Msg a]) \<longleftrightarrow> queue_ok False q"
  "queue_ok True (q @ [STOP_PTR]) \<longleftrightarrow> queue_ok False q"
  by (induction q rule: msgs.induct) auto

text \<open>Where the stop marks are, in a run without failures.\<close>

definition request_side :: "threads \<Rightarrow> bool" where
  "request_side s \<longleftrightarrow> lost s = [] \<and> (reader_done s \<longrightarrow> input s = []) \<and>
     (if handler s \<in> {Flushing, HandlerDone} then reader_done s \<and> requestQueue s = []
      else queue_ok (reader_done s) (requestQueue s))"

definition response_side :: "threads \<Rightarrow> bool" where
  "response_side s \<longleftrightarrow> written s @ msgs (responseQueue s) = responses s \<and>
     (handler s = HandlerDone \<longrightarrow> poolQueue s = [] \<and> workers s = []) \<and>
     (if writer_done s then handler s = HandlerDone \<and> responseQueue s = []
      else queue_ok (handler s = HandlerDone) (responseQueue s))"

lemma conserved_step: "pool_step c s s' \<Longrightarrow> conserved reqs s \<Longrightarrow> conserved reqs s'"
  by (cases rule: pool_step.cases) (auto simp: conserved_def)

lemma answers_ok_step: "pool_step c s s' \<Longrightarrow> answers_ok c s \<Longrightarrow> answers_ok c s'"
  by (cases rule: pool_step.cases) (auto simp: answers_ok_def)

lemma request_side_step:
  "pool_step c s s' \<Longrightarrow> \<not> may_fail c \<Longrightarrow> request_side s \<Longrightarrow> request_side s'"
  by (induction rule: pool_step.induct; simp add: request_side_def split: if_split_asm; auto)

lemma response_side_step:
  "pool_step c s s' \<Longrightarrow> \<not> may_fail c \<Longrightarrow> response_side s \<Longrightarrow> response_side s'"
  by (induction rule: pool_step.induct;
      simp add: response_side_def responses_def split: if_split_asm option.split; auto)

section \<open>Runs end\<close>

text \<open>
  A request weighs 12 before it is read and less at every stage; 3 of it pass on to its
  response. The other terms pay for the stop marks and the handler's way to its end.
\<close>

fun handler_left :: "hpc \<Rightarrow> nat" where
  "handler_left Popping = 20"
| "handler_left (Deciding r) = 30"
| "handler_left (Refusing r) = 29"
| "handler_left Restoring = 25"
| "handler_left (Pushing r) = 29"
| "handler_left Flushing = 10"
| "handler_left HandlerDone = 0"

fun item_left :: "nat \<Rightarrow> 'a item \<Rightarrow> nat" where
  "item_left w (Msg a) = w"
| "item_left w STOP_PTR = 1"

fun worker_left :: "worker \<Rightarrow> nat" where
  "worker_left (Running r) = 7"
| "worker_left Finishing = 2"

definition steps_left :: "threads \<Rightarrow> nat" where
  "steps_left s =
     12 * length (input s) + (if reader_done s then 0 else 5) +
     sum_list (map (item_left 11) (requestQueue s)) + handler_left (handler s) +
     8 * length (poolQueue s) + sum_list (map worker_left (workers s)) +
     sum_list (map (item_left 3) (responseQueue s)) + (if writer_done s then 0 else 1)"

lemma steps_left_step: "pool_step c s s' \<Longrightarrow> steps_left s' < steps_left s"
  by (induction rule: pool_step.induct) (auto simp: steps_left_def split: option.split)

section \<open>The invariant of a run\<close>

definition pool_inv :: "config \<Rightarrow> json list \<Rightarrow> threads \<Rightarrow> bool" where
  "pool_inv c reqs s \<longleftrightarrow>
     (valid_config c \<longrightarrow> slots_ok c s) \<and> conserved reqs s \<and> answers_ok c s \<and>
     (\<not> may_fail c \<longrightarrow> request_side s \<and> response_side s)"

interpretation pool: ending_system "\<lambda>s. s = start c reqs" "pool_step c" "pool_inv c reqs" steps_left
  for c reqs
proof
  fix s
  assume "s = start c reqs"
  then show "pool_inv c reqs s"
    by (auto simp: pool_inv_def slots_start)
      (auto simp: start_def conserved_def answers_ok_def request_side_def response_side_def responses_def)
next
  fix s s'
  assume "pool_inv c reqs s" and "pool_step c s s'"
  then show "pool_inv c reqs s'"
    by (simp add: pool_inv_def slots_step conserved_step answers_ok_step request_side_step response_side_step)
qed (rule steps_left_step)

lemma run_length: "(pool_step c ^^ k) (start c reqs) s \<Longrightarrow> k \<le> 12 * length reqs + 26"
  using pool.run_bound [of k c "start c reqs" s] by (simp add: steps_left_def start_def)

section \<open>The end of a run\<close>

definition drained :: "threads \<Rightarrow> bool" where
  "drained s \<longleftrightarrow> input s = [] \<and> reader_done s \<and> requestQueue s = [] \<and> handler s = HandlerDone \<and>
     poolQueue s = [] \<and> workers s = [] \<and> responseQueue s = [] \<and> writer_done s"

text \<open>Every request still in the program has a response: its handler returns.\<close>

definition all_served :: "config \<Rightarrow> json list \<Rightarrow> bool" where
  "all_served c reqs \<longleftrightarrow> list_all (\<lambda>r. \<exists>resp. serves c r resp) reqs"

lemma running_served:
  assumes "conserved reqs s" and "all_served c reqs" and "workers s = us @ Running r # vs"
  shows "\<exists>resp. serves c r resp"
proof -
  have "r \<in># mset reqs" using assms(1,3) by (simp add: conserved_def)
  then show ?thesis using assms(2) by (auto simp: all_served_def list_all_iff)
qed

lemma stuck_drained:
  assumes inv: "pool_inv c reqs s" and c: "valid_config c" "\<not> may_fail c" "all_served c reqs"
    and stuck: "\<And>t. \<not> pool_step c s t"
  shows "drained s"
proof -
  from inv c have rq: "request_side s" and rs: "response_side s" and con: "conserved reqs s"
    by (auto simp: pool_inv_def)
  have input: "input s = []" using stuck read_request by (cases "input s") blast+
  then have rd: "reader_done s" using stuck read_stop by blast
  have ws: "workers s = []"
  proof (rule ccontr)
    assume "workers s \<noteq> []"
    then obtain w vs where w: "workers s = [] @ w # vs" by (cases "workers s") auto
    show False
    proof (cases w)
      case (Running r)
      then show ?thesis using w running_served [OF con c(3)] stuck worker_respond by metis
    next
      case Finishing
      then show ?thesis using w stuck worker_finish by metis
    qed
  qed
  then have "MAX_THREADS c = 0 \<or> int (length (workers s)) < MAX_THREADS c"
    using c(1) by (auto simp: valid_config_def)
  then have pq: "poolQueue s = []"
    using stuck worker_start by (cases "poolQueue s") blast+
  have h: "handler s = HandlerDone"
  proof (cases "handler s")
    case Popping
    with rq rd have "queue_ok True (requestQueue s)" by (simp add: request_side_def)
    then show ?thesis using Popping stuck pop_request pop_stop
      by (cases "requestQueue s" rule: msgs.cases) (auto, blast+)
  next
    case (Deciding r)
    then show ?thesis using stuck decide_full decide_slot decide_unlimited by blast
  qed (use stuck refuse restore_slot pool_push flushed pq ws in blast)+
  with rq have q: "requestQueue s = []" by (simp add: request_side_def)
  have wd: "writer_done s"
  proof (rule ccontr)
    assume nd: "\<not> writer_done s"
    with rs h have "queue_ok True (responseQueue s)" by (simp add: response_side_def)
    then show False using nd stuck write_response write_stop
      by (cases "responseQueue s" rule: msgs.cases) (auto, blast+)
  qed
  with rs input rd ws pq h q show ?thesis by (simp add: drained_def response_side_def)
qed

lemma drained_stuck: "drained s \<Longrightarrow> \<not> pool_step c s t"
  by (auto simp: drained_def elim: pool_step.cases)

lemma drained_answers:
  assumes "pool_inv c reqs s" and "\<not> may_fail c" and "drained s"
  shows "mset (map fst (answered s)) = mset reqs" and "written s = responses s"
  using assms
  by (auto simp: pool_inv_def drained_def conserved_def request_side_def response_side_def)

section \<open>A run\<close>

text \<open>One worker, no queue beyond it, and a service that echoes the request.\<close>

definition demo_config :: config where
  "demo_config = \<lparr>MAX_THREADS = 1, MAX_QUEUED_REQUESTS = 0, serves = (\<lambda>r resp. resp = Some r),
     refusal = id, may_fail = False\<rparr>"

lemma demo_valid: "valid_config demo_config" "capped demo_config" "\<not> may_fail demo_config"
  "all_served demo_config reqs"
  by (simp_all add: demo_config_def valid_config_def capped_def cap_def all_served_def list_all_iff)

text \<open>The end of a run for one request \<open>r\<close> that is answered by \<open>d\<close>.\<close>

definition one_answered :: "config \<Rightarrow> json \<Rightarrow> json \<Rightarrow> threads" where
  "one_answered c r d = (start c [])\<lparr>reader_done := True, handler := HandlerDone, written := [d],
     writer_done := True, answered := [(r, Some d)]\<rparr>"

definition deciding :: "config \<Rightarrow> json \<Rightarrow> threads" where
  "deciding c r = (start c [])\<lparr>handler := Deciding r\<rparr>"

lemma reaches_deciding: "(pool_step c)\<^sup>*\<^sup>* (start c [r]) (deciding c r)"
proof -
  let ?s1 = "(start c [])\<lparr>requestQueue := [Msg r]\<rparr>"
  have "pool_step c (start c [r]) ?s1"
    using read_request [of "start c [r]" r "[]" c] by (simp add: start_def)
  moreover have "pool_step c ?s1 (deciding c r)"
    using pop_request [of ?s1 r "[]" c] by (simp add: start_def deciding_def)
  ultimately show ?thesis by (meson converse_rtranclp_into_rtranclp rtranclp.rtrancl_refl)
qed

lemma deciding_to_answered:
  assumes "capped c" and "0 < MAX_THREADS c" and "queueSlotsLeft (start c []) - 1 \<noteq> 0"
    and "serves c r (Some d)"
  shows "(pool_step c)\<^sup>*\<^sup>* (deciding c r)
    ((start c [])\<lparr>responseQueue := [Msg d], answered := [(r, Some d)]\<rparr>)"
proof -
  note step = converse_rtranclp_into_rtranclp [of "pool_step c"]
  let ?q = "queueSlotsLeft (start c [])" and ?d = "deciding c r"
  let ?s1 = "?d\<lparr>queueSlotsLeft := ?q - 1, handler := Pushing r\<rparr>"
  let ?s2 = "?s1\<lparr>poolQueue := [r], handler := Popping\<rparr>"
  let ?s3 = "?s2\<lparr>poolQueue := [], workers := [Running r]\<rparr>"
  let ?s4 = "?s3\<lparr>workers := [Finishing], responseQueue := [Msg d], answered := [(r, Some d)]\<rparr>"
  let ?s5 = "(start c [])\<lparr>responseQueue := [Msg d], answered := [(r, Some d)]\<rparr>"
  have 1: "pool_step c ?d ?s1"
    using decide_slot [of ?d r c] assms(1,3) by (simp add: deciding_def start_def)
  have 2: "pool_step c ?s1 ?s2"
    using pool_push [of ?s1 r c] by (simp add: deciding_def start_def)
  have 3: "pool_step c ?s2 ?s3"
    using worker_start [of ?s2 r "[]" c] assms(2) by (simp add: deciding_def start_def)
  have 4: "pool_step c ?s3 ?s4"
    using worker_respond [of ?s3 "[]" r "[]" c "Some d"] assms(4) by (simp add: deciding_def start_def)
  have 5: "pool_step c ?s4 ?s5"
    using worker_finish [of ?s4 "[]" "[]" c] assms(1) by (simp add: deciding_def start_def)
  show ?thesis
    by (rule step [OF 1], rule step [OF 2], rule step [OF 3], rule step [OF 4], rule r_into_rtranclp, rule 5)
qed

lemma answered_to_end:
  "(pool_step c)\<^sup>*\<^sup>* ((start c [])\<lparr>responseQueue := [Msg d], answered := [(r, Some d)]\<rparr>) (one_answered c r d)"
proof -
  note step = converse_rtranclp_into_rtranclp [of "pool_step c"]
  let ?s5 = "(start c [])\<lparr>responseQueue := [Msg d], answered := [(r, Some d)]\<rparr>"
  let ?s6 = "?s5\<lparr>reader_done := True, requestQueue := [STOP_PTR]\<rparr>"
  let ?s7 = "?s6\<lparr>requestQueue := [], handler := Flushing\<rparr>"
  let ?s8 = "?s7\<lparr>handler := HandlerDone, responseQueue := [Msg d, STOP_PTR]\<rparr>"
  let ?s9 = "?s8\<lparr>responseQueue := [STOP_PTR], written := [d]\<rparr>"
  have 6: "pool_step c ?s5 ?s6" using read_stop [of ?s5 c] by (simp add: start_def)
  have 7: "pool_step c ?s6 ?s7" using pop_stop [of ?s6 "[]" c] by (simp add: start_def)
  have 8: "pool_step c ?s7 ?s8" using flushed [of ?s7 c] by (simp add: start_def)
  have 9: "pool_step c ?s8 ?s9" using write_response [of ?s8 d "[STOP_PTR]" c] by (simp add: start_def)
  have 10: "pool_step c ?s9 (one_answered c r d)"
    using write_stop [of ?s9 "[]" c] by (simp add: start_def one_answered_def)
  show ?thesis
    by (rule step [OF 6], rule step [OF 7], rule step [OF 8], rule step [OF 9], rule r_into_rtranclp, rule 10)
qed

lemma one_request_run:
  assumes "capped c" and "0 < MAX_THREADS c" and "queueSlotsLeft (start c []) - 1 \<noteq> 0"
    and "serves c r (Some d)"
  shows "(pool_step c)\<^sup>*\<^sup>* (start c [r]) (one_answered c r d)"
  using reaches_deciding deciding_to_answered [OF assms] answered_to_end by (meson rtranclp_trans)

lemma one_answered_drained: "drained (one_answered c r d)"
  by (simp add: drained_def one_answered_def start_def)

abbreviation demo_final :: threads where
  "demo_final \<equiv> one_answered demo_config JNull JNull"

abbreviation demo_deciding :: threads where
  "demo_deciding \<equiv> deciding demo_config JNull"

lemma demo_run: "(pool_step demo_config)\<^sup>*\<^sup>* (start demo_config [JNull]) demo_final"
  by (rule one_request_run) (simp_all add: demo_config_def capped_def start_def)

section \<open>Properties\<close>

text \<open>
  C9: a run that can go no further, of a program whose handlers return and whose
  allocations, thread starts and writes succeed, has drained every queue and ended every
  thread; each request read was answered exactly once, by its handler or by a refusal, and
  the responses were written in the order in which they were queued.
\<close>

theorem every_request_answered:
  assumes "valid_config c" and "\<not> may_fail c" and "all_served c reqs"
    and "(pool_step c)\<^sup>*\<^sup>* (start c reqs) s" and "\<forall>t. \<not> pool_step c s t"
  shows "drained s \<and> mset (map fst (answered s)) = mset reqs \<and>
    written s = List.map_filter snd (answered s) \<and>
    (\<forall>(r, resp) \<in> set (answered s). serves c r resp \<or> resp = Some (refusal c r))"
proof -
  have inv: "pool_inv c reqs s" by (rule pool.inv_reachable [OF refl assms(4)])
  then have d: "drained s" using assms by (intro stuck_drained) auto
  from drained_answers [OF inv assms(2) d] d inv show ?thesis
    by (simp add: pool_inv_def answers_ok_def list_all_iff responses_def)
qed

lemma every_request_answered_witness:
  "drained demo_final \<and> mset (map fst (answered demo_final)) = mset [JNull] \<and> written demo_final = [JNull]"
  using every_request_answered [OF demo_valid(1,3,4) demo_run] drained_stuck [OF one_answered_drained]
  by (auto simp: one_answered_def)

text \<open>
  C10: with capped threads and queue, at most \<open>MAX_THREADS\<close> requests run and at most
  \<open>MAX_THREADS + MAX_QUEUED_REQUESTS\<close> are in the pool at any moment, and a request is
  refused exactly when the pool holds that many.
\<close>

theorem slots_bound:
  assumes "valid_config c" and "capped c" and "(pool_step c)\<^sup>*\<^sup>* (start c reqs) s"
  shows "int (length (workers s)) \<le> MAX_THREADS c \<and>
    int (in_flight s) \<le> MAX_THREADS c + MAX_QUEUED_REQUESTS c \<and>
    (case handler s of
       Deciding r \<Rightarrow> queueSlotsLeft s - 1 = 0 \<longleftrightarrow>
         int (in_flight s) = MAX_THREADS c + MAX_QUEUED_REQUESTS c
     | _ \<Rightarrow> True)"
proof -
  have ok: "slots_ok c s"
    using pool.inv_reachable [OF refl assms(3)] assms(1) by (simp add: pool_inv_def)
  define x where "x = cap c - int (Suc (in_flight s))"
  have x: "queueSlotsLeft s - 1 = word_of_int x" "0 \<le> x" "x < 2 ^ 31" if "handler s = Deciding r" for r
    using ok assms(1,2) that by (auto simp: slots_ok_def held_def valid_config_def x_def)
  show ?thesis
    using ok assms(1,2) x word_slot_zero [of x]
    by (cases "handler s") (auto simp: slots_ok_def held_def valid_config_def cap_def x_def)
qed

lemma slots_bound_witness:
  "int (in_flight demo_deciding) \<le> 1 \<and> queueSlotsLeft demo_deciding - 1 \<noteq> 0"
  using slots_bound [OF demo_valid(1,2) reaches_deciding]
  by (simp add: deciding_def demo_config_def start_def in_flight_def)

text \<open>
  C18: a program with valid limits, whose handlers return and whose allocations, thread starts
  and writes succeed, cannot deadlock and cannot run for ever: a run for \<open>n\<close> requests has at
  most \<open>12 n + 26\<close> steps, and from wherever it is it can go on to the state where every queue is
  empty, every thread has ended, and, where the queue is capped, every slot has been given back.
\<close>

theorem drained_reachable:
  assumes "valid_config c" and "\<not> may_fail c" and "all_served c reqs"
    and "(pool_step c ^^ k) (start c reqs) s"
  shows "k \<le> 12 * length reqs + 26 \<and> (\<exists>t. (pool_step c)\<^sup>*\<^sup>* s t \<and> drained t \<and>
    (capped c \<longrightarrow> queueSlotsLeft t = queueSlotsLeft (start c reqs)))"
proof
  show "k \<le> 12 * length reqs + 26" by (rule run_length [OF assms(4)])
  obtain t where t: "(pool_step c)\<^sup>*\<^sup>* s t" "\<forall>u. \<not> pool_step c t u"
    using pool.run_ends by blast
  have inv: "pool_inv c reqs t"
    by (rule pool.inv_reachable [OF refl rtranclp_trans [OF relpowp_imp_rtranclp [OF assms(4)] t(1)]])
  then have "drained t" using assms t(2) by (intro stuck_drained) auto
  moreover from this inv assms(1) have "capped c \<longrightarrow> queueSlotsLeft t = queueSlotsLeft (start c reqs)"
    by (simp add: pool_inv_def slot_defs drained_def start_def cap_def)
  ultimately show "\<exists>t. (pool_step c)\<^sup>*\<^sup>* s t \<and> drained t \<and>
      (capped c \<longrightarrow> queueSlotsLeft t = queueSlotsLeft (start c reqs))"
    using t(1) by blast
qed

lemma drained_reachable_witness:
  "\<exists>k \<le> 38. (pool_step demo_config ^^ k) (start demo_config [JNull]) demo_deciding \<and>
    (\<exists>t. (pool_step demo_config)\<^sup>*\<^sup>* demo_deciding t \<and> drained t \<and> queueSlotsLeft t = 2)"
proof -
  obtain k where k: "(pool_step demo_config ^^ k) (start demo_config [JNull]) demo_deciding"
    using reaches_deciding rtranclp_imp_relpowp by metis
  from drained_reachable [OF demo_valid(1,3,4) this] k demo_valid(2) show ?thesis
    by (intro exI [of _ k]) (auto simp: start_def demo_config_def)
qed

end
