(* ===== verification/Json_Heap.thy ===== *)
theory Json_Heap
  imports Json_Dom
begin

text \<open>
  The heap of JSON nodes of \<open>src/json-dom.c\<close>: nodes are allocated, shared by pointers,
  changed in place and freed. A pointer is a number, given out in increasing order; an
  allocation may fail. \<open>repr cells t r F\<close> says that the node at \<open>r\<close> represents the
  document \<open>t\<close> and that the tree below \<open>r\<close> occupies exactly the nodes \<open>F\<close>, each of
  them once.
\<close>

section \<open>Nodes in memory\<close>

type_synonym node_ref = nat

datatype cell =
    CNull
  | CBoolean c_int
  | CLong c_long
  | CDouble c_double
  | CString string
  | CMap "(string \<times> node_ref) list"
  | CArray "node_ref list"

record dom_heap =
  cells :: "node_ref \<Rightarrow> cell option"
  brk :: node_ref
  malloc_ok :: "node_ref \<Rightarrow> bool"

definition empty_heap :: dom_heap where
  "empty_heap = \<lparr>cells = (\<lambda>_. None), brk = 0, malloc_ok = (\<lambda>_. True)\<rparr>"

fun children :: "cell \<Rightarrow> node_ref list" where
  "children (CMap m) = map snd m"
| "children (CArray a) = a"
| "children _ = []"

definition set_cell :: "node_ref \<Rightarrow> cell \<Rightarrow> dom_heap \<Rightarrow> dom_heap" where
  "set_cell r c h = h\<lparr>cells := (cells h)(r \<mapsto> c)\<rparr>"

definition JsonNode_new :: "cell \<Rightarrow> dom_heap \<Rightarrow> node_ref option \<times> dom_heap" where
  "JsonNode_new c h =
     (if malloc_ok h (brk h)
      then (Some (brk h), h\<lparr>cells := (cells h)(brk h \<mapsto> c), brk := Suc (brk h)\<rparr>)
      else (None, h\<lparr>brk := Suc (brk h)\<rparr>))"

text \<open>
  \<open>JsonNode_free\<close> frees the children of a container and then the node. A pointer to a
  node that is not allocated is undefined behaviour (a double free or a dangling
  pointer). The recursion depth is bounded by the first argument.
\<close>

primrec free_list :: "(node_ref \<Rightarrow> dom_heap \<Rightarrow> dom_heap outcome) \<Rightarrow> node_ref list \<Rightarrow> dom_heap
    \<Rightarrow> dom_heap outcome" where
  "free_list f [] h = Ret h"
| "free_list f (r # rs) h = bind_outcome (f r h) (free_list f rs)"

primrec JsonNode_free :: "nat \<Rightarrow> node_ref \<Rightarrow> dom_heap \<Rightarrow> dom_heap outcome" where
  "JsonNode_free 0 r h = Diverge"
| "JsonNode_free (Suc n) r h =
     (case cells h r of
        None \<Rightarrow> Undef
      | Some c \<Rightarrow> bind_outcome (free_list (JsonNode_free n) (children c) h)
                    (\<lambda>h'. Ret (h'\<lparr>cells := (cells h')(r := None)\<rparr>)))"

definition free_node :: "node_ref \<Rightarrow> dom_heap \<Rightarrow> dom_heap outcome" where
  "free_node r h = JsonNode_free (Suc (brk h)) r h"

definition heap_array_append :: "node_ref \<Rightarrow> node_ref \<Rightarrow> dom_heap \<Rightarrow> dom_heap outcome" where
  "heap_array_append parent node h =
     (case cells h parent of
        Some (CArray a) \<Rightarrow> Ret (set_cell parent (CArray (a @ [node])) h)
      | _ \<Rightarrow> Undef)"

text \<open>
  \<open>g_hash_table_insert\<close> on a key that is present replaces the value and then destroys
  the old one, here with \<open>JsonNode_free_cb\<close>.
\<close>

definition heap_map_insert :: "node_ref \<Rightarrow> string \<Rightarrow> node_ref \<Rightarrow> dom_heap \<Rightarrow> dom_heap outcome" where
  "heap_map_insert parent key node h =
     (case cells h parent of
        Some (CMap m) \<Rightarrow>
          (let h' = set_cell parent (CMap (AList.update (c_str key) node m)) h in
           case map_of m (c_str key) of
             None \<Rightarrow> Ret h'
           | Some old \<Rightarrow> free_node old h')
      | Some _ \<Rightarrow> Ret h
      | None \<Rightarrow> Undef)"

section \<open>The document a node represents\<close>

inductive repr :: "(node_ref \<Rightarrow> cell option) \<Rightarrow> json \<Rightarrow> node_ref \<Rightarrow> node_ref set \<Rightarrow> bool"
  and reprs :: "(node_ref \<Rightarrow> cell option) \<Rightarrow> json list \<Rightarrow> node_ref list \<Rightarrow> node_ref set \<Rightarrow> bool"
  for h where
  repr_null: "h r = Some CNull \<Longrightarrow> repr h JNull r {r}"
| repr_boolean: "h r = Some (CBoolean b) \<Longrightarrow> repr h (JBoolean b) r {r}"
| repr_long: "h r = Some (CLong l) \<Longrightarrow> repr h (JLong l) r {r}"
| repr_double: "h r = Some (CDouble d) \<Longrightarrow> repr h (JDouble d) r {r}"
| repr_string: "h r = Some (CString s) \<Longrightarrow> repr h (JString s) r {r}"
| repr_map: "h r = Some (CMap m) \<Longrightarrow> map fst m = map fst kvs \<Longrightarrow>
    reprs h (map snd kvs) (map snd m) F \<Longrightarrow> r \<notin> F \<Longrightarrow> repr h (JMap kvs) r (insert r F)"
| repr_array: "h r = Some (CArray rs) \<Longrightarrow> reprs h ts rs F \<Longrightarrow> r \<notin> F \<Longrightarrow>
    repr h (JArray ts) r (insert r F)"
| reprs_nil: "reprs h [] [] {}"
| reprs_cons: "repr h t r F \<Longrightarrow> reprs h ts rs G \<Longrightarrow> F \<inter> G = {} \<Longrightarrow>
    reprs h (t # ts) (r # rs) (F \<union> G)"

inductive_cases reprs_nilE: "reprs h [] rs F"
inductive_cases reprs_consE: "reprs h (t # ts) rs F"
inductive_cases reprs_cons2E: "reprs h ts (r # rs) F"
inductive_simps reprs_nil_iff [simp]: "reprs h [] rs F" "reprs h ts [] F"
inductive_simps reprs_cons_iff: "reprs h (t # ts) (r # rs) F"

lemma repr_frame:
  "repr h t r F \<Longrightarrow> (\<forall>x\<in>F. h' x = h x) \<longrightarrow> repr h' t r F"
  "reprs h ts rs F \<Longrightarrow> (\<forall>x\<in>F. h' x = h x) \<longrightarrow> reprs h' ts rs F"
  by (induction rule: repr_reprs.inducts) (auto intro: repr_reprs.intros)

lemma repr_frameI: "repr h t r F \<Longrightarrow> (\<And>x. x \<in> F \<Longrightarrow> h' x = h x) \<Longrightarrow> repr h' t r F"
  using repr_frame(1) by blast

lemma reprs_frameI: "reprs h ts rs F \<Longrightarrow> (\<And>x. x \<in> F \<Longrightarrow> h' x = h x) \<Longrightarrow> reprs h' ts rs F"
  using repr_frame(2) by blast

lemma repr_footprint:
  "repr h t r F \<Longrightarrow> finite F \<and> r \<in> F \<and> F \<subseteq> dom h"
  "reprs h ts rs F \<Longrightarrow> finite F \<and> set rs \<subseteq> F \<and> F \<subseteq> dom h"
  by (induction rule: repr_reprs.inducts) auto

lemma reprs_append:
  assumes "reprs h ts rs F" and "repr h t r G" and "F \<inter> G = {}"
  shows "reprs h (ts @ [t]) (rs @ [r]) (F \<union> G)"
  using assms
proof (induction ts arbitrary: rs F)
  case Nil
  then show ?case using reprs_cons [OF _ reprs_nil] by fastforce
next
  case (Cons u us)
  from Cons.prems(1) obtain q qs A B where
    *: "rs = q # qs" "F = A \<union> B" "repr h u q A" "reprs h us qs B" "A \<inter> B = {}"
    by (auto elim: reprs_consE)
  with Cons have "reprs h (us @ [t]) (qs @ [r]) (B \<union> G)" by blast
  with * Cons.prems have "reprs h (u # us @ [t]) (q # qs @ [r]) (A \<union> (B \<union> G))"
    by (intro reprs_cons) auto
  with * show ?case by (simp add: Un_assoc)
qed

section \<open>Freeing a tree\<close>

fun jdepth :: "json \<Rightarrow> nat" where
  "jdepth (JMap m) = Suc (foldr max (map (\<lambda>(k, v). jdepth v) m) 0)"
| "jdepth (JArray a) = Suc (foldr max (map jdepth a) 0)"
| "jdepth _ = 1"

abbreviation jdepths :: "json list \<Rightarrow> nat" where
  "jdepths ts \<equiv> foldr max (map jdepth ts) 0"

lemma jdepth_JMap: "jdepth (JMap m) = Suc (jdepths (map snd m))"
  by (induction m) auto

declare jdepth.simps(1) [simp del]

lemma jdepth_card:
  "repr h t r F \<Longrightarrow> jdepth t \<le> card F"
  "reprs h ts rs F \<Longrightarrow> jdepths ts \<le> card F"
proof (induction rule: repr_reprs.inducts)
  case (repr_map r m kvs F)
  then show ?case by (simp add: jdepth_JMap card_insert_if repr_footprint(2))
next
  case (repr_array r rs ts F)
  then show ?case by (simp add: card_insert_if repr_footprint(2))
next
  case (reprs_cons t r F ts rs G)
  then have "finite F" "finite G" by (auto dest: repr_footprint)
  with reprs_cons show ?case by (simp add: card_Un_disjoint)
qed auto

definition without :: "node_ref set \<Rightarrow> dom_heap \<Rightarrow> dom_heap" where
  "without F h = h\<lparr>cells := (cells h) |` (- F)\<rparr>"

lemma without_simps [simp]:
  "without {} (h :: dom_heap) = h" "brk (without F h) = brk h" "malloc_ok (without F h) = malloc_ok h"
  by (simp_all add: without_def restrict_map_def)

lemma cells_without: "cells (without F h) x = (if x \<in> F then None else cells h x)"
  by (simp add: without_def restrict_map_def)

lemma without_without [simp]: "without F (without G h) = without (G \<union> F) h"
  by (simp add: without_def Int_commute)

lemma free_repr:
  "repr H t r F \<Longrightarrow> \<forall>n (h :: dom_heap). (\<forall>x\<in>F. cells h x = H x) \<longrightarrow> jdepth t \<le> n \<longrightarrow>
     JsonNode_free n r h = Ret (without F h)"
  "reprs H ts rs F \<Longrightarrow> \<forall>n (h :: dom_heap). (\<forall>x\<in>F. cells h x = H x) \<longrightarrow> jdepths ts \<le> n \<longrightarrow>
     free_list (JsonNode_free n) rs h = Ret (without F h)"
proof (induction rule: repr_reprs.inducts)
  case (repr_map r m kvs F)
  show ?case
  proof (intro allI impI)
    fix n and h :: dom_heap
    assume eq: "\<forall>x\<in>insert r F. cells h x = H x" and d: "jdepth (JMap kvs) \<le> n"
    then obtain k where n: "n = Suc k" and k: "jdepths (map snd kvs) \<le> k"
      by (cases n) (auto simp: jdepth_JMap)
    from repr_map.IH eq k have "free_list (JsonNode_free k) (map snd m) h = Ret (without F h)"
      by auto
    with repr_map eq n show "JsonNode_free n r h = Ret (without (insert r F) h)"
      by (auto simp: without_def fun_eq_iff restrict_map_def)
  qed
next
  case (repr_array r rs ts F)
  show ?case
  proof (intro allI impI)
    fix n and h :: dom_heap
    assume eq: "\<forall>x\<in>insert r F. cells h x = H x" and d: "jdepth (JArray ts) \<le> n"
    then obtain k where n: "n = Suc k" and k: "jdepths ts \<le> k"
      by (cases n) auto
    from repr_array.IH eq k have "free_list (JsonNode_free k) rs h = Ret (without F h)"
      by auto
    with repr_array eq n show "JsonNode_free n r h = Ret (without (insert r F) h)"
      by (auto simp: without_def fun_eq_iff restrict_map_def)
  qed
next
  case (reprs_cons t r F ts rs G)
  show ?case
  proof (intro allI impI)
    fix n and h :: dom_heap
    assume eq: "\<forall>x\<in>F \<union> G. cells h x = H x" and d: "jdepths (t # ts) \<le> n"
    from reprs_cons.IH(2) eq d have 1: "JsonNode_free n r h = Ret (without F h)" by auto
    have "\<forall>x\<in>G. cells (without F h) x = H x"
      using eq reprs_cons.hyps by (auto simp: cells_without)
    with reprs_cons.IH(4) d
    have "free_list (JsonNode_free n) rs (without F h) = Ret (without G (without F h))" by auto
    with 1 show "free_list (JsonNode_free n) (r # rs) h = Ret (without (F \<union> G) h)" by simp
  qed
qed (auto simp: without_def fun_eq_iff restrict_map_def Suc_le_ex)

text \<open>Nothing is allocated at or above the break: the next pointers are fresh.\<close>

definition heap_ok :: "dom_heap \<Rightarrow> bool" where
  "heap_ok h \<longleftrightarrow> (\<forall>r. brk h \<le> r \<longrightarrow> cells h r = None)"

lemma heap_ok_repr: "heap_ok h \<Longrightarrow> repr (cells h) t r F \<Longrightarrow> F \<subseteq> {..<brk h}"
  using repr_footprint(1) [of "cells h" t r F] by (fastforce simp: heap_ok_def not_le [symmetric])

lemma free_node_repr:
  assumes ok: "heap_ok h" and rep: "repr (cells h) t r F"
  shows "free_node r h = Ret (without F h)"
proof -
  have "card F \<le> card {..<brk h}"
    by (rule card_mono) (simp_all add: heap_ok_repr [OF ok rep])
  with jdepth_card(1) [OF rep] have "jdepth t \<le> Suc (brk h)" by simp
  with free_repr(1) [OF rep] show ?thesis unfolding free_node_def by blast
qed

section \<open>Reading a tree back\<close>

text \<open>
  The document below a node, by following the pointers to the given depth; \<open>None\<close>
  for a dangling pointer or a structure that is deeper.
\<close>

primrec those_list :: "'a option list \<Rightarrow> 'a list option" where
  "those_list [] = Some []"
| "those_list (x # xs) =
     (case x of None \<Rightarrow> None | Some v \<Rightarrow> map_option ((#) v) (those_list xs))"

primrec tree_of :: "nat \<Rightarrow> (node_ref \<Rightarrow> cell option) \<Rightarrow> node_ref \<Rightarrow> json option" where
  "tree_of 0 h r = None"
| "tree_of (Suc n) h r =
     (case h r of
        None \<Rightarrow> None
      | Some CNull \<Rightarrow> Some JNull
      | Some (CBoolean b) \<Rightarrow> Some (JBoolean b)
      | Some (CLong l) \<Rightarrow> Some (JLong l)
      | Some (CDouble d) \<Rightarrow> Some (JDouble d)
      | Some (CString s) \<Rightarrow> Some (JString s)
      | Some (CMap m) \<Rightarrow>
          map_option (\<lambda>vs. JMap (zip (map fst m) vs)) (those_list (map (tree_of n h) (map snd m)))
      | Some (CArray a) \<Rightarrow> map_option JArray (those_list (map (tree_of n h) a)))"

lemma tree_of_repr:
  "repr h t r F \<Longrightarrow> \<forall>n. jdepth t \<le> n \<longrightarrow> tree_of n h r = Some t"
  "reprs h ts rs F \<Longrightarrow> \<forall>n. jdepths ts \<le> n \<longrightarrow> those_list (map (tree_of n h) rs) = Some ts"
proof (induction rule: repr_reprs.inducts)
  case (repr_map r m kvs F)
  show ?case
  proof (intro allI impI)
    fix n
    assume "jdepth (JMap kvs) \<le> n"
    then obtain k where "n = Suc k" "jdepths (map snd kvs) \<le> k"
      by (cases n) (auto simp: jdepth_JMap)
    with repr_map show "tree_of n h r = Some (JMap kvs)"
      by (simp add: zip_map_fst_snd)
  qed
next
  case (repr_array r rs ts F)
  then show ?case by (auto simp: Suc_le_ex)
qed (auto simp: Suc_le_ex)

end
