(* ===== verification/Json_Parser.thy ===== *)
theory Json_Parser
  imports Json_Heap Utils
begin

text \<open>
  \<open>src/json-dom-parser.c\<close>: the DOM builder. The yajl library tokenises the text and
  calls one callback per event; the callbacks build the tree in the node heap with a
  stack of open containers. The library is a parameter: for a buffer it gives the
  events and the status of \<open>yajl_parse\<close> and of \<open>yajl_complete_parse\<close>.
\<close>

section \<open>The library interface\<close>

datatype event =
    YNull
  | YBoolean c_int
  | YInteger c_long
  | YDouble c_double
  | YString string
  | YStartMap
  | YMapKey string
  | YEndMap
  | YStartArray
  | YEndArray

record yajl =
  yajl_alloc_ok :: bool
  yajl_parse :: "string \<Rightarrow> event list \<times> bool"
  yajl_complete_parse :: "string \<Rightarrow> event list \<times> bool"

section \<open>The builder\<close>

record builder =
  heap :: dom_heap
  tmpMapKay :: string
  containerStack :: "node_ref list"

definition jdBuilder_init :: "dom_heap \<Rightarrow> builder" where
  "jdBuilder_init h = \<lparr>heap = h, tmpMapKay = [], containerStack = []\<rparr>"

definition jdBuilder_popContainerStack :: "builder \<Rightarrow> builder" where
  "jdBuilder_popContainerStack ctx = ctx\<lparr>containerStack := tl (containerStack ctx)\<rparr>"

definition push_head :: "node_ref \<Rightarrow> builder \<Rightarrow> builder" where
  "push_head r ctx = ctx\<lparr>containerStack := r # containerStack ctx\<rparr>"

definition jdBuilder_addValue :: "builder \<Rightarrow> node_ref \<Rightarrow> (int \<times> builder) outcome" where
  "jdBuilder_addValue ctx node =
     (case containerStack ctx of
        [] \<Rightarrow> Ret (0, push_head node ctx)
      | head # _ \<Rightarrow>
          (case cells (heap ctx) head of
             Some (CArray _) \<Rightarrow>
               bind_outcome (heap_array_append head node (heap ctx))
                 (\<lambda>h. Ret (0, ctx\<lparr>heap := h\<rparr>))
           | Some (CMap _) \<Rightarrow>
               bind_outcome (heap_map_insert head (c_str (tmpMapKay ctx)) node (heap ctx))
                 (\<lambda>h. Ret (0, ctx\<lparr>heap := h\<rparr>))
           | Some _ \<Rightarrow> Ret (- 1, ctx)
           | None \<Rightarrow> Undef))"

definition cb_build_safeAdd :: "builder \<Rightarrow> node_ref option \<Rightarrow> (int \<times> builder) outcome" where
  "cb_build_safeAdd ctx node =
     (case node of
        None \<Rightarrow> Ret (0, ctx)
      | Some r \<Rightarrow>
          bind_outcome (jdBuilder_addValue ctx r)
            (\<lambda>(rv, ctx'). if rv < 0
               then bind_outcome (free_node r (heap ctx')) (\<lambda>h. Ret (0, ctx'\<lparr>heap := h\<rparr>))
               else Ret (1, ctx')))"

definition add_new :: "cell \<Rightarrow> builder \<Rightarrow> (int \<times> builder) outcome" where
  "add_new c ctx =
     (let (node, h) = JsonNode_new c (heap ctx) in cb_build_safeAdd (ctx\<lparr>heap := h\<rparr>) node)"

definition cb_build_null :: "builder \<Rightarrow> (int \<times> builder) outcome" where
  "cb_build_null ctx = add_new CNull ctx"

definition cb_build_boolean :: "builder \<Rightarrow> c_int \<Rightarrow> (int \<times> builder) outcome" where
  "cb_build_boolean ctx boolean = add_new (CBoolean boolean) ctx"

definition cb_build_long :: "builder \<Rightarrow> c_long \<Rightarrow> (int \<times> builder) outcome" where
  "cb_build_long ctx l = add_new (CLong l) ctx"

definition cb_build_double :: "builder \<Rightarrow> c_double \<Rightarrow> (int \<times> builder) outcome" where
  "cb_build_double ctx d = add_new (CDouble d) ctx"

text \<open>
  The bytes that \<open>JsonNode_newFromStringLen\<close> copies; the library's length is cast to
  \<open>int\<close>. The callback reads the string of the new node before it checks that there is
  one.
\<close>

fun string_bytes :: "json \<Rightarrow> string" where
  "string_bytes (JString s) = s"
| "string_bytes _ = []"

definition cb_build_string :: "builder \<Rightarrow> string \<Rightarrow> (int \<times> builder) outcome" where
  "cb_build_string ctx val =
     (let s = string_bytes (JsonNode_newFromStringLen val (word_of_nat (length val)));
          (node, h) = JsonNode_new (CString s) (heap ctx)
      in case node of
           None \<Rightarrow> Undef
         | Some _ \<Rightarrow> cb_build_safeAdd (ctx\<lparr>heap := h\<rparr>) node)"

definition g_string_overwrite_len :: "string \<Rightarrow> nat \<Rightarrow> string \<Rightarrow> c_int \<Rightarrow> string" where
  "g_string_overwrite_len s pos val len =
     (let v = (if sint len < 0 then c_str val else take (nat (sint len)) val)
      in take pos s @ v @ drop (pos + length v) s)"

definition g_string_truncate :: "string \<Rightarrow> nat \<Rightarrow> string" where
  "g_string_truncate s len = take len s"

definition cb_build_map_key :: "builder \<Rightarrow> string \<Rightarrow> (int \<times> builder) outcome" where
  "cb_build_map_key ctx val =
     (let s1 = g_string_overwrite_len (tmpMapKay ctx) 0 val (word_of_nat (length val));
          s2 = g_string_truncate s1 (length val)
      in Ret (1, ctx\<lparr>tmpMapKay := s2\<rparr>))"

text \<open>
  A container is added to the one that is open, or becomes the root; then it is pushed
  and becomes the open one. The root is thus on the stack twice while it is open, and
  once when it is closed.
\<close>

definition cb_build_safeContainerAdd :: "builder \<Rightarrow> node_ref option \<Rightarrow> (int \<times> builder) outcome" where
  "cb_build_safeContainerAdd ctx container =
     bind_outcome (cb_build_safeAdd ctx container)
       (\<lambda>(rv, ctx'). if rv = 0 then Ret (0, ctx')
          else case container of
            None \<Rightarrow> Undef
          | Some r \<Rightarrow> Ret (1, push_head r ctx'))"

definition open_new :: "cell \<Rightarrow> builder \<Rightarrow> (int \<times> builder) outcome" where
  "open_new c ctx =
     (let (node, h) = JsonNode_new c (heap ctx)
      in cb_build_safeContainerAdd (ctx\<lparr>heap := h\<rparr>) node)"

definition cb_build_start_map :: "builder \<Rightarrow> (int \<times> builder) outcome" where
  "cb_build_start_map ctx = open_new (CMap []) ctx"

definition cb_build_start_array :: "builder \<Rightarrow> (int \<times> builder) outcome" where
  "cb_build_start_array ctx = open_new (CArray []) ctx"

definition cb_build_end_container :: "builder \<Rightarrow> (int \<times> builder) outcome" where
  "cb_build_end_container ctx = Ret (1, jdBuilder_popContainerStack ctx)"

fun build_callbacks :: "event \<Rightarrow> builder \<Rightarrow> (int \<times> builder) outcome" where
  "build_callbacks YNull ctx = cb_build_null ctx"
| "build_callbacks (YBoolean b) ctx = cb_build_boolean ctx b"
| "build_callbacks (YInteger l) ctx = cb_build_long ctx l"
| "build_callbacks (YDouble d) ctx = cb_build_double ctx d"
| "build_callbacks (YString s) ctx = cb_build_string ctx s"
| "build_callbacks YStartMap ctx = cb_build_start_map ctx"
| "build_callbacks (YMapKey k) ctx = cb_build_map_key ctx k"
| "build_callbacks YEndMap ctx = cb_build_end_container ctx"
| "build_callbacks YStartArray ctx = cb_build_start_array ctx"
| "build_callbacks YEndArray ctx = cb_build_end_container ctx"

text \<open>The library stops at the first callback that returns 0 (client cancelled).\<close>

fun feed :: "event list \<Rightarrow> builder \<Rightarrow> (bool \<times> builder) outcome" where
  "feed [] ctx = Ret (True, ctx)"
| "feed (e # es) ctx =
     bind_outcome (build_callbacks e ctx)
       (\<lambda>(rv, ctx'). if rv = 0 then Ret (False, ctx') else feed es ctx')"

definition peek_tail :: "builder \<Rightarrow> node_ref option" where
  "peek_tail ctx =
     (if containerStack ctx = [] then None else Some (last (containerStack ctx)))"

text \<open>
  The exit of \<open>jdParser_buildDom\<close> under its label \<open>clean\<close>: without a result, the root
  built so far is freed.
\<close>

definition buildDom_clean :: "builder \<Rightarrow> node_ref option \<Rightarrow> gerror option
    \<Rightarrow> (node_ref option \<times> gerror option \<times> dom_heap) outcome" where
  "buildDom_clean ctx result err =
     (case result of
        Some r \<Rightarrow> Ret (Some r, err, heap ctx)
      | None \<Rightarrow>
          (case peek_tail ctx of
             None \<Rightarrow> Ret (None, err, heap ctx)
           | Some root \<Rightarrow> bind_outcome (free_node root (heap ctx)) (\<lambda>h. Ret (None, err, h))))"

definition parse_error :: "strerror_env \<Rightarrow> gerror" where
  "parse_error E =
     mk_error Quark0 EINVAL (''Could not parse json string: '' @ iop_msg E EINVAL)"

definition jdParser_buildDom :: "strerror_env \<Rightarrow> yajl \<Rightarrow> string \<Rightarrow> c_long \<Rightarrow> dom_heap
    \<Rightarrow> (node_ref option \<times> gerror option \<times> dom_heap) outcome" where
  "jdParser_buildDom E Y buffer bufflen h =
     (let ctx = jdBuilder_init h; text = take (unat (ucast bufflen :: c_int)) buffer in
      if \<not> yajl_alloc_ok Y then
        buildDom_clean ctx None
          (Some (mk_error Quark0 ENOMEM (''Could not allocate json parser: '' @ iop_msg E ENOMEM)))
      else
        bind_outcome (feed (fst (yajl_parse Y text)) ctx) (\<lambda>(ok, ctx).
          if \<not> (ok \<and> snd (yajl_parse Y text)) then buildDom_clean ctx None (Some (parse_error E))
          else
            bind_outcome (feed (fst (yajl_complete_parse Y text)) ctx) (\<lambda>(ok, ctx).
              if \<not> (ok \<and> snd (yajl_complete_parse Y text))
              then buildDom_clean ctx None (Some (parse_error E))
              else buildDom_clean ctx (peek_tail ctx) None)))"

section \<open>The documents behind the events\<close>

text \<open>
  \<open>events t\<close> are the events of a text whose syntax tree is \<open>t\<close>; there a map may have
  duplicate keys and keys with NUL bytes. \<open>canon t\<close> is the document such a text
  denotes: keys are cut at the first NUL, and of equal keys the last value wins, at the
  place of the first.
\<close>

fun events :: "json \<Rightarrow> event list" where
  "events JNull = [YNull]"
| "events (JBoolean b) = [YBoolean b]"
| "events (JLong l) = [YInteger l]"
| "events (JDouble d) = [YDouble d]"
| "events (JString s) = [YString s]"
| "events (JMap m) = YStartMap # concat (map (\<lambda>(k, v). YMapKey k # events v) m) @ [YEndMap]"
| "events (JArray a) = YStartArray # concat (map events a) @ [YEndArray]"

definition map_ins :: "(string \<times> 'v) list \<Rightarrow> (string \<times> 'v) list \<Rightarrow> (string \<times> 'v) list" where
  "map_ins kvs m = fold (\<lambda>(k, v). AList.update (c_str k) v) kvs m"

fun canon :: "json \<Rightarrow> json" where
  "canon (JMap m) = JMap (map_ins (map (\<lambda>(k, v). (k, canon v)) m) [])"
| "canon (JArray a) = JArray (map canon a)"
| "canon t = t"

text \<open>Every string and key is shorter than the \<open>int\<close> its length is cast to can hold.\<close>

fun small_strings :: "json \<Rightarrow> bool" where
  "small_strings (JString s) \<longleftrightarrow> length s < 2 ^ 31"
| "small_strings (JMap m) \<longleftrightarrow> list_all (\<lambda>(k, v). length k < 2 ^ 31 \<and> small_strings v) m"
| "small_strings (JArray a) \<longleftrightarrow> list_all small_strings a"
| "small_strings _ \<longleftrightarrow> True"

end
