(* ===== verification/Json_Build.thy ===== *)
theory Json_Build
  imports Json_Parser
begin

text \<open>
  Correctness of the DOM builder: for the events of any syntax tree the callbacks build
  exactly the document it denotes, in nodes of their own, and every value that a
  duplicate key replaces is freed.
\<close>

section \<open>Lengths cast to \<open>int\<close>\<close>

lemma sint_small: "n < 2 ^ 31 \<Longrightarrow> sint (word_of_nat n :: c_int) = int n"
  by (simp add: signed_of_nat signed_take_bit_int_eq_self)

lemma string_bytes_small:
  "length s < 2 ^ 31 \<Longrightarrow> string_bytes (JsonNode_newFromStringLen s (word_of_nat (length s))) = s"
  by (simp add: JsonNode_newFromStringLen_def sint_small)

lemma cb_build_map_key_small:
  "length k < 2 ^ 31 \<Longrightarrow> cb_build_map_key ctx k = Ret (1, ctx\<lparr>tmpMapKay := k\<rparr>)"
  by (simp add: cb_build_map_key_def g_string_overwrite_len_def g_string_truncate_def sint_small
      Let_def)

lemma feed_append:
  "feed xs ctx = Ret (True, ctx') \<Longrightarrow> feed (xs @ ys) ctx = feed ys ctx'"
  by (induction xs ctx rule: feed.induct) (auto simp: bind_outcome_eq_Ret split: if_splits)

section \<open>Adding one value to the open container\<close>

fun is_container :: "cell \<Rightarrow> bool" where
  "is_container (CMap m) = True"
| "is_container (CArray a) = True"
| "is_container _ = False"

fun attach :: "string \<Rightarrow> node_ref \<Rightarrow> cell \<Rightarrow> cell" where
  "attach key r (CMap m) = CMap (AList.update (c_str key) r m)"
| "attach key r (CArray a) = CArray (a @ [r])"
| "attach key r c = c"

fun old_of :: "string \<Rightarrow> cell \<Rightarrow> node_ref option" where
  "old_of key (CMap m) = map_of m (c_str key)"
| "old_of key _ = None"

definition old_foot :: "(node_ref \<Rightarrow> cell option) \<Rightarrow> node_ref option \<Rightarrow> node_ref set \<Rightarrow> bool" where
  "old_foot h old Fo = (case old of None \<Rightarrow> Fo = {} | Some r \<Rightarrow> \<exists>t. repr h t r Fo)"

lemma old_foot_below:
  "heap_ok h \<Longrightarrow> old_foot (cells h) old Fo \<Longrightarrow> Fo \<subseteq> {..<brk h}"
  by (auto simp: old_foot_def split: option.splits dest: heap_ok_repr)

text \<open>The heap after a new node was attached to the container at \<open>p\<close>.\<close>

definition linked :: "node_ref \<Rightarrow> string \<Rightarrow> cell \<Rightarrow> cell \<Rightarrow> node_ref set \<Rightarrow> dom_heap \<Rightarrow> dom_heap" where
  "linked p key c new Fo h =
     without Fo (h\<lparr>cells := (cells h)(brk h \<mapsto> new, p \<mapsto> attach key (brk h) c),
                   brk := Suc (brk h)\<rparr>)"

text \<open>
  The container at \<open>p\<close> is open, and \<open>Fo\<close> are the nodes of the value that the next
  insertion into it replaces (none, unless the pending key is a duplicate).
\<close>

definition open_at :: "builder \<Rightarrow> node_ref \<Rightarrow> node_ref list \<Rightarrow> cell \<Rightarrow> node_ref set \<Rightarrow> bool" where
  "open_at ctx p rest c Fo \<longleftrightarrow>
     containerStack ctx = p # rest \<and> cells (heap ctx) p = Some c \<and> is_container c \<and>
     heap_ok (heap ctx) \<and>
     old_foot (cells (heap ctx)) (old_of (tmpMapKay ctx) c) Fo \<and> p \<notin> Fo"

definition open_container :: "builder \<Rightarrow> node_ref \<Rightarrow> node_ref list \<Rightarrow> cell \<Rightarrow> node_ref set \<Rightarrow> bool" where
  "open_container ctx p rest c Fo \<longleftrightarrow> open_at ctx p rest c Fo \<and> (\<forall>n. malloc_ok (heap ctx) n)"

lemmas open_container_defs = open_container_def open_at_def

lemma open_container_at: "open_container ctx p rest c Fo \<Longrightarrow> open_at ctx p rest c Fo"
  by (simp add: open_container_def)

lemma open_atD:
  assumes "open_at ctx p rest c Fo"
  shows "containerStack ctx = p # rest" "cells (heap ctx) p = Some c" "is_container c"
    "heap_ok (heap ctx)"
    "old_foot (cells (heap ctx)) (old_of (tmpMapKay ctx) c) Fo" "p \<notin> Fo"
    "p < brk (heap ctx)" "Fo \<subseteq> {..<brk (heap ctx)}"
  using assms old_foot_below [of "heap ctx" "old_of (tmpMapKay ctx) c" Fo]
  by (auto simp: open_at_def heap_ok_def not_le [symmetric])

lemma open_containerD:
  assumes "open_container ctx p rest c Fo"
  shows "containerStack ctx = p # rest" "cells (heap ctx) p = Some c" "is_container c"
    "heap_ok (heap ctx)" "malloc_ok (heap ctx) n"
    "old_foot (cells (heap ctx)) (old_of (tmpMapKay ctx) c) Fo" "p \<notin> Fo"
    "p < brk (heap ctx)" "Fo \<subseteq> {..<brk (heap ctx)}"
  using assms open_atD [of ctx p rest c Fo] by (auto simp: open_container_def)

lemma addValue:
  fixes new :: cell
  assumes oc: "open_at ctx p rest c Fo"
  defines "h1 \<equiv> (heap ctx)\<lparr>cells := (cells (heap ctx))(brk (heap ctx) \<mapsto> new),
                            brk := Suc (brk (heap ctx))\<rparr>"
  shows "jdBuilder_addValue (ctx\<lparr>heap := h1\<rparr>) (brk (heap ctx)) =
    Ret (0, ctx\<lparr>heap := linked p (tmpMapKay ctx) c new Fo (heap ctx)\<rparr>)"
proof -
  note stack = open_atD(1) [OF oc] and cell = open_atD(2) [OF oc]
    and ok = open_atD(4) [OF oc] and old = open_atD(5) [OF oc]
    and p_Fo = open_atD(6) [OF oc] and p_below = open_atD(7) [OF oc]
    and Fo_below = open_atD(8) [OF oc]
  show ?thesis
  proof (cases c)
    case (CArray a)
    then have "Fo = {}" using old by (simp add: old_foot_def)
    with CArray stack cell p_below show ?thesis
      by (simp add: h1_def jdBuilder_addValue_def heap_array_append_def linked_def set_cell_def)
  next
    case (CMap m)
    let ?k = "c_str (tmpMapKay ctx)"
    let ?h2 = "set_cell p (CMap (AList.update ?k (brk (heap ctx)) m)) h1"
    have h2: "linked p (tmpMapKay ctx) c new Fo (heap ctx) = without Fo ?h2"
      by (cases "heap ctx") (simp add: linked_def CMap h1_def set_cell_def)
    have at_p: "cells h1 p = Some (CMap m)"
      using cell CMap p_below by (simp add: h1_def)
    have ins: "heap_map_insert p ?k (brk (heap ctx)) h1 = Ret (without Fo ?h2)"
    proof (cases "map_of m ?k")
      case None
      then have "Fo = {}" using old CMap by (simp add: old_foot_def)
      with None at_p show ?thesis by (simp add: heap_map_insert_def Let_def)
    next
      case (Some r)
      then obtain t where rep: "repr (cells (heap ctx)) t r Fo"
        using old CMap by (auto simp: old_foot_def)
      have "repr (cells ?h2) t r Fo"
        by (rule repr_frameI [OF rep]) (use Fo_below p_Fo in \<open>auto simp: set_cell_def h1_def\<close>)
      moreover have "heap_ok ?h2"
        using ok p_below by (auto simp: heap_ok_def set_cell_def h1_def)
      ultimately show ?thesis
        using Some at_p by (simp add: heap_map_insert_def Let_def free_node_repr)
    qed
    with at_p stack show ?thesis
      by (simp add: jdBuilder_addValue_def h2 h1_def del: without_simps)
  qed (use open_atD(3) [OF oc] in auto)
qed

lemma safeAdd_new:
  assumes "open_container ctx p rest c Fo" and "JsonNode_new new (heap ctx) = (node, h)"
  shows "cb_build_safeAdd (ctx\<lparr>heap := h\<rparr>) node =
     Ret (1, ctx\<lparr>heap := linked p (tmpMapKay ctx) c new Fo (heap ctx)\<rparr>)"
  using assms(2) addValue [OF open_container_at [OF assms(1)], of new] open_containerD(5) [OF assms(1)]
  by (auto simp: cb_build_safeAdd_def JsonNode_new_def)

lemma new_Some:
  "\<forall>n. malloc_ok h n \<Longrightarrow> JsonNode_new new h =
     (Some (brk h), h\<lparr>cells := (cells h)(brk h \<mapsto> new), brk := Suc (brk h)\<rparr>)"
  by (simp add: JsonNode_new_def)

lemma linked_simps:
  assumes "open_at ctx p rest c Fo"
  defines "h \<equiv> heap ctx"
  shows "heap_ok (linked p key c new Fo h)"
    "brk (linked p key c new Fo h) = Suc (brk h)"
    "malloc_ok (linked p key c new Fo h) = malloc_ok h"
    "cells (linked p key c new Fo h) p = Some (attach key (brk h) c)"
    "cells (linked p key c new Fo h) (brk h) = Some new"
    "x \<noteq> p \<Longrightarrow> x \<noteq> brk h \<Longrightarrow> cells (linked p key c new Fo h) x =
       (if x \<in> Fo then None else cells h x)"
  using open_atD [OF assms(1), folded h_def]
  by (auto simp: linked_def cells_without heap_ok_def)

section \<open>Children of a map\<close>

lemma keys_update:
  "map fst al = map fst bl \<Longrightarrow> map fst (AList.update k v al) = map fst (AList.update k w bl)"
  by (simp add: update_keys)

lemma map_children_update:
  assumes "map fst kvs = map fst m" and "reprs h (map snd kvs) (map snd m) F"
  shows "\<exists>Fo Fr. old_foot h (map_of m k) Fo \<and> F = Fo \<union> Fr \<and> Fo \<inter> Fr = {} \<and>
    (\<forall>h' t r G. (\<forall>x\<in>Fr. h' x = h x) \<longrightarrow> repr h' t r G \<longrightarrow> G \<inter> Fr = {} \<longrightarrow>
      reprs h' (map snd (AList.update k t kvs)) (map snd (AList.update k r m)) (G \<union> Fr))"
  using assms
proof (induction m arbitrary: kvs F)
  case Nil
  have "reprs h' [t] [r] (G \<union> {})" if "repr h' t r G" for h' t r G
    using that by (intro reprs_cons) simp_all
  with Nil show ?case by (auto simp: old_foot_def)
next
  case (Cons e m)
  obtain k0 r0 where e: "e = (k0, r0)" by (cases e)
  with Cons.prems obtain t0 kvs' where kvs: "kvs = (k0, t0) # kvs'"
    by (cases kvs) auto
  with Cons.prems e obtain A B where AB: "repr h t0 r0 A" "reprs h (map snd kvs') (map snd m) B"
    "F = A \<union> B" "A \<inter> B = {}"
    by (auto simp: reprs_cons_iff)
  show ?case
  proof (cases "k0 = k")
    case True
    have "reprs h' (t # map snd kvs') (r # map snd m) (G \<union> B)"
      if "\<forall>x\<in>B. h' x = h x" "repr h' t r G" "G \<inter> B = {}" for h' t r G
      using that reprs_frameI [OF AB(2), of h'] by (auto intro: reprs_cons)
    with True AB e kvs show ?thesis
      by (intro exI [of _ A] exI [of _ B]) (auto simp: old_foot_def)
  next
    case False
    from Cons.IH [of kvs' B] Cons.prems AB e kvs obtain Fo Fr where
      *: "old_foot h (map_of m k) Fo" "B = Fo \<union> Fr" "Fo \<inter> Fr = {}"
      "\<And>h' t r G. \<forall>x\<in>Fr. h' x = h x \<Longrightarrow> repr h' t r G \<Longrightarrow> G \<inter> Fr = {} \<Longrightarrow>
        reprs h' (map snd (AList.update k t kvs')) (map snd (AList.update k r m)) (G \<union> Fr)"
      by auto
    have "reprs h' (t0 # map snd (AList.update k t kvs')) (r0 # map snd (AList.update k r m))
        (A \<union> (G \<union> Fr))"
      if "\<forall>x\<in>A \<union> Fr. h' x = h x" "repr h' t r G" "G \<inter> (A \<union> Fr) = {}" for h' t r G
      using that AB * by (intro reprs_cons *(4)) (auto intro: repr_frameI [OF AB(1)])
    moreover have "A \<union> (G \<union> Fr) = G \<union> (A \<union> Fr)" for G by auto
    ultimately show ?thesis
      using False AB * e kvs by (intro exI [of _ Fo] exI [of _ "A \<union> Fr"]) auto
  qed
qed

section \<open>Building one value\<close>

definition added :: "node_ref \<Rightarrow> string \<Rightarrow> cell \<Rightarrow> node_ref set \<Rightarrow> dom_heap \<Rightarrow> dom_heap \<Rightarrow> json
    \<Rightarrow> node_ref set \<Rightarrow> bool" where
  "added p key c Fo h h' t F \<longleftrightarrow>
     heap_ok h' \<and> brk h < brk h' \<and> malloc_ok h' = malloc_ok h \<and>
     cells h' p = Some (attach key (brk h) c) \<and> repr (cells h') t (brk h) F \<and>
     F \<subseteq> {brk h..<brk h'} \<and>
     (\<forall>x<brk h. x \<noteq> p \<longrightarrow> cells h' x = (if x \<in> Fo then None else cells h x)) \<and>
     (\<forall>x\<ge>brk h. x \<notin> F \<longrightarrow> cells h' x = None)"

lemma added_frame:
  "added p key c Fo h h' t F \<Longrightarrow> x < brk h \<Longrightarrow> x \<noteq> p \<Longrightarrow> x \<notin> Fo \<Longrightarrow> cells h' x = cells h x"
  by (simp add: added_def)

definition builds :: "json \<Rightarrow> bool" where
  "builds t \<longleftrightarrow>
     (\<forall>ctx p rest c Fo. open_container ctx p rest c Fo \<longrightarrow>
       (\<exists>ctx' F. feed (events t) ctx = Ret (True, ctx') \<and> containerStack ctx' = p # rest \<and>
         added p (tmpMapKay ctx) c Fo (heap ctx) (heap ctx') (canon t) F))"

lemma builds_scalar:
  assumes ev: "events t = [e]"
    and cb: "\<And>ctx. \<forall>n. malloc_ok (heap ctx) n \<Longrightarrow> build_callbacks e ctx = add_new new ctx"
    and rep: "\<And>h r. h r = Some new \<Longrightarrow> repr h (canon t) r {r}"
  shows "builds t"
  unfolding builds_def
proof (intro allI impI)
  fix ctx p rest c Fo
  assume oc: "open_container ctx p rest c Fo"
  let ?h = "linked p (tmpMapKay ctx) c new Fo (heap ctx)"
  have mem: "\<forall>n. malloc_ok (heap ctx) n" using open_containerD(5) [OF oc] by blast
  have "feed (events t) ctx = Ret (True, ctx\<lparr>heap := ?h\<rparr>)"
    using safeAdd_new [OF oc, of new] by (simp add: ev cb [OF mem] add_new_def split: prod.split)
  moreover have "added p (tmpMapKay ctx) c Fo (heap ctx) ?h (canon t) {brk (heap ctx)}"
    using linked_simps [OF open_container_at [OF oc]] open_containerD(8) [OF oc]
    by (auto simp: added_def rep heap_ok_def)
  ultimately show "\<exists>ctx' F. feed (events t) ctx = Ret (True, ctx') \<and>
      containerStack ctx' = p # rest \<and>
      added p (tmpMapKay ctx) c Fo (heap ctx) (heap ctx') (canon t) F"
    using open_containerD(1) [OF oc]
    by (intro exI [of _ "ctx\<lparr>heap := ?h\<rparr>"] exI [of _ "{brk (heap ctx)}"]) simp
qed

section \<open>Filling a container\<close>

text \<open>
  The state while the members of the container at \<open>b\<close> are read: it holds values with
  the nodes \<open>F\<close>; compared with an earlier heap \<open>h0\<close> in which it held \<open>F0\<close>, only nodes
  of \<open>F0\<close>, new nodes and \<open>b\<close> have changed, and those not in \<open>F\<close> are free.
\<close>

definition filling :: "node_ref \<Rightarrow> dom_heap \<Rightarrow> node_ref set \<Rightarrow> dom_heap \<Rightarrow> node_ref set \<Rightarrow> bool" where
  "filling b h0 F0 h F \<longleftrightarrow>
     heap_ok h \<and> brk h0 \<le> brk h \<and> malloc_ok h = malloc_ok h0 \<and> b \<notin> F \<and>
     F \<subseteq> F0 \<union> {brk h0..<brk h} \<and>
     (\<forall>x<brk h0. x \<noteq> b \<longrightarrow> x \<notin> F0 \<longrightarrow> cells h x = cells h0 x) \<and>
     (\<forall>x. x \<noteq> b \<longrightarrow> x \<in> F0 \<or> brk h0 \<le> x \<longrightarrow> x \<notin> F \<longrightarrow> cells h x = None)"

lemma fillingD:
  assumes "filling b h0 F0 h F"
  shows "heap_ok h" "brk h0 \<le> brk h" "malloc_ok h = malloc_ok h0" "b \<notin> F"
    "F \<subseteq> F0 \<union> {brk h0..<brk h}"
    "x < brk h0 \<Longrightarrow> x \<noteq> b \<Longrightarrow> x \<notin> F0 \<Longrightarrow> cells h x = cells h0 x"
    "x \<noteq> b \<Longrightarrow> x \<in> F0 \<or> brk h0 \<le> x \<Longrightarrow> x \<notin> F \<Longrightarrow> cells h x = None"
  using assms unfolding filling_def by blast+

lemma filling_trans:
  assumes 1: "filling b h0 F0 h1 F1" and 2: "filling b h1 F1 h2 F2" and F0: "F0 \<subseteq> {..<brk h0}"
  shows "filling b h0 F0 h2 F2"
  unfolding filling_def
proof (intro conjI allI impI)
  have F1: "F1 \<subseteq> F0 \<union> {brk h0..<brk h1}" by (rule fillingD(5) [OF 1])
  have b01: "brk h0 \<le> brk h1" and b12: "brk h1 \<le> brk h2"
    using fillingD(2) [OF 1] fillingD(2) [OF 2] by auto
  show "heap_ok h2" "b \<notin> F2" "malloc_ok h2 = malloc_ok h0" "brk h0 \<le> brk h2"
    using fillingD(1,3,4) [OF 2] fillingD(3) [OF 1] b01 b12 by auto
  show "F2 \<subseteq> F0 \<union> {brk h0..<brk h2}"
    using F1 fillingD(5) [OF 2] b01 b12 by fastforce
  fix x
  show "cells h2 x = cells h0 x" if "x < brk h0" "x \<noteq> b" "x \<notin> F0"
  proof -
    have "x \<notin> F1" "x < brk h1" using that F1 b01 by auto
    then show ?thesis
      using that fillingD(6) [OF 1, of x] fillingD(6) [OF 2, of x] by simp
  qed
  show "cells h2 x = None" if "x \<noteq> b" "x \<in> F0 \<or> brk h0 \<le> x" "x \<notin> F2"
  proof (cases "x \<in> F1 \<or> brk h1 \<le> x")
    case True
    with that show ?thesis by (intro fillingD(7) [OF 2])
  next
    case False
    with that have "cells h1 x = None" by (intro fillingD(7) [OF 1]) auto
    with False that show ?thesis using fillingD(6) [OF 2, of x] by auto
  qed
qed

lemma filling_added:
  assumes "added b key c Fo h h' t F" and "b < brk h" and "Fo \<inter> Fr = {}" and "b \<notin> Fo \<union> Fr"
    and "Fo \<union> Fr \<subseteq> {..<brk h}"
  shows "filling b h (Fo \<union> Fr) h' (F \<union> Fr)"
  using assms unfolding filling_def added_def by (auto simp: subset_iff)

lemma below_brk: "heap_ok h \<Longrightarrow> cells h x = Some c \<Longrightarrow> x < brk h"
  by (metis heap_ok_def not_le option.distinct(1))

lemma reprs_below: "heap_ok h \<Longrightarrow> reprs (cells h) ts rs F \<Longrightarrow> F \<subseteq> {..<brk h}"
  using repr_footprint(2) [of "cells h" ts rs F] by (fastforce dest: below_brk)

abbreviation map_events :: "(string \<times> json) list \<Rightarrow> event list" where
  "map_events kvs \<equiv> concat (map (\<lambda>(k, v). YMapKey k # events v) kvs)"

abbreviation canons :: "(string \<times> json) list \<Rightarrow> (string \<times> json) list" where
  "canons \<equiv> map (\<lambda>(k, v). (k, canon v))"

definition map_at :: "node_ref \<Rightarrow> dom_heap \<Rightarrow> (string \<times> json) list \<Rightarrow> node_ref set \<Rightarrow> bool" where
  "map_at b h kvs F \<longleftrightarrow> (\<exists>m. cells h b = Some (CMap m) \<and> map fst kvs = map fst m \<and>
     reprs (cells h) (map snd kvs) (map snd m) F)"

text \<open>One member: the key callback and the events of the value.\<close>

lemma map_member:
  assumes v: "builds v" and k: "length k < 2 ^ 31" and st: "containerStack ctx = b # rest"
    and ok: "heap_ok (heap ctx)" and mem: "\<forall>n. malloc_ok (heap ctx) n"
    and at: "map_at b (heap ctx) kvs F0" and b: "b \<notin> F0"
  shows "\<exists>ctx' F. feed (YMapKey k # events v) ctx = Ret (True, ctx') \<and>
    containerStack ctx' = b # rest \<and> filling b (heap ctx) F0 (heap ctx') F \<and>
    map_at b (heap ctx') (AList.update (c_str k) (canon v) kvs) F"
proof -
  let ?h = "heap ctx" and ?ctx1 = "ctx\<lparr>tmpMapKay := k\<rparr>" and ?k = "c_str k"
  from at obtain m where m: "cells ?h b = Some (CMap m)" "map fst kvs = map fst m"
    "reprs (cells ?h) (map snd kvs) (map snd m) F0"
    by (auto simp: map_at_def)
  from map_children_update [OF m(2,3), of ?k] obtain Fo Fr where
    fo: "old_foot (cells ?h) (map_of m ?k) Fo" and F0: "F0 = Fo \<union> Fr" and dj: "Fo \<inter> Fr = {}"
    and upd: "\<And>h' t r G. \<forall>x\<in>Fr. h' x = cells ?h x \<Longrightarrow> repr h' t r G \<Longrightarrow> G \<inter> Fr = {} \<Longrightarrow>
      reprs h' (map snd (AList.update ?k t kvs)) (map snd (AList.update ?k r m)) (G \<union> Fr)"
    by metis
  have below: "F0 \<subseteq> {..<brk ?h}" by (rule reprs_below [OF ok m(3)])
  have "open_container ?ctx1 b rest (CMap m) Fo"
    using st ok mem m(1) fo b F0 by (auto simp: open_container_defs)
  with v obtain ctx2 F where f: "feed (events v) ?ctx1 = Ret (True, ctx2)"
    and st2: "containerStack ctx2 = b # rest"
    and ad: "added b k (CMap m) Fo ?h (heap ctx2) (canon v) F"
    unfolding builds_def by fastforce
  have fill: "filling b ?h F0 (heap ctx2) (F \<union> Fr)"
    unfolding F0 by (rule filling_added [OF ad]) (use dj b F0 below below_brk [OF ok m(1)] in auto)
  have "\<forall>x\<in>Fr. cells (heap ctx2) x = cells ?h x"
    using dj b F0 below by (auto intro!: added_frame [OF ad])
  moreover have "F \<inter> Fr = {}"
    using ad below F0 unfolding added_def by (fastforce simp: subset_iff)
  ultimately have "map_at b (heap ctx2) (AList.update ?k (canon v) kvs) (F \<union> Fr)"
    using ad upd [of "cells (heap ctx2)" "canon v" "brk ?h" F] keys_update [OF m(2)]
    unfolding added_def map_at_def by auto
  then show ?thesis
    using f st2 fill by (intro exI [of _ ctx2] exI [of _ "F \<union> Fr"]) (simp add: cb_build_map_key_small [OF k])
qed

lemma map_members:
  assumes "list_all (\<lambda>(k, v). length k < 2 ^ 31 \<and> builds v) ms"
    and "containerStack ctx = b # rest" and "heap_ok (heap ctx)"
    and "\<forall>n. malloc_ok (heap ctx) n" and "map_at b (heap ctx) kvs F0" and "b \<notin> F0"
  shows "\<exists>ctx' F. feed (map_events ms) ctx = Ret (True, ctx') \<and>
    containerStack ctx' = b # rest \<and> filling b (heap ctx) F0 (heap ctx') F \<and>
    map_at b (heap ctx') (map_ins (canons ms) kvs) F"
  using assms
proof (induction ms arbitrary: ctx kvs F0)
  case Nil
  then show ?case
    by (intro exI [of _ ctx] exI [of _ F0]) (auto simp: filling_def map_ins_def map_at_def heap_ok_def)
next
  case (Cons kv ms)
  obtain k v where kv: "kv = (k, v)" by (cases kv)
  with Cons.prems map_member [of v k ctx b rest kvs F0] obtain ctx1 F1 where
    1: "feed (YMapKey k # events v) ctx = Ret (True, ctx1)" "containerStack ctx1 = b # rest"
      "filling b (heap ctx) F0 (heap ctx1) F1"
      "map_at b (heap ctx1) (AList.update (c_str k) (canon v) kvs) F1"
    by auto
  with Cons.prems Cons.IH [of ctx1 "AList.update (c_str k) (canon v) kvs" F1] obtain ctx2 F2 where
    2: "feed (map_events ms) ctx1 = Ret (True, ctx2)" "containerStack ctx2 = b # rest"
      "filling b (heap ctx1) F1 (heap ctx2) F2"
      "map_at b (heap ctx2) (map_ins (canons ms) (AList.update (c_str k) (canon v) kvs)) F2"
    by (auto simp: fillingD)
  have "F0 \<subseteq> {..<brk (heap ctx)}"
    using Cons.prems by (auto simp: map_at_def dest: reprs_below)
  with filling_trans [OF 1(3) 2(3)] have "filling b (heap ctx) F0 (heap ctx2) F2" by blast
  moreover have "feed (map_events (kv # ms)) ctx = Ret (True, ctx2)"
    using feed_append [OF 1(1), of "map_events ms"] 2(1) kv by simp
  ultimately show ?case
    using 2 kv by (intro exI [of _ ctx2] exI [of _ F2]) (simp add: map_ins_def)
qed

definition array_at :: "node_ref \<Rightarrow> dom_heap \<Rightarrow> json list \<Rightarrow> node_ref set \<Rightarrow> bool" where
  "array_at b h ts F \<longleftrightarrow> (\<exists>rs. cells h b = Some (CArray rs) \<and> reprs (cells h) ts rs F)"

lemma array_member:
  assumes t: "builds t" and st: "containerStack ctx = b # rest"
    and ok: "heap_ok (heap ctx)" and mem: "\<forall>n. malloc_ok (heap ctx) n"
    and at: "array_at b (heap ctx) ts F0" and b: "b \<notin> F0"
  shows "\<exists>ctx' F. feed (events t) ctx = Ret (True, ctx') \<and>
    containerStack ctx' = b # rest \<and> filling b (heap ctx) F0 (heap ctx') F \<and>
    array_at b (heap ctx') (ts @ [canon t]) F"
proof -
  let ?h = "heap ctx"
  from at obtain rs where rs: "cells ?h b = Some (CArray rs)" "reprs (cells ?h) ts rs F0"
    by (auto simp: array_at_def)
  have below: "F0 \<subseteq> {..<brk ?h}" by (rule reprs_below [OF ok rs(2)])
  have "open_container ctx b rest (CArray rs) {}"
    using st ok mem rs(1) by (auto simp: open_container_defs old_foot_def)
  with t obtain ctx2 F where f: "feed (events t) ctx = Ret (True, ctx2)"
    and st2: "containerStack ctx2 = b # rest"
    and ad: "added b (tmpMapKay ctx) (CArray rs) {} ?h (heap ctx2) (canon t) F"
    unfolding builds_def by fastforce
  have fill: "filling b ?h F0 (heap ctx2) (F \<union> F0)"
    using filling_added [OF ad, of F0] b below below_brk [OF ok rs(1)] by auto
  have "reprs (cells (heap ctx2)) ts rs F0"
    using b below by (auto intro!: reprs_frameI [OF rs(2)] added_frame [OF ad])
  moreover have "F0 \<inter> F = {}"
    using ad below unfolding added_def by (fastforce simp: subset_iff)
  ultimately have "array_at b (heap ctx2) (ts @ [canon t]) (F \<union> F0)"
    using ad reprs_append unfolding added_def array_at_def by (auto simp: Un_commute)
  with f st2 fill show ?thesis by blast
qed

lemma array_members:
  assumes "list_all builds ms"
    and "containerStack ctx = b # rest" and "heap_ok (heap ctx)"
    and "\<forall>n. malloc_ok (heap ctx) n" and "array_at b (heap ctx) ts F0" and "b \<notin> F0"
  shows "\<exists>ctx' F. feed (concat (map events ms)) ctx = Ret (True, ctx') \<and>
    containerStack ctx' = b # rest \<and> filling b (heap ctx) F0 (heap ctx') F \<and>
    array_at b (heap ctx') (ts @ map canon ms) F"
  using assms
proof (induction ms arbitrary: ctx ts F0)
  case Nil
  then show ?case
    by (intro exI [of _ ctx] exI [of _ F0]) (auto simp: filling_def array_at_def heap_ok_def)
next
  case (Cons t ms)
  with array_member [of t ctx b rest ts F0] obtain ctx1 F1 where
    1: "feed (events t) ctx = Ret (True, ctx1)" "containerStack ctx1 = b # rest"
      "filling b (heap ctx) F0 (heap ctx1) F1" "array_at b (heap ctx1) (ts @ [canon t]) F1"
    by auto
  with Cons.prems Cons.IH [of ctx1 "ts @ [canon t]" F1] obtain ctx2 F2 where
    2: "feed (concat (map events ms)) ctx1 = Ret (True, ctx2)" "containerStack ctx2 = b # rest"
      "filling b (heap ctx1) F1 (heap ctx2) F2"
      "array_at b (heap ctx2) ((ts @ [canon t]) @ map canon ms) F2"
    by (auto simp: fillingD)
  have "F0 \<subseteq> {..<brk (heap ctx)}"
    using Cons.prems by (auto simp: array_at_def dest: reprs_below)
  with filling_trans [OF 1(3) 2(3)] have "filling b (heap ctx) F0 (heap ctx2) F2" by blast
  with 2 feed_append [OF 1(1), of "concat (map events ms)"] show ?case
    by (intro exI [of _ ctx2] exI [of _ F2]) simp
qed

section \<open>Building a container\<close>

text \<open>
  A container value \<open>t\<close> whose first callback opens a node for the empty container
  \<open>new\<close>, whose last one closes it, and whose members \<open>body\<close> fill it.
\<close>

definition fills :: "json \<Rightarrow> event list \<Rightarrow> cell \<Rightarrow> bool" where
  "fills t body new \<longleftrightarrow>
     (\<forall>ctx b rest. containerStack ctx = b # rest \<longrightarrow> heap_ok (heap ctx) \<longrightarrow>
       (\<forall>n. malloc_ok (heap ctx) n) \<longrightarrow> cells (heap ctx) b = Some new \<longrightarrow>
       (\<exists>ctx' F. feed body ctx = Ret (True, ctx') \<and> containerStack ctx' = b # rest \<and>
         filling b (heap ctx) {} (heap ctx') F \<and> repr (cells (heap ctx')) (canon t) b (insert b F)))"

lemma fills_map:
  assumes "list_all (\<lambda>(k, v). length k < 2 ^ 31 \<and> builds v) ms"
  shows "fills (JMap ms) (map_events ms) (CMap [])"
  unfolding fills_def
proof (intro allI impI)
  fix ctx :: builder and b rest
  assume *: "containerStack ctx = b # rest" "heap_ok (heap ctx)"
    "\<forall>n. malloc_ok (heap ctx) n" "cells (heap ctx) b = Some (CMap [])"
  then have "map_at b (heap ctx) [] {}" by (simp add: map_at_def)
  with map_members [OF assms, of ctx b rest "[]" "{}"] * obtain ctx' F where
    "feed (map_events ms) ctx = Ret (True, ctx')" "containerStack ctx' = b # rest"
    "filling b (heap ctx) {} (heap ctx') F" "map_at b (heap ctx') (map_ins (canons ms) []) F"
    by auto
  then show "\<exists>ctx' F. feed (map_events ms) ctx = Ret (True, ctx') \<and>
      containerStack ctx' = b # rest \<and> filling b (heap ctx) {} (heap ctx') F \<and>
      repr (cells (heap ctx')) (canon (JMap ms)) b (insert b F)"
    by (intro exI [of _ ctx'] exI [of _ F])
      (auto simp: map_at_def fillingD intro!: repr_map)
qed

lemma fills_array:
  assumes "list_all builds ms"
  shows "fills (JArray ms) (concat (map events ms)) (CArray [])"
  unfolding fills_def
proof (intro allI impI)
  fix ctx :: builder and b rest
  assume *: "containerStack ctx = b # rest" "heap_ok (heap ctx)"
    "\<forall>n. malloc_ok (heap ctx) n" "cells (heap ctx) b = Some (CArray [])"
  then have "array_at b (heap ctx) [] {}" by (simp add: array_at_def)
  with array_members [OF assms, of ctx b rest "[]" "{}"] * obtain ctx' F where
    "feed (concat (map events ms)) ctx = Ret (True, ctx')" "containerStack ctx' = b # rest"
    "filling b (heap ctx) {} (heap ctx') F" "array_at b (heap ctx') (map canon ms) F"
    by auto
  then show "\<exists>ctx' F. feed (concat (map events ms)) ctx = Ret (True, ctx') \<and>
      containerStack ctx' = b # rest \<and> filling b (heap ctx) {} (heap ctx') F \<and>
      repr (cells (heap ctx')) (canon (JArray ms)) b (insert b F)"
    by (intro exI [of _ ctx'] exI [of _ F])
      (auto simp: array_at_def fillingD intro!: repr_array)
qed

lemma builds_container:
  assumes ev: "events t = opn # body @ [cls]" and body: "fills t body new"
    and opn: "\<And>ctx. build_callbacks opn ctx = open_new new ctx"
    and cls: "\<And>ctx. build_callbacks cls ctx = cb_build_end_container ctx"
  shows "builds t"
  unfolding builds_def
proof (intro allI impI)
  fix ctx p rest c Fo
  assume oc: "open_container ctx p rest c Fo"
  let ?h = "heap ctx" and ?b = "brk (heap ctx)"
  let ?h1 = "linked p (tmpMapKay ctx) c new Fo ?h"
  let ?ctx1 = "push_head ?b (ctx\<lparr>heap := ?h1\<rparr>)"
  note h1 = linked_simps [OF open_container_at [OF oc], where key = "tmpMapKay ctx" and new = new]
  have p: "p < ?b" and st: "containerStack ctx = p # rest" and mem: "\<forall>n. malloc_ok ?h n"
    using open_containerD [OF oc] by auto
  have 1: "open_new new ctx = Ret (1, ?ctx1)"
    using safeAdd_new [OF oc, of new] by (simp add: open_new_def new_Some [OF mem]
        cb_build_safeContainerAdd_def)
  have "containerStack ?ctx1 = ?b # p # rest" "heap ?ctx1 = ?h1"
    using st by (simp_all add: push_head_def)
  with body h1 mem obtain ctx2 F where
    2: "feed body ?ctx1 = Ret (True, ctx2)" "containerStack ctx2 = ?b # p # rest"
      "filling ?b ?h1 {} (heap ctx2) F" "repr (cells (heap ctx2)) (canon t) ?b (insert ?b F)"
    unfolding fills_def by metis
  let ?ctx3 = "jdBuilder_popContainerStack ctx2"
  have "feed (events t) ctx = Ret (True, ?ctx3)"
    using feed_append [OF 2(1), of "[cls]"] 1
    by (simp add: ev opn cls cb_build_end_container_def)
  moreover have "added p (tmpMapKay ctx) c Fo ?h (heap ctx2) (canon t) (insert ?b F)"
    using 2(4) fillingD [OF 2(3)] h1 p unfolding added_def by (auto simp: Suc_le_eq)
  ultimately show "\<exists>ctx' F. feed (events t) ctx = Ret (True, ctx') \<and>
      containerStack ctx' = p # rest \<and>
      added p (tmpMapKay ctx) c Fo ?h (heap ctx') (canon t) F"
    using 2(2) by (intro exI [of _ ?ctx3] exI [of _ "insert ?b F"])
      (simp add: jdBuilder_popContainerStack_def)
qed

section \<open>Every document\<close>

lemma builds_all: "small_strings t \<Longrightarrow> builds t"
proof (induction t)
  case JNull
  show ?case by (rule builds_scalar [where new = CNull]) (auto simp: cb_build_null_def intro: repr_null)
next
  case (JBoolean b)
  show ?case
    by (rule builds_scalar [where new = "CBoolean b"])
      (auto simp: cb_build_boolean_def intro: repr_boolean)
next
  case (JLong l)
  show ?case
    by (rule builds_scalar [where new = "CLong l"]) (auto simp: cb_build_long_def intro: repr_long)
next
  case (JDouble d)
  show ?case
    by (rule builds_scalar [where new = "CDouble d"])
      (auto simp: cb_build_double_def intro: repr_double)
next
  case (JString s)
  then have "string_bytes (JsonNode_newFromStringLen s (word_of_nat (length s))) = s"
    by (intro string_bytes_small) simp
  then show ?case
    by (intro builds_scalar [where new = "CString s" and e = "YString s"])
      (auto simp: cb_build_string_def new_Some add_new_def Let_def intro: repr_string)
next
  case (JMap m)
  then have "list_all (\<lambda>(k, v). length k < 2 ^ 31 \<and> builds v) m"
    by (auto simp: list_all_iff)
  from fills_map [OF this] show ?case
    by (intro builds_container [where opn = YStartMap and cls = YEndMap])
      (auto simp: cb_build_start_map_def)
next
  case (JArray a)
  then have "list_all builds a" by (simp add: list_all_iff)
  from fills_array [OF this] show ?case
    by (intro builds_container [where opn = YStartArray and cls = YEndArray])
      (auto simp: cb_build_start_array_def)
qed

section \<open>The root\<close>

text \<open>
  On an empty stack the value becomes the root, and is alone on the stack at the end.
  Compared with the heap \<open>h\<close> before, only new nodes were added, all of them in the tree.
\<close>

definition rooted :: "dom_heap \<Rightarrow> json \<Rightarrow> dom_heap \<Rightarrow> node_ref set \<Rightarrow> bool" where
  "rooted h t h' F \<longleftrightarrow>
     heap_ok h' \<and> malloc_ok h' = malloc_ok h \<and> repr (cells h') t (brk h) F \<and>
     F \<subseteq> {brk h..<brk h'} \<and> (\<forall>x<brk h. cells h' x = cells h x) \<and> (\<forall>x\<ge>brk h. x \<notin> F \<longrightarrow> cells h' x = None)"

lemma root_scalar:
  assumes "events t = [e]" and "containerStack ctx = []" and "heap_ok (heap ctx)"
    and "\<forall>n. malloc_ok (heap ctx) n"
    and "build_callbacks e ctx = add_new new ctx" and "\<And>h r. h r = Some new \<Longrightarrow> repr h (canon t) r {r}"
  shows "\<exists>ctx' F. feed (events t) ctx = Ret (True, ctx') \<and>
    containerStack ctx' = [brk (heap ctx)] \<and> rooted (heap ctx) (canon t) (heap ctx') F"
  using assms
  by (intro exI [of _ "push_head (brk (heap ctx)) (ctx\<lparr>heap := snd (JsonNode_new new (heap ctx))\<rparr>)"]
        exI [of _ "{brk (heap ctx)}"])
    (simp add: add_new_def new_Some cb_build_safeAdd_def jdBuilder_addValue_def push_head_def
      rooted_def heap_ok_def)

lemma root_container:
  assumes ev: "events t = opn # body @ [cls]" and body: "fills t body new"
    and opn: "build_callbacks opn ctx = open_new new ctx"
    and cls: "\<And>ctx. build_callbacks cls ctx = cb_build_end_container ctx"
    and st: "containerStack ctx = []" and ok: "heap_ok (heap ctx)"
    and mem: "\<forall>n. malloc_ok (heap ctx) n"
  shows "\<exists>ctx' F. feed (events t) ctx = Ret (True, ctx') \<and>
    containerStack ctx' = [brk (heap ctx)] \<and> rooted (heap ctx) (canon t) (heap ctx') F"
proof -
  let ?b = "brk (heap ctx)" and ?h1 = "snd (JsonNode_new new (heap ctx))"
  let ?ctx1 = "push_head ?b (push_head ?b (ctx\<lparr>heap := ?h1\<rparr>))"
  have 1: "open_new new ctx = Ret (1, ?ctx1)"
    using st by (simp add: open_new_def new_Some [OF mem] cb_build_safeContainerAdd_def
        cb_build_safeAdd_def jdBuilder_addValue_def push_head_def)
  have h1: "containerStack ?ctx1 = [?b, ?b]" "heap ?ctx1 = ?h1" "heap_ok ?h1"
    "\<forall>n. malloc_ok ?h1 n" "malloc_ok ?h1 = malloc_ok (heap ctx)" "cells ?h1 ?b = Some new" "brk ?h1 = Suc ?b"
    "\<forall>x<?b. cells ?h1 x = cells (heap ctx) x"
    using st ok mem by (auto simp: push_head_def new_Some [OF mem] heap_ok_def)
  with body obtain ctx2 F where
    2: "feed body ?ctx1 = Ret (True, ctx2)" "containerStack ctx2 = [?b, ?b]"
      "filling ?b ?h1 {} (heap ctx2) F" "repr (cells (heap ctx2)) (canon t) ?b (insert ?b F)"
    unfolding fills_def by metis
  let ?ctx3 = "jdBuilder_popContainerStack ctx2"
  have "feed (events t) ctx = Ret (True, ?ctx3)"
    using feed_append [OF 2(1), of "[cls]"] 1
    by (simp add: ev opn cls cb_build_end_container_def)
  moreover have "rooted (heap ctx) (canon t) (heap ctx2) (insert ?b F)"
    using 2(4) fillingD [OF 2(3)] h1 unfolding rooted_def by (auto simp: Suc_le_eq)
  ultimately show ?thesis
    using 2(2) by (intro exI [of _ ?ctx3] exI [of _ "insert ?b F"])
      (simp add: jdBuilder_popContainerStack_def)
qed

lemma root_value:
  assumes sm: "small_strings t" and st: "containerStack ctx = []" and ok: "heap_ok (heap ctx)"
    and mem: "\<forall>n. malloc_ok (heap ctx) n"
  shows "\<exists>ctx' F. feed (events t) ctx = Ret (True, ctx') \<and>
    containerStack ctx' = [brk (heap ctx)] \<and> rooted (heap ctx) (canon t) (heap ctx') F"
proof (cases t)
  case JNull
  with assms show ?thesis
    by (intro root_scalar [where new = CNull and e = YNull])
      (auto simp: cb_build_null_def intro: repr_null)
next
  case (JBoolean b)
  with assms show ?thesis
    by (intro root_scalar [where new = "CBoolean b" and e = "YBoolean b"])
      (auto simp: cb_build_boolean_def intro: repr_boolean)
next
  case (JLong l)
  with assms show ?thesis
    by (intro root_scalar [where new = "CLong l" and e = "YInteger l"])
      (auto simp: cb_build_long_def intro: repr_long)
next
  case (JDouble d)
  with assms show ?thesis
    by (intro root_scalar [where new = "CDouble d" and e = "YDouble d"])
      (auto simp: cb_build_double_def intro: repr_double)
next
  case (JString s)
  with sm have "string_bytes (JsonNode_newFromStringLen s (word_of_nat (length s))) = s"
    by (intro string_bytes_small) simp
  with JString assms show ?thesis
    by (intro root_scalar [where new = "CString s" and e = "YString s"])
      (auto simp: cb_build_string_def new_Some add_new_def Let_def intro: repr_string)
next
  case (JMap m)
  with sm have "list_all (\<lambda>(k, v). length k < 2 ^ 31 \<and> builds v) m"
    by (auto simp: list_all_iff builds_all)
  from fills_map [OF this] show ?thesis
    unfolding JMap
    by (rule root_container [where opn = YStartMap and cls = YEndMap, rotated])
      (auto simp: cb_build_start_map_def assms)
next
  case (JArray a)
  with sm have "list_all builds a" by (auto simp: list_all_iff builds_all)
  from fills_array [OF this] show ?thesis
    unfolding JArray
    by (rule root_container [where opn = YStartArray and cls = YEndArray, rotated])
      (auto simp: cb_build_start_array_def assms)
qed

end
