(* ===== verification/Json_Gen.thy ===== *)
theory Json_Gen
  imports Json_Build
begin

text \<open>
  \<open>src/json-dom-generator.c\<close>: a document is written by a sequence of calls of the yajl
  generator. The order in which a hash table is iterated is a parameter, a permutation
  of its keys; so is the text the library makes of the calls. Together with the builder:
  reading a written document gives it back, up to the order of map members.
\<close>

section \<open>The generator\<close>

datatype gen_call =
    GNull
  | GBool c_int
  | GInteger c_long
  | GDouble c_double
  | GString string
  | GMapOpen
  | GMapClose
  | GArrayOpen
  | GArrayClose

text \<open>The members of a hash table in iteration order.\<close>

definition reorder :: "(string list \<Rightarrow> string list) \<Rightarrow> (string \<times> 'v) list \<Rightarrow> (string \<times> 'v) list" where
  "reorder ord m = map (\<lambda>k. (k, the (map_of m k))) (ord (map fst m))"

text \<open>Lengths are cast to \<open>unsigned int\<close>.\<close>

definition yajl_gen_string :: "string \<Rightarrow> gen_call" where
  "yajl_gen_string s = GString (take (unat (word_of_nat (length s) :: c_int)) s)"

fun jdGenerator_generate_node :: "(string list \<Rightarrow> string list) \<Rightarrow> json \<Rightarrow> gen_call list" where
  "jdGenerator_generate_node ord JNull = [GNull]"
| "jdGenerator_generate_node ord (JBoolean b) = [GBool b]"
| "jdGenerator_generate_node ord (JLong l) = [GInteger l]"
| "jdGenerator_generate_node ord (JDouble d) = [GDouble d]"
| "jdGenerator_generate_node ord (JString s) = [yajl_gen_string s]"
| "jdGenerator_generate_node ord (JMap m) =
     GMapOpen #
     concat (map (\<lambda>(key, value). yajl_gen_string (c_str key) # value)
       (reorder ord (map (\<lambda>(k, v). (k, jdGenerator_generate_node ord v)) m))) @
     [GMapClose]"
| "jdGenerator_generate_node ord (JArray a) =
     GArrayOpen # concat (map (jdGenerator_generate_node ord) a) @ [GArrayClose]"

text \<open>
  The result buffer is allocated without a check and filled with \<open>memcpy\<close>, whose length
  is cast to \<open>int\<close> and then to \<open>size_t\<close>.
\<close>

definition jdGenerator_generate :: "(string list \<Rightarrow> string list) \<Rightarrow> (gen_call list \<Rightarrow> string) \<Rightarrow>
    (nat \<Rightarrow> bool) \<Rightarrow> json \<Rightarrow> (string \<times> c_long) outcome" where
  "jdGenerator_generate ord gen_text calloc_ok node =
     (let buf = gen_text (jdGenerator_generate_node ord node);
          len = length buf;
          n = sint (word_of_nat len :: c_int)
      in if \<not> calloc_ok (8 * len) \<or> n < 0 then Undef
         else Ret (take (nat n) buf @ replicate (len - nat n) (CHR 0x00), word_of_nat len))"

section \<open>What the calls say\<close>

text \<open>
  The generator of yajl takes a string as a key or as a value by its position. This
  is the event sequence a parser sees for the text of a call sequence.
\<close>

datatype gen_state = InMapKey | InMapVal | InArray

fun value_done :: "gen_state list \<Rightarrow> gen_state list" where
  "value_done (InMapVal # st) = InMapKey # st"
| "value_done st = st"

fun as_events :: "gen_state list \<Rightarrow> gen_call list \<Rightarrow> event list" where
  "as_events st [] = []"
| "as_events (InMapKey # st) (GString s # cs) = YMapKey s # as_events (InMapVal # st) cs"
| "as_events st (GString s # cs) = YString s # as_events (value_done st) cs"
| "as_events st (GNull # cs) = YNull # as_events (value_done st) cs"
| "as_events st (GBool b # cs) = YBoolean b # as_events (value_done st) cs"
| "as_events st (GInteger l # cs) = YInteger l # as_events (value_done st) cs"
| "as_events st (GDouble d # cs) = YDouble d # as_events (value_done st) cs"
| "as_events st (GMapOpen # cs) = YStartMap # as_events (InMapKey # value_done st) cs"
| "as_events st (GMapClose # cs) = YEndMap # as_events (tl st) cs"
| "as_events st (GArrayOpen # cs) = YStartArray # as_events (InArray # value_done st) cs"
| "as_events st (GArrayClose # cs) = YEndArray # as_events (tl st) cs"

definition value_pos :: "gen_state list \<Rightarrow> bool" where
  "value_pos st \<longleftrightarrow> (case st of InMapKey # _ \<Rightarrow> False | _ \<Rightarrow> True)"

text \<open>The document with its maps in iteration order.\<close>

fun shuffle :: "(string list \<Rightarrow> string list) \<Rightarrow> json \<Rightarrow> json" where
  "shuffle ord (JMap m) = JMap (reorder ord (map (\<lambda>(k, v). (k, shuffle ord v)) m))"
| "shuffle ord (JArray a) = JArray (map (shuffle ord) a)"
| "shuffle ord t = t"

definition permutes_keys :: "(string list \<Rightarrow> string list) \<Rightarrow> bool" where
  "permutes_keys ord \<longleftrightarrow> (\<forall>ks. mset (ord ks) = mset ks)"

lemma permutes_keysD:
  assumes "permutes_keys ord"
  shows "set (ord ks) = set ks" "distinct (ord ks) = distinct ks" "length (ord ks) = length ks"
  using assms unfolding permutes_keys_def
  by (metis mset_eq_setD, metis mset_eq_imp_distinct_iff, metis mset_eq_length)

lemma map_of_map_snd: "map_of (map (\<lambda>(k, v). (k, f v)) m) k = map_option f (map_of m k)"
  by (induction m) auto

lemma fst_map_snd [simp]:
  "map fst (map (\<lambda>(k, v). (k, f v)) m) = map fst m"
  "map (fst \<circ> (\<lambda>(k, v). (k, f v))) m = map fst m"
  by (induction m) auto

lemma reorder_map:
  assumes "permutes_keys ord"
  shows "reorder ord (map (\<lambda>(k, v). (k, f v)) m) = map (\<lambda>(k, v). (k, f v)) (reorder ord m)"
proof -
  have "the (map_option f (map_of m k)) = f (the (map_of m k))" if "k \<in> set (ord (map fst m))" for k
    using that permutes_keysD(1) [OF assms, of "map fst m"] by (cases "map_of m k") (auto simp: map_of_eq_None_iff)
  then show ?thesis by (simp add: reorder_def map_of_map_snd)
qed

lemma set_reorder:
  assumes "permutes_keys ord" and "distinct (map fst m)"
  shows "set (reorder ord m) = set m"
proof -
  have "(\<lambda>k. (k, the (map_of m k))) (fst p) = p" if "p \<in> set m" for p
    using that map_of_is_SomeI [OF assms(2), of "fst p" "snd p"] by simp
  then show ?thesis
    using permutes_keysD(1) [OF assms(1), of "map fst m"] by (auto simp: reorder_def image_image)
qed

lemma keys_reorder [simp]: "map fst (reorder ord m) = ord (map fst m)"
  by (simp add: reorder_def comp_def)

lemma yajl_gen_string_small: "length s < 2 ^ 32 \<Longrightarrow> yajl_gen_string s = GString s"
  by (simp add: yajl_gen_string_def unat_of_nat take_bit_nat_eq_self)

lemma as_events_members:
  assumes "\<And>k v cs st. (k, v) \<in> set m \<Longrightarrow> value_pos st \<Longrightarrow>
      as_events st (f v @ cs) = events (g v) @ as_events (value_done st) cs"
    and "\<And>k v. (k, v) \<in> set m \<Longrightarrow> yajl_gen_string (c_str k) = GString k"
  shows "as_events (InMapKey # st)
      (concat (map (\<lambda>(k, v). yajl_gen_string (c_str k) # v) (map (\<lambda>(k, v). (k, f v)) m)) @ cs) =
    map_events (map (\<lambda>(k, v). (k, g v)) m) @ as_events (InMapKey # st) cs"
  using assms
proof (induction m)
  case Nil
  then show ?case by simp
next
  case (Cons kv m)
  obtain k v where kv: "kv = (k, v)" by (cases kv)
  have "as_events (InMapVal # st) (f v @ xs) = events (g v) @ as_events (InMapKey # st) xs" for xs
    using Cons.prems(1) [of k v "InMapVal # st" xs] kv by (simp add: value_pos_def)
  moreover have "yajl_gen_string (c_str k) = GString k"
    using Cons.prems(2) [of k v] kv by simp
  moreover have "as_events (InMapKey # st)
      (concat (map (\<lambda>(k, v). yajl_gen_string (c_str k) # v) (map (\<lambda>(k, v). (k, f v)) m)) @ cs) =
    map_events (map (\<lambda>(k, v). (k, g v)) m) @ as_events (InMapKey # st) cs"
    by (rule Cons.IH) (blast intro: Cons.prems list.set_intros(2))+
  ultimately show ?case using kv by simp
qed

lemma as_events_elems:
  assumes "\<And>v cs st. v \<in> set a \<Longrightarrow> value_pos st \<Longrightarrow>
      as_events st (f v @ cs) = events (g v) @ as_events (value_done st) cs"
  shows "as_events (InArray # st) (concat (map f a) @ cs) =
    concat (map events (map g a)) @ as_events (InArray # st) cs"
  using assms by (induction a) (auto simp: value_pos_def)

lemma as_events_value:
  assumes ord: "permutes_keys ord"
  shows "wf_json t \<Longrightarrow> small_strings t \<Longrightarrow> value_pos st \<Longrightarrow>
    as_events st (jdGenerator_generate_node ord t @ cs) =
      events (shuffle ord t) @ as_events (value_done st) cs"
proof (induction t arbitrary: st cs)
  case (JString s)
  then have "yajl_gen_string s = GString s" by (intro yajl_gen_string_small) simp
  with JString.prems show ?case by (auto simp: value_pos_def split: list.splits gen_state.splits)
next
  case (JMap m)
  have mem: "set (reorder ord m) = set m"
    using JMap.prems by (intro set_reorder [OF ord]) simp
  have 1: "wf_json v \<and> small_strings v \<and> nul_free k \<and> length k < 2 ^ 31"
    if "(k, v) \<in> set (reorder ord m)" for k v
    using that mem JMap.prems by (auto simp: list_all_iff)
  have 2: "yajl_gen_string (c_str k) = GString k" if "(k, v) \<in> set (reorder ord m)" for k v
  proof -
    have "length k < 2 ^ 32" "c_str k = k" using 1 [OF that] by auto
    then show ?thesis by (simp add: yajl_gen_string_small del: power_numeral)
  qed
  have "as_events (InMapKey # value_done st)
      (concat (map (\<lambda>(k, v). yajl_gen_string (c_str k) # v)
         (map (\<lambda>(k, v). (k, jdGenerator_generate_node ord v)) (reorder ord m))) @ GMapClose # cs) =
    map_events (map (\<lambda>(k, v). (k, shuffle ord v)) (reorder ord m)) @
    as_events (InMapKey # value_done st) (GMapClose # cs)"
    using 1 2 mem JMap.IH by (intro as_events_members) fastforce+
  then show ?case by (simp add: reorder_map [OF ord])
next
  case (JArray a)
  have "as_events (InArray # value_done st)
      (concat (map (jdGenerator_generate_node ord) a) @ GArrayClose # cs) =
    concat (map events (map (shuffle ord) a)) @
    as_events (InArray # value_done st) (GArrayClose # cs)"
    using JArray by (intro as_events_elems) (auto simp: list_all_iff)
  then show ?case by simp
qed (auto simp: value_pos_def split: list.splits gen_state.splits)

section \<open>Round trip\<close>

lemma map_ins_distinct:
  assumes "distinct (map fst kvs)" and "list_all (\<lambda>(k, v). nul_free k) kvs"
    and "fst ` set kvs \<inter> fst ` set m = {}"
  shows "map_ins kvs m = m @ kvs"
  using assms
proof (induction kvs arbitrary: m)
  case Nil
  then show ?case by (simp add: map_ins_def)
next
  case (Cons kv kvs)
  obtain k v where kv: "kv = (k, v)" by (cases kv)
  with Cons.prems have "AList.update (c_str k) v m = m @ [(k, v)]"
    by (auto intro: update_fresh)
  moreover from Cons.prems kv have "map_ins kvs (m @ [(k, v)]) = (m @ [(k, v)]) @ kvs"
    by (intro Cons.IH) auto
  ultimately show ?case using kv by (simp add: map_ins_def)
qed

lemma canon_wf: "wf_json t \<Longrightarrow> canon t = t"
proof (induction t)
  case (JMap m)
  then have "map (\<lambda>(k, v). (k, canon v)) m = m"
    by (intro map_idI) (auto simp: list_all_iff)
  with JMap.prems show ?case
    using map_ins_distinct [of m "[]"] by (auto simp: list_all_iff)
next
  case (JArray a)
  then show ?case by (auto simp: list_all_iff intro: map_idI)
qed auto

lemma map_ins_wf:
  "list_all (\<lambda>(k, v). P v) kvs \<Longrightarrow> distinct (map fst m) \<Longrightarrow> list_all (\<lambda>(k, v). nul_free k \<and> P v) m \<Longrightarrow>
   distinct (map fst (map_ins kvs m)) \<and> list_all (\<lambda>(k, v). nul_free k \<and> P v) (map_ins kvs m)"
proof (induction kvs arbitrary: m)
  case Nil
  then show ?case by (simp add: map_ins_def)
next
  case (Cons kv kvs)
  obtain k v where kv: "kv = (k, v)" by (cases kv)
  with Cons.prems have "distinct (map fst (AList.update (c_str k) v m))"
    "list_all (\<lambda>(k, v). nul_free k \<and> P v) (AList.update (c_str k) v m)"
    by (simp_all add: distinct_update list_all_update)
  with Cons kv show ?case by (simp add: map_ins_def)
qed

lemma wf_canon: "wf_json (canon t)"
proof (induction t)
  case (JMap m)
  then have "list_all (\<lambda>(k, v). wf_json v) (map (\<lambda>(k, v). (k, canon v)) m)"
    by (auto simp: list_all_iff)
  from map_ins_wf [of wf_json, OF this, of "[]"] show ?case by simp
next
  case (JArray a)
  then show ?case by (simp add: list_all_iff)
qed simp_all

lemma wf_shuffle: "permutes_keys ord \<Longrightarrow> wf_json t \<Longrightarrow> wf_json (shuffle ord t)"
proof (induction t)
  case (JMap m)
  then have "list_all (\<lambda>(k, v). nul_free k \<and> wf_json v)
      (reorder ord (map (\<lambda>(k, v). (k, shuffle ord v)) m))"
    by (auto simp: reorder_map set_reorder list_all_iff)
  moreover have "distinct (map fst (reorder ord (map (\<lambda>(k, v). (k, shuffle ord v)) m)))"
    using JMap.prems by (simp only: keys_reorder fst_map_snd permutes_keysD wf_json.simps)
  ultimately show ?case by simp
qed (auto simp: list_all_iff)

lemma small_shuffle:
  "permutes_keys ord \<Longrightarrow> wf_json t \<Longrightarrow> small_strings t \<Longrightarrow> small_strings (shuffle ord t)"
proof (induction t)
  case (JMap m)
  then show ?case
    by (fastforce simp: reorder_map set_reorder list_all_iff)
qed (auto simp: list_all_iff)

text \<open>Equality of documents up to the order of map members, at every level.\<close>

declare list.rel_cong [fundef_cong]

fun json_sim :: "json \<Rightarrow> json \<Rightarrow> bool" where
  "json_sim (JMap a) (JMap b) \<longleftrightarrow>
     length a = length b \<and>
     list_all (\<lambda>(k, v). case map_of b k of None \<Rightarrow> False | Some w \<Rightarrow> json_sim v w) a"
| "json_sim (JArray a) (JArray b) \<longleftrightarrow> list_all2 json_sim a b"
| "json_sim t u \<longleftrightarrow> t = u"

lemma json_sim_refl: "wf_json t \<Longrightarrow> json_sim t t"
proof (induction t)
  case (JMap m)
  then show ?case by (auto simp: list_all_iff)
next
  case (JArray a)
  then show ?case by (auto simp: list_all_iff list_all2_conv_all_nth)
qed auto

lemma length_reorder: "permutes_keys ord \<Longrightarrow> length (reorder ord m) = length m"
  by (simp add: reorder_def permutes_keysD)

lemma map_of_reorder:
  assumes "permutes_keys ord" and "distinct (map fst m)"
  shows "map_of (reorder ord m) = map_of m"
  using assms set_reorder [OF assms]
  by (intro map_of_inject_set [THEN iffD2]) (simp_all add: permutes_keysD)

lemma json_sim_shuffle:
  assumes "permutes_keys ord"
  shows "wf_json t \<Longrightarrow> json_sim t (shuffle ord t)"
proof (induction t)
  case (JMap m)
  then show ?case
    using assms by (auto simp: list_all_iff reorder_map map_of_map_snd map_of_reorder length_reorder)
next
  case (JArray a)
  then show ?case by (auto simp: list_all_iff list_all2_conv_all_nth)
qed auto

lemma feed_appendD:
  "feed (xs @ ys) ctx = Ret (True, ctx') \<Longrightarrow>
   \<exists>ctx1. feed xs ctx = Ret (True, ctx1) \<and> feed ys ctx1 = Ret (True, ctx')"
proof (induction xs ctx rule: feed.induct)
  case (2 e es ctx)
  then obtain rv ctx1 where "build_callbacks e ctx = Ret (rv, ctx1)" "rv \<noteq> 0"
    "feed (es @ ys) ctx1 = Ret (True, ctx')"
    by (auto simp: bind_outcome_eq_Ret split: if_splits)
  with 2 show ?case by auto
qed simp

lemma buildDom_rooted:
  assumes alloc: "yajl_alloc_ok Y"
    and parse: "yajl_parse Y buffer = (es1, True)"
    and complete: "yajl_complete_parse Y buffer = (es2, True)"
    and es: "es1 @ es2 = events t" and small: "small_strings t"
    and len: "unat (ucast bufflen :: c_int) = length buffer"
    and ok: "heap_ok h" and mem: "\<forall>n. malloc_ok h n"
  shows "\<exists>h' F. jdParser_buildDom E Y buffer bufflen h = Ret (Some (brk h), None, h') \<and>
    rooted h (canon t) h' F"
proof -
  obtain ctx' F where *: "feed (events t) (jdBuilder_init h) = Ret (True, ctx')"
    "containerStack ctx' = [brk h]" "rooted h (canon t) (heap ctx') F"
    using root_value [OF small, of "jdBuilder_init h"] ok mem by (auto simp: jdBuilder_init_def)
  from feed_appendD [of es1 es2] * es obtain ctx1 where
    "feed es1 (jdBuilder_init h) = Ret (True, ctx1)" "feed es2 ctx1 = Ret (True, ctx')"
    by metis
  with * alloc parse complete len show ?thesis
    by (auto simp: jdParser_buildDom_def buildDom_clean_def peek_tail_def)
qed

lemma rooted_tree_of:
  assumes "rooted h u h' F"
  shows "tree_of (brk h') (cells h') (brk h) = Some u"
proof -
  have rep: "repr (cells h') u (brk h) F" and F: "F \<subseteq> {brk h..<brk h'}"
    using assms by (auto simp: rooted_def)
  have "card F \<le> card {brk h..<brk h'}" by (rule card_mono [OF _ F]) simp
  with jdepth_card(1) [OF rep] have "jdepth u \<le> brk h'" by simp
  with tree_of_repr(1) [OF rep] show ?thesis by blast
qed

section \<open>Documents from text\<close>

text \<open>
  What a caller of \<open>jdParser_buildDom\<close> gets, as a document: the tree below the node it
  returns, starting from an empty node heap, and the error.
\<close>

definition parse_document :: "strerror_env \<Rightarrow> yajl \<Rightarrow> string \<Rightarrow> c_long
    \<Rightarrow> (json option \<times> gerror option) outcome" where
  "parse_document E Y buffer bufflen =
     bind_outcome (jdParser_buildDom E Y buffer bufflen empty_heap)
       (\<lambda>(result, err, h). case result of
          None \<Rightarrow> Ret (None, err)
        | Some r \<Rightarrow> (case tree_of (brk h) (cells h) r of
            None \<Rightarrow> Undef
          | Some t \<Rightarrow> Ret (Some t, err)))"

text \<open>The library reads the buffer to its end as the events \<open>es\<close>.\<close>

definition yajl_reads :: "yajl \<Rightarrow> string \<Rightarrow> event list \<Rightarrow> bool" where
  "yajl_reads Y buffer es \<longleftrightarrow>
     yajl_alloc_ok Y \<and> snd (yajl_parse Y buffer) \<and> snd (yajl_complete_parse Y buffer) \<and>
     fst (yajl_parse Y buffer) @ fst (yajl_complete_parse Y buffer) = es"

lemma heap_ok_empty [simp]: "heap_ok empty_heap" "malloc_ok empty_heap n" "brk empty_heap = 0"
  by (simp_all add: heap_ok_def empty_heap_def)

lemma parse_document_events:
  assumes "yajl_reads Y buffer (events t)" and "small_strings t"
    and "unat (ucast bufflen :: c_int) = length buffer"
  shows "parse_document E Y buffer bufflen = Ret (Some (canon t), None)"
proof -
  obtain es1 es2 where es: "yajl_parse Y buffer = (es1, True)"
    "yajl_complete_parse Y buffer = (es2, True)" "es1 @ es2 = events t" "yajl_alloc_ok Y"
    using assms(1) unfolding yajl_reads_def by (metis prod.collapse)
  from buildDom_rooted [OF es(4,1,2,3) assms(2,3), of empty_heap E] obtain h' F where
    "jdParser_buildDom E Y buffer bufflen empty_heap = Ret (Some 0, None, h')"
    "rooted empty_heap (canon t) h' F"
    by auto
  with rooted_tree_of show ?thesis by (fastforce simp: parse_document_def)
qed

lemma len_cast: "length buffer < 2 ^ 32 \<Longrightarrow>
  unat (ucast (word_of_nat (length buffer) :: c_long) :: c_int) = length buffer"
  by (simp add: unsigned_ucast_eq unsigned_of_nat take_bit_nat_eq_self)

lemma rooted_cells:
  assumes "rooted h t h' F" and "heap_ok h"
  shows "dom (cells h') = dom (cells h) \<union> F" and "x \<in> dom (cells h) \<Longrightarrow> cells h' x = cells h x"
proof -
  from assms(1) have rep: "repr (cells h') t (brk h) F" and F: "F \<subseteq> {brk h..<brk h'}"
    and old: "\<And>x. x < brk h \<Longrightarrow> cells h' x = cells h x"
    and new: "\<And>x. brk h \<le> x \<Longrightarrow> x \<notin> F \<Longrightarrow> cells h' x = None"
    by (auto simp: rooted_def)
  have FD: "F \<subseteq> dom (cells h')" using repr_footprint(1) [OF rep] by blast
  have low: "x < brk h" if "x \<in> dom (cells h)" for x
    using that assms(2) by (auto simp: heap_ok_def not_le [symmetric])
  show "x \<in> dom (cells h) \<Longrightarrow> cells h' x = cells h x" by (rule old [OF low])
  have "x \<in> dom (cells h') \<longleftrightarrow> x \<in> dom (cells h) \<union> F" for x
  proof (cases "x < brk h")
    case True
    then show ?thesis using old F by fastforce
  next
    case False
    then show ?thesis using new [of x] low [of x] FD by (auto simp: not_less)
  qed
  then show "dom (cells h') = dom (cells h) \<union> F" by blast
qed

lemma generate_length:
  "jdGenerator_generate ord gen_text calloc_ok t = Ret (bytes, len) \<Longrightarrow> len = word_of_nat (length bytes)"
  by (auto simp: jdGenerator_generate_def Let_def min_def split: if_splits)

section \<open>Properties\<close>

text \<open>For the witnesses: a library that reads every text as the events of one tree.\<close>

definition yajl_for :: "json \<Rightarrow> yajl" where
  "yajl_for t = \<lparr>yajl_alloc_ok = True, yajl_parse = (\<lambda>m. (events t, True)),
     yajl_complete_parse = (\<lambda>m. ([], True))\<rparr>"

definition sample_tree :: json where
  "sample_tree = JMap [(''a'', JArray [JLong 1, JNull]), (''b'', JString ''x''), (''a'', JBoolean 1)]"

lemma yajl_for_reads: "yajl_reads (yajl_for t) m (events t)"
  by (simp add: yajl_reads_def yajl_for_def)

text \<open>
  C14: parsing a text that the library reads as a tree \<open>t\<close> succeeds and returns a node that
  represents the document \<open>t\<close> denotes (keys cut at a NUL, the last of equal keys wins);
  its nodes are the only ones added to the heap, so the values that duplicate keys replaced
  have been freed, and every other node is as before.
\<close>

theorem parser_builds_document:
  assumes "yajl_reads Y buffer (events t)" and "small_strings t" and "length buffer < 2 ^ 32"
    and "heap_ok h" and "\<forall>n. malloc_ok h n"
  shows "\<exists>h' F. jdParser_buildDom E Y buffer (word_of_nat (length buffer)) h =
      Ret (Some (brk h), None, h') \<and>
    repr (cells h') (canon t) (brk h) F \<and> dom (cells h') = dom (cells h) \<union> F \<and>
    (\<forall>x \<in> dom (cells h). cells h' x = cells h x)"
proof -
  obtain es1 es2 where es: "yajl_parse Y buffer = (es1, True)"
    "yajl_complete_parse Y buffer = (es2, True)" "es1 @ es2 = events t" "yajl_alloc_ok Y"
    using assms(1) unfolding yajl_reads_def by (metis prod.collapse)
  from buildDom_rooted [OF es(4,1,2,3) assms(2) len_cast [OF assms(3)] assms(4,5)] obtain h' F where
    *: "jdParser_buildDom E Y buffer (word_of_nat (length buffer)) h = Ret (Some (brk h), None, h')"
    "rooted h (canon t) h' F" by blast
  then have "repr (cells h') (canon t) (brk h) F" by (simp add: rooted_def)
  with * rooted_cells [OF *(2) assms(4)] show ?thesis by blast
qed

lemma parser_builds_document_witness:
  "\<exists>h' F. jdParser_buildDom \<lparr>gnu_variant = True, gnu_strerror = (\<lambda>e n. ''error''),
       xsi_strerror = (\<lambda>e n. (0, ''error'')), utf8_charset = True, locale_to_utf8 = Some,
       errno_left = (\<lambda>e old. old)\<rparr> (yajl_for sample_tree) ''doc'' (word_of_nat (length ''doc'')) empty_heap =
     Ret (Some 0, None, h') \<and>
   repr (cells h') (JMap [(''a'', JBoolean 1), (''b'', JString ''x'')]) 0 F \<and> dom (cells h') = F"
proof -
  have "canon sample_tree = JMap [(''a'', JBoolean 1), (''b'', JString ''x'')]"
    by (simp add: sample_tree_def map_ins_def c_str_def)
  moreover have "small_strings sample_tree" by (simp add: sample_tree_def)
  moreover have "dom (cells empty_heap) = {}" by (simp add: empty_heap_def)
  ultimately show ?thesis
    using parser_builds_document [OF yajl_for_reads, of sample_tree "''doc''" empty_heap] by simp
qed

text \<open>
  C24: freeing a node frees every node of its tree exactly once, containers and children,
  and no other; so no pointer is freed twice and none is left behind.
\<close>

theorem free_exactly_the_tree:
  assumes "heap_ok h" and "repr (cells h) t r F"
  shows "\<exists>h'. free_node r h = Ret h' \<and> dom (cells h') = dom (cells h) - F \<and>
    (\<forall>x. x \<notin> F \<longrightarrow> cells h' x = cells h x)"
  using free_node_repr [OF assms] by (auto simp: cells_without dom_def)

lemma free_exactly_the_tree_witness:
  "\<exists>h'. free_node 1 ((snd (JsonNode_new (CArray [0]) (snd (JsonNode_new CNull empty_heap))))) = Ret h' \<and>
    dom (cells h') = {}"
proof -
  let ?h = "snd (JsonNode_new (CArray [0]) (snd (JsonNode_new CNull empty_heap)))"
  have h: "cells ?h = [0 \<mapsto> CNull, 1 \<mapsto> CArray [0]]" "brk ?h = 2"
    by (simp_all add: JsonNode_new_def empty_heap_def numeral_2_eq_2 fun_upd_def)
  have "repr (cells ?h) JNull 0 {0}" by (rule repr_null) (simp add: h)
  then have "reprs (cells ?h) [JNull] [0] {0}" using reprs_cons [OF _ reprs_nil, of _ JNull 0 "{0}"] by simp
  then have "repr (cells ?h) (JArray [JNull]) 1 (insert 1 {0})" by (intro repr_array) (simp_all add: h)
  moreover have "heap_ok ?h" using h by (auto simp: heap_ok_def)
  moreover have "dom (cells ?h) - insert 1 {0} = {}" by (auto simp: h)
  ultimately show ?thesis using free_exactly_the_tree by metis
qed

text \<open>
  The calls to the yajl generator write the document, with its map members in the
  order the hash table gives them: reading their text produces the events of it.
\<close>

lemma generator_writes_document:
  assumes "permutes_keys ord" and "wf_json t" and "small_strings t"
  shows "as_events [] (jdGenerator_generate_node ord t) = events (shuffle ord t) \<and>
    json_sim t (shuffle ord t)"
  using as_events_value [OF assms, of "[]" "[]"] json_sim_shuffle [OF assms(1,2)]
  by (simp add: value_pos_def)

lemma generator_writes_document_witness:
  "as_events [] (jdGenerator_generate_node rev (JMap [(''a'', JLong 1), (''b'', JNull)])) =
   [YStartMap, YMapKey ''b'', YNull, YMapKey ''a'', YInteger 1, YEndMap]"
  using generator_writes_document [of rev "JMap [(''a'', JLong 1), (''b'', JNull)]"]
  by (simp add: permutes_keys_def nul_free_def reorder_def)

text \<open>
  C15: generating a document and parsing the text gives it back, up to the order of map
  members. Of the library: it reads the text it wrote for these calls as the events the
  calls say.
\<close>

theorem generate_parse_roundtrip:
  assumes "permutes_keys ord" and "wf_json t" and "small_strings t"
    and "jdGenerator_generate ord gen_text calloc_ok t = Ret (bytes, len)" and "length bytes < 2 ^ 32"
    and "yajl_reads Y bytes (as_events [] (jdGenerator_generate_node ord t))"
  shows "\<exists>u. parse_document E Y bytes len = Ret (Some u, None) \<and> json_sim t u"
proof -
  have ev: "as_events [] (jdGenerator_generate_node ord t) = events (shuffle ord t)"
    using as_events_value [OF assms(1-3), of "[]" "[]"] by (simp add: value_pos_def)
  have len: "len = word_of_nat (length bytes)" by (rule generate_length [OF assms(4)])
  have "parse_document E Y bytes len = Ret (Some (canon (shuffle ord t)), None)"
    unfolding len
    by (rule parse_document_events [OF assms(6) [unfolded ev] small_shuffle [OF assms(1-3)] len_cast [OF assms(5)]])
  then show ?thesis
    using canon_wf [OF wf_shuffle [OF assms(1,2)]] json_sim_shuffle [OF assms(1,2)] by simp
qed

lemma generate_parse_roundtrip_witness:
  "\<exists>u. parse_document \<lparr>gnu_variant = True, gnu_strerror = (\<lambda>e n. ''error''),
       xsi_strerror = (\<lambda>e n. (0, ''error'')), utf8_charset = True, locale_to_utf8 = Some,
       errno_left = (\<lambda>e old. old)\<rparr> (yajl_for (JMap [(''b'', JNull), (''a'', JLong 1)])) ''doc'' 3 =
     Ret (Some u, None) \<and> json_sim (JMap [(''a'', JLong 1), (''b'', JNull)]) u"
proof (rule generate_parse_roundtrip)
  let ?t = "JMap [(''a'', JLong 1), (''b'', JNull)]"
  show "jdGenerator_generate rev (\<lambda>cs. ''doc'') (\<lambda>n. True) ?t = Ret (''doc'', 3)"
    by (simp add: jdGenerator_generate_def)
  have "as_events [] (jdGenerator_generate_node rev ?t) = events (JMap [(''b'', JNull), (''a'', JLong 1)])"
    by (simp add: reorder_def yajl_gen_string_def c_str_def)
  then show "yajl_reads (yajl_for (JMap [(''b'', JNull), (''a'', JLong 1)])) ''doc''
      (as_events [] (jdGenerator_generate_node rev ?t))"
    by (simp only: yajl_for_reads)
qed (simp_all add: permutes_keys_def nul_free_def)

text \<open>
  C26: every document the parser returns satisfies the invariant of the document type, at every
  level: the keys of a map are distinct C strings, whatever keys the text repeats.
\<close>

theorem parsed_document_wf:
  assumes "yajl_reads Y buffer (events t)" and "small_strings t" and "length buffer < 2 ^ 32"
  shows "\<exists>d. parse_document E Y buffer (word_of_nat (length buffer)) = Ret (Some d, None) \<and> wf_json d"
  using parse_document_events [OF assms(1,2) len_cast [OF assms(3)]] wf_canon by blast

lemma parsed_document_wf_witness:
  "\<exists>d. parse_document \<lparr>gnu_variant = True, gnu_strerror = (\<lambda>e n. ''error''),
       xsi_strerror = (\<lambda>e n. (0, ''error'')), utf8_charset = True, locale_to_utf8 = Some,
       errno_left = (\<lambda>e old. old)\<rparr> (yajl_for sample_tree) ''doc'' (word_of_nat (length ''doc'')) =
     Ret (Some d, None) \<and> wf_json d"
  by (rule parsed_document_wf [OF yajl_for_reads]) (simp_all add: sample_tree_def)

end
