(* ===== verification/Transport.thy ===== *)
theory Transport
  imports Json_Gen
begin

text \<open>
  The two pipes of \<open>src/ioprocess.c\<close>: \<open>requestReader\<close> cuts the byte stream of the
  read pipe into requests, \<open>responseWriter\<close> turns responses into the byte stream of the
  write pipe. A message is an 8-byte little-endian length and that many bytes. What the
  kernel does with each \<open>read\<close> and \<open>write\<close> is an explicit schedule.
\<close>

section \<open>Bytes of a 64-bit length\<close>

fun le_bytes :: "nat \<Rightarrow> nat \<Rightarrow> string" where
  "le_bytes 0 n = []"
| "le_bytes (Suc k) n = char_of (n mod 256) # le_bytes k (n div 256)"

fun le_nat :: "string \<Rightarrow> nat" where
  "le_nat [] = 0"
| "le_nat (c # cs) = of_char c + 256 * le_nat cs"

lemma length_le_bytes [simp]: "length (le_bytes k n) = k"
  by (induction k arbitrary: n) auto

lemma le_nat_bytes: "le_nat (le_bytes k n) = n mod 256 ^ k"
proof (induction k arbitrary: n)
  case 0
  then show ?case by simp
next
  case (Suc k)
  have "n mod 256 ^ Suc k = n mod 256 + 256 * (n div 256 mod 256 ^ k)"
    by (simp add: mod_mult2_eq)
  with Suc show ?case by simp
qed

lemma le_nat_id [simp]: "n < 2 ^ 64 \<Longrightarrow> le_nat (le_bytes 8 n) = n"
  by (simp add: le_nat_bytes)

definition word_bytes :: "c_long \<Rightarrow> string" where
  "word_bytes w = le_bytes 8 (unat w)"

definition bytes_word :: "string \<Rightarrow> c_long" where
  "bytes_word bs = word_of_nat (le_nat bs)"

lemma unat_c_long_less [simp]: "unat (w :: c_long) < 2 ^ 64"
proof -
  have "unat w < 2 ^ LENGTH(64)" by (rule unsigned_less)
  then show ?thesis by simp
qed

lemma bytes_word_bytes [simp]: "bytes_word (word_bytes w) = w"
proof -
  have "le_nat (le_bytes 8 (unat w)) = unat w" by (rule le_nat_id) (rule unat_c_long_less)
  then show ?thesis by (simp add: bytes_word_def word_bytes_def)
qed

text \<open>The bytes a short read leaves in place are those of the previous value.\<close>

definition overwrite :: "string \<Rightarrow> c_long \<Rightarrow> c_long" where
  "overwrite bs w = bytes_word (bs @ drop (length bs) (word_bytes w))"

section \<open>Framing\<close>

text \<open>The wire format, as both ends of a pipe see it.\<close>

definition frame :: "string \<Rightarrow> string" where
  "frame m = word_bytes (word_of_nat (length m)) @ m"

definition unframe :: "string \<Rightarrow> (string \<times> string) option" where
  "unframe bs =
     (if length bs < 8 then None
      else let n = unat (bytes_word (take 8 bs)) in
        if length bs < 8 + n then None
        else Some (take n (drop 8 bs), drop (8 + n) bs))"

definition frameable :: "string \<Rightarrow> bool" where
  "frameable m \<longleftrightarrow> length m < 2 ^ 64"

text \<open>
  A framing lets a receiver cut a stream of messages whatever follows them. The clients'
  facts are proved for any framing.
\<close>

fun decode_n :: "(string \<Rightarrow> (string \<times> string) option) \<Rightarrow> nat \<Rightarrow> string \<Rightarrow> string list" where
  "decode_n dec 0 bs = []"
| "decode_n dec (Suc k) bs =
     (case dec bs of None \<Rightarrow> [] | Some (m, rest) \<Rightarrow> m # decode_n dec k rest)"

locale framing =
  fixes enc :: "string \<Rightarrow> string"
    and dec :: "string \<Rightarrow> (string \<times> string) option"
    and ok :: "string \<Rightarrow> bool"
  assumes dec_enc: "ok m \<Longrightarrow> dec (enc m @ rest) = Some (m, rest)"
    and dec_Nil: "dec [] = None"
begin

lemma decode_stream:
  "list_all ok ms \<Longrightarrow> length ms \<le> k \<Longrightarrow> decode_n dec k (concat (map enc ms)) = ms"
proof (induction ms arbitrary: k)
  case Nil
  then show ?case by (cases k) (simp_all add: dec_Nil)
next
  case (Cons m ms)
  then show ?case by (cases k) (simp_all add: dec_enc)
qed

lemma stream_inj:
  assumes "list_all ok ms" and "list_all ok ms'" and eq: "concat (map enc ms) = concat (map enc ms')"
  shows "ms = ms'"
proof -
  let ?k = "length ms + length ms'"
  have "ms = decode_n dec ?k (concat (map enc ms))"
    by (rule decode_stream [symmetric]) (use assms in auto)
  also have "\<dots> = ms'"
    unfolding eq by (rule decode_stream) (use assms in auto)
  finally show ?thesis .
qed

end

lemma unat_length: "frameable m \<Longrightarrow> unat (word_of_nat (length m) :: c_long) = length m"
  by (simp add: frameable_def unat_of_nat take_bit_nat_eq_self)

lemma length_word_bytes [simp]: "length (word_bytes w) = 8"
  by (simp add: word_bytes_def)

interpretation wire: framing frame unframe frameable
proof
  fix m rest
  assume "frameable m"
  then show "unframe (frame m @ rest) = Some (m, rest)"
    by (simp add: unframe_def frame_def Let_def unat_length)
next
  show "unframe [] = None" by (simp add: unframe_def)
qed

section \<open>What the kernel does\<close>

text \<open>
  The read pipe: the bytes up to its end, and the choices for the reads to come. A read
  gets at least one byte unless the pipe is at its end or none is asked for; it may
  get less than asked for, or fail. With no choice left, reads get all they ask for. No
  read moves more than \<open>MAX_RW_COUNT\<close> bytes. A read that asks for more than \<open>SSIZE_MAX\<close>
  bytes, which the standard leaves to the system, fails at once as it does on Linux: no
  buffer of that size fits the address space, and the error is \<open>EFAULT\<close>.
\<close>

datatype rd = Upto nat | RdErr int

record pipe =
  inbuf :: string
  sched :: "rd list"

definition MAX_RW_COUNT :: nat where
  "MAX_RW_COUNT = 0x7ffff000"

definition SSIZE_MAX :: nat where
  "SSIZE_MAX = 2 ^ 63 - 1"

definition take_pipe :: "nat \<Rightarrow> pipe \<Rightarrow> string \<times> pipe" where
  "take_pipe k p = (take (min k MAX_RW_COUNT) (inbuf p),
     p\<lparr>inbuf := drop (min k MAX_RW_COUNT) (inbuf p), sched := tl (sched p)\<rparr>)"

datatype rd_result = Got string | Failed int

definition read_pipe :: "nat \<Rightarrow> pipe \<Rightarrow> rd_result \<times> pipe" where
  "read_pipe n p =
     (if SSIZE_MAX < n then (Failed EFAULT, p)
      else case sched p of
        [] \<Rightarrow> map_prod Got id (take_pipe n p)
      | Upto k # _ \<Rightarrow> map_prod Got id (take_pipe (min n (max 1 k)) p)
      | RdErr e # _ \<Rightarrow> (Failed e, p\<lparr>sched := tl (sched p)\<rparr>))"

section \<open>The request reader\<close>

text \<open>
  The locals of \<open>requestReader\<close>. \<open>buffer\<close> is the part of the request buffer that holds
  bytes of the current message; the buffer has \<open>reqSize + 1\<close> bytes, as a wrapping
  64-bit number. The result of \<open>malloc\<close> for a size, none or an error number, is a
  parameter.
\<close>

record reader =
  pipe :: pipe
  reqSize :: c_long
  bytesPending :: c_long
  buffer :: string
  requests :: "json list"

definition reader_init :: "pipe \<Rightarrow> reader" where
  "reader_init p =
     \<lparr>pipe = p, reqSize = 0, bytesPending = 0, buffer = [], requests = []\<rparr>"

text \<open>The header of a message: a new state, or the error that ends the loop.\<close>

definition read_header :: "(nat \<Rightarrow> int option) \<Rightarrow> reader \<Rightarrow> int + reader" where
  "read_header malloc_err r =
     (case read_pipe 8 (pipe r) of
        (Failed e, p) \<Rightarrow> Inl e
      | (Got bs, p) \<Rightarrow>
          let size = overwrite bs (reqSize r) in
          (case malloc_err (unat (size + 1)) of
             Some e \<Rightarrow> Inl e
           | None \<Rightarrow> Inr (r\<lparr>pipe := p, reqSize := size, bytesPending := size, buffer := []\<rparr>)))"

text \<open>A complete message is parsed and queued; the text of a failure is \<open>err->message\<close>.\<close>

definition queue_request :: "strerror_env \<Rightarrow> yajl \<Rightarrow> reader \<Rightarrow> (int + reader) outcome" where
  "queue_request E Y r =
     bind_outcome (parse_document E Y (buffer r) (reqSize r)) (\<lambda>(requestObj, err).
       case requestObj of
         None \<Rightarrow> (case err of None \<Rightarrow> Undef | Some _ \<Rightarrow> Ret (Inl EINVAL))
       | Some d \<Rightarrow> Ret (Inr (r\<lparr>buffer := [], requests := requests r @ [d]\<rparr>)))"

text \<open>
  The rest of one iteration. A read that delivers more bytes than the buffer has room
  for runs over its end.
\<close>

definition read_body_chunk :: "strerror_env \<Rightarrow> yajl \<Rightarrow> reader \<Rightarrow> (int + reader) outcome" where
  "read_body_chunk E Y r =
     (case read_pipe (unat (bytesPending r)) (pipe r) of
        (Failed e, p) \<Rightarrow> Ret (Inl e)
      | (Got bs, p) \<Rightarrow>
          if bs = [] then Ret (Inl EPIPE)
          else if unat (reqSize r + 1) < length (buffer r) + length bs then Undef
          else
            let r = r\<lparr>pipe := p, buffer := buffer r @ bs,
                      bytesPending := bytesPending r - word_of_nat (length bs)\<rparr> in
            if bytesPending r \<noteq> 0 then Ret (Inr r) else queue_request E Y r)"

lemma queue_request_frame [frame_simps]:
  "queue_request E Y r = Ret (Inr r') \<Longrightarrow> pipe r' = pipe r"
  by (auto simp: queue_request_def bind_outcome_eq_Ret split: option.splits)

definition reader_step :: "strerror_env \<Rightarrow> yajl \<Rightarrow> (nat \<Rightarrow> int option) \<Rightarrow> reader
    \<Rightarrow> (int + reader) outcome" where
  "reader_step E Y malloc_err r =
     (if bytesPending r = 0 then
        (case read_header malloc_err r of
           Inl e \<Rightarrow> Ret (Inl e)
         | Inr r \<Rightarrow> read_body_chunk E Y r)
      else read_body_chunk E Y r)"

text \<open>Every iteration that goes on has taken at least one byte off the pipe.\<close>

lemma take_pipe_left: "take_pipe k p = (bs, p') \<Longrightarrow> length (inbuf p) = length bs + length (inbuf p')"
  by (auto simp: take_pipe_def)

lemma read_pipe_left:
  "read_pipe n p = (Got bs, p') \<Longrightarrow> length (inbuf p) = length bs + length (inbuf p')"
  by (auto simp: read_pipe_def take_pipe_def map_prod_def split: list.splits rd.splits if_splits)

lemma read_header_left:
  "read_header M r = Inr r' \<Longrightarrow> length (inbuf (pipe r')) \<le> length (inbuf (pipe r))"
  by (auto simp: read_header_def Let_def dest!: read_pipe_left
      split: prod.splits rd_result.splits option.splits)

lemma read_body_left:
  "read_body_chunk E Y r = Ret (Inr r') \<Longrightarrow> length (inbuf (pipe r')) < length (inbuf (pipe r))"
  by (auto simp: read_body_chunk_def Let_def dest!: read_pipe_left queue_request_frame
      split: prod.splits rd_result.splits if_splits)

lemma reader_step_left:
  "reader_step E Y M r = Ret (Inr r') \<Longrightarrow> length (inbuf (pipe r')) < length (inbuf (pipe r))"
  by (auto simp: reader_step_def dest!: read_body_left dest: read_header_left
      split: if_splits sum.splits)

text \<open>The requests queued before the stop mark, and the error of the thread's result.\<close>

function reader_loop :: "strerror_env \<Rightarrow> yajl \<Rightarrow> (nat \<Rightarrow> int option) \<Rightarrow> reader
    \<Rightarrow> (json list \<times> int) outcome" where
  "reader_loop E Y malloc_err r =
     (case reader_step E Y malloc_err r of
        Ret (Inl rv) \<Rightarrow> Ret (requests r, rv)
      | Ret (Inr r') \<Rightarrow> reader_loop E Y malloc_err r'
      | Exit n \<Rightarrow> Exit n
      | Undef \<Rightarrow> Undef
      | Diverge \<Rightarrow> Diverge)"
  by auto
termination
  by (relation "measure (\<lambda>(E, Y, M, r). length (inbuf (pipe r)))") (auto dest: reader_step_left)

declare reader_loop.simps [simp del]

section \<open>Reading a stream of requests\<close>

text \<open>
  The schedules under which a stream is read whole: no read fails, and the read of a
  header is not cut short. The reads of a body may be cut as one likes; \<open>body_sched n\<close>
  is what is left of a schedule after the reads that take \<open>n\<close> bytes.
\<close>

fun no_error :: "rd \<Rightarrow> bool" where
  "no_error (Upto k) = True"
| "no_error (RdErr e) = False"

fun body_sched :: "nat \<Rightarrow> rd list \<Rightarrow> rd list option" where
  "body_sched n [] = Some []"
| "body_sched n (Upto k # r) =
     (let t = min (min n (max 1 k)) MAX_RW_COUNT in if t = n then Some r else body_sched (n - t) r)"
| "body_sched n (RdErr e # r) = None"

fun good_sched :: "string list \<Rightarrow> rd list \<Rightarrow> bool" where
  "good_sched ms [] \<longleftrightarrow> True"
| "good_sched [] sch \<longleftrightarrow> list_all no_error sch"
| "good_sched (m # ms) (RdErr e # r) \<longleftrightarrow> False"
| "good_sched (m # ms) (Upto k # r) \<longleftrightarrow>
     8 \<le> k \<and> (case body_sched (length m) r of None \<Rightarrow> False | Some r' \<Rightarrow> good_sched ms r')"

lemma MAX_RW_COUNT_pos [simp]: "0 < MAX_RW_COUNT" "8 \<le> MAX_RW_COUNT"
  by (simp_all add: MAX_RW_COUNT_def)

lemma SSIZE_MAX_simps [simp]: "\<not> SSIZE_MAX < 8" "\<not> SSIZE_MAX < 0"
  by (simp_all add: SSIZE_MAX_def)

lemma SSIZE_MAX_small:
  "n < 2 ^ 32 \<Longrightarrow> n \<le> SSIZE_MAX" "n \<le> MAX_RW_COUNT \<Longrightarrow> n \<le> SSIZE_MAX"
  by (simp_all add: SSIZE_MAX_def MAX_RW_COUNT_def)

text \<open>A read of \<open>n\<close> wanted bytes that are there takes some of them, and the schedule goes on.\<close>

lemma read_pipe_wanted:
  assumes "body_sched n (sched p) = Some r'" and "0 < n" and "inbuf p = m @ rest" and "length m = n"
    and "n \<le> SSIZE_MAX"
  obtains t p' where "read_pipe n p = (Got (take t m), p')" "0 < t" "t \<le> n"
    "inbuf p' = drop t m @ rest"
    "if t = n then sched p' = r' else body_sched (n - t) (sched p') = Some r'"
proof (cases "sched p")
  case Nil
  then have "read_pipe n p = (Got (take (min n MAX_RW_COUNT) m),
      p\<lparr>inbuf := drop (min n MAX_RW_COUNT) m @ rest, sched := []\<rparr>)"
    using assms by (auto simp: read_pipe_def take_pipe_def)
  then show thesis
    by (rule that) (use Nil assms in \<open>auto simp: min_def\<close>)
next
  case (Cons x xs)
  with assms(1) obtain k where x: "x = Upto k" by (cases x) auto
  define t where "t = min (min n (max 1 k)) MAX_RW_COUNT"
  have t: "0 < t" "t \<le> n" using assms(2) by (auto simp: t_def)
  have rd: "read_pipe n p = (Got (take t m), p\<lparr>inbuf := drop t m @ rest, sched := xs\<rparr>)"
    using Cons x assms(2-5) t(2) by (simp add: read_pipe_def take_pipe_def t_def not_less)
  have "(if t = n then Some xs else body_sched (n - t) xs) = Some r'"
    using assms(1) unfolding Cons x body_sched.simps Let_def t_def .
  then have "if t = n then xs = r' else body_sched (n - t) xs = Some r'"
    by (simp split: if_split_asm)
  then show thesis by (intro that [OF rd t]) simp_all
qed

text \<open>The body of a message, from any point in it to its delivery.\<close>

lemma word_sub_len:
  "t \<le> n \<Longrightarrow> (word_of_nat n :: c_long) - word_of_nat t = word_of_nat (n - t)"
  by (simp add: of_nat_diff)

lemma unat_c_long_of_nat: "n < 2 ^ 64 \<Longrightarrow> unat (word_of_nat n :: c_long) = n"
  by (simp add: unat_of_nat take_bit_nat_eq_self)

lemma word_of_nat_0_iff: "n < 2 ^ 64 \<Longrightarrow> (word_of_nat n :: c_long) = 0 \<longleftrightarrow> n = 0"
  by (drule unat_c_long_of_nat) auto

definition delivers :: "strerror_env \<Rightarrow> yajl \<Rightarrow> string \<Rightarrow> json \<Rightarrow> bool" where
  "delivers E Y m d \<longleftrightarrow> m \<noteq> [] \<and> length m \<le> SSIZE_MAX \<and>
     (\<exists>err. parse_document E Y m (word_of_nat (length m)) = Ret (Some d, err))"

lemma reader_body:
  assumes "delivers E Y msg d" and "reqSize r = word_of_nat (length msg)"
    and "bytesPending r = word_of_nat n" and "0 < n" and "msg = buffer r @ m" and "length m = n"
    and "inbuf (pipe r) = m @ rest" and "body_sched n (sched (pipe r)) = Some sch"
  shows "reader_loop E Y M r = reader_loop E Y M
    (r\<lparr>pipe := \<lparr>inbuf = rest, sched = sch\<rparr>, bytesPending := 0, buffer := [],
      requests := requests r @ [d]\<rparr>)"
  using assms
proof (induction n arbitrary: r m rule: less_induct)
  case (less n)
  have lt: "n < 2 ^ 64" "length msg < 2 ^ 64" "Suc (length msg) < 2 ^ 64" "n \<le> SSIZE_MAX"
    using less.prems(1,5,6) by (auto simp: delivers_def SSIZE_MAX_def)
  have pend: "unat (bytesPending r) = n" "bytesPending r \<noteq> 0"
    using less.prems(3,4) unat_c_long_of_nat [OF lt(1)] word_of_nat_0_iff [OF lt(1)] by simp_all
  have room: "unat (reqSize r + 1) = Suc (length msg)"
  proof -
    have "reqSize r + 1 = word_of_nat (Suc (length msg))" using less.prems(2) by simp
    then show ?thesis using unat_c_long_of_nat [OF lt(3)] by (simp only:)
  qed
  obtain t p' where rd: "read_pipe n (pipe r) = (Got (take t m), p')" "0 < t" "t \<le> n"
    "inbuf p' = drop t m @ rest"
    "if t = n then sched p' = sch else body_sched (n - t) (sched p') = Some sch"
    using read_pipe_wanted [OF less.prems(8,4,7,6) lt(4)] by blast
  have tm: "take t m \<noteq> []" "length (take t m) = t" using rd(2,3) less.prems(6) by auto
  let ?r = "r\<lparr>pipe := p', buffer := buffer r @ take t m, bytesPending := word_of_nat (n - t)\<rparr>"
  have sub: "bytesPending r - word_of_nat t = word_of_nat (n - t)"
    by (simp only: less.prems(3) word_sub_len [OF rd(3)])
  have fit: "\<not> unat (reqSize r + 1) < length (buffer r) + length (take t m)"
    using room less.prems(5,6) rd(3) by simp
  have step: "reader_step E Y M r =
      (if word_of_nat (n - t) \<noteq> (0 :: c_long) then Ret (Inr ?r) else queue_request E Y ?r)"
    using tm fit pend rd(1) sub by (simp add: reader_step_def read_body_chunk_def Let_def)
  show ?case
  proof (cases "t = n")
    case True
    then have "buffer ?r = msg" using less.prems(5,6) by simp
    moreover obtain err where "parse_document E Y msg (word_of_nat (length msg)) = Ret (Some d, err)"
      using less.prems(1) by (auto simp: delivers_def)
    ultimately have "reader_step E Y M r = Ret (Inr (?r\<lparr>buffer := [], requests := requests r @ [d]\<rparr>))"
      using step True less.prems(2) by (simp add: queue_request_def)
    moreover have "p' = \<lparr>inbuf = rest, sched = sch\<rparr>"
      using rd(4,5) True less.prems(6) by (cases p') auto
    ultimately show ?thesis using True
      by (subst reader_loop.simps) simp
  next
    case False
    then have nz: "word_of_nat (n - t) \<noteq> (0 :: c_long)"
      using rd(3) word_of_nat_0_iff [of "n - t"] lt(1) by simp
    have "reader_loop E Y M ?r = reader_loop E Y M
        (?r\<lparr>pipe := \<lparr>inbuf = rest, sched = sch\<rparr>, bytesPending := 0, buffer := [],
          requests := requests ?r @ [d]\<rparr>)"
      using less.prems rd False
      by (intro less.IH [of "n - t" ?r "drop t m"]) auto
    then show ?thesis using step nz by (subst reader_loop.simps) simp
  qed
qed

lemma overwrite_all [simp]: "overwrite (word_bytes v) w = v"
  by (simp add: overwrite_def)

lemma overwrite_none [simp]: "overwrite [] w = w"
  by (simp add: overwrite_def)

lemma reader_header:
  assumes "inbuf (pipe r) = frame m @ rest" and "\<forall>n. M n = None"
    and "case sched (pipe r) of Upto k # _ \<Rightarrow> 8 \<le> k | RdErr _ # _ \<Rightarrow> False | [] \<Rightarrow> True"
  shows "read_header M r = Inr (r\<lparr>pipe := \<lparr>inbuf = m @ rest, sched = tl (sched (pipe r))\<rparr>,
    reqSize := word_of_nat (length m), bytesPending := word_of_nat (length m), buffer := []\<rparr>)"
proof -
  have 8: "min (8 :: nat) MAX_RW_COUNT = 8" "min (min (8 :: nat) (max (Suc 0) k)) MAX_RW_COUNT = 8"
    if "8 \<le> k" for k
    using that MAX_RW_COUNT_pos(2) by (simp_all add: min_def max_def)
  have "read_pipe 8 (pipe r) =
      (Got (word_bytes (word_of_nat (length m))), \<lparr>inbuf = m @ rest, sched = tl (sched (pipe r))\<rparr>)"
    using assms(1,3) 8
    by (cases "pipe r") (auto simp: read_pipe_def take_pipe_def frame_def split: list.splits rd.splits)
  then show ?thesis using assms(2) by (simp add: read_header_def Let_def)
qed

lemma reader_header_step:
  assumes "bytesPending r = 0" and "read_header M r = Inr r'" and "bytesPending r' \<noteq> 0"
  shows "reader_loop E Y M r = reader_loop E Y M r'"
proof -
  have "requests r' = requests r"
    using assms(2) by (auto simp: read_header_def Let_def split: prod.splits rd_result.splits option.splits)
  then show ?thesis
    using assms by (simp add: reader_loop.simps [of E Y M r] reader_loop.simps [of E Y M r'] reader_step_def
      split: outcome.split sum.split)
qed

text \<open>At the end of the pipe the thread stops with \<open>EPIPE\<close>.\<close>

lemma read_pipe_eof:
  assumes "inbuf p = []" and "list_all no_error (sched p)" and "n \<le> SSIZE_MAX"
  shows "\<exists>p'. read_pipe n p = (Got [], p') \<and> inbuf p' = [] \<and> list_all no_error (sched p')"
  using assms by (auto simp: read_pipe_def take_pipe_def split: list.splits rd.splits)

lemma reader_eof:
  assumes "bytesPending r = 0" and "inbuf (pipe r) = []" and "list_all no_error (sched (pipe r))"
    and "\<forall>n. M n = None" and "unat (reqSize r) \<le> SSIZE_MAX"
  shows "reader_loop E Y M r = Ret (requests r, EPIPE)"
proof -
  obtain p where p: "read_pipe 8 (pipe r) = (Got [], p)" "inbuf p = []" "list_all no_error (sched p)"
    using read_pipe_eof [OF assms(2,3), of 8] by (auto simp: not_less [symmetric])
  then obtain p' where "read_pipe (unat (reqSize r)) p = (Got [], p')"
    using read_pipe_eof [OF _ _ assms(5)] by blast
  with p assms(1,4) have "reader_step E Y M r = Ret (Inl EPIPE)"
    by (simp add: reader_step_def read_header_def Let_def read_body_chunk_def)
  then show ?thesis by (simp add: reader_loop.simps)
qed

lemma reader_stream:
  assumes "list_all2 (delivers E Y) ms ds" and "good_sched ms (sched (pipe r))"
    and "inbuf (pipe r) = concat (map frame ms)" and "bytesPending r = 0" and "\<forall>n. M n = None"
    and "unat (reqSize r) \<le> SSIZE_MAX"
  shows "reader_loop E Y M r = Ret (requests r @ ds, EPIPE)"
  using assms
proof (induction ms arbitrary: ds r)
  case Nil
  then have "list_all no_error (sched (pipe r))"
    by (cases "sched (pipe r)") auto
  with Nil show ?case by (simp add: reader_eof)
next
  case (Cons m ms)
  then obtain d ds' where ds: "ds = d # ds'" "delivers E Y m d" "list_all2 (delivers E Y) ms ds'"
    by (auto simp: list_all2_Cons1)
  let ?rest = "concat (map frame ms)"
  obtain sch where sch: "body_sched (length m) (tl (sched (pipe r))) = Some sch" "good_sched ms sch"
    and h: "case sched (pipe r) of Upto k # _ \<Rightarrow> 8 \<le> k | RdErr _ # _ \<Rightarrow> False | [] \<Rightarrow> True"
    using Cons.prems(2) by (auto split: list.splits rd.splits option.splits elim!: good_sched.elims)
  let ?r = "r\<lparr>pipe := \<lparr>inbuf = m @ ?rest, sched = tl (sched (pipe r))\<rparr>,
    reqSize := word_of_nat (length m), bytesPending := word_of_nat (length m), buffer := []\<rparr>"
  have len: "0 < length m" "length m < 2 ^ 64" using ds(2) by (auto simp: delivers_def SSIZE_MAX_def)
  have size: "unat (word_of_nat (length m) :: c_long) \<le> SSIZE_MAX"
    using ds(2) unat_c_long_of_nat [OF len(2)] by (simp add: delivers_def)
  have nz: "bytesPending ?r \<noteq> 0" using word_of_nat_0_iff [OF len(2)] len(1) by simp
  have "read_header M r = Inr ?r"
    using Cons.prems(3,5) h by (intro reader_header) simp_all
  then have "reader_loop E Y M r = reader_loop E Y M ?r"
    by (rule reader_header_step [OF Cons.prems(4) _ nz])
  also have "\<dots> = reader_loop E Y M
      (?r\<lparr>pipe := \<lparr>inbuf = ?rest, sched = sch\<rparr>, bytesPending := 0, buffer := [],
        requests := requests ?r @ [d]\<rparr>)"
    using ds(2) sch(1) len by (intro reader_body [of _ _ m _ _ "length m" m]) auto
  also have "\<dots> = Ret (requests r @ ds, EPIPE)"
    using Cons.prems(5) ds sch(2) size by (subst Cons.IH) auto
  finally show ?case .
qed

section \<open>The response writer\<close>

text \<open>
  The write pipe: the bytes it took so far, and the choices for the writes to come. A
  write may take fewer bytes than it is given, none, or fail.
\<close>

datatype wr = Wrote nat | WrErr int

record wpipe =
  outbuf :: string
  wsched :: "wr list"

datatype wr_result = Put nat | WFailed int

definition write_pipe :: "string \<Rightarrow> wpipe \<Rightarrow> wr_result \<times> wpipe" where
  "write_pipe bs p =
     (case wsched p of
        WrErr e # sch \<Rightarrow> (WFailed e, p\<lparr>wsched := sch\<rparr>)
      | _ \<Rightarrow>
          let k = (case wsched p of Wrote k # _ \<Rightarrow> min k (length bs) | _ \<Rightarrow> length bs);
              n = min k MAX_RW_COUNT
          in (Put n, p\<lparr>outbuf := outbuf p @ take n bs, wsched := tl (wsched p)\<rparr>))"

text \<open>
  The locals of \<open>responseWriter\<close> and its \<open>errno\<close>, which a write that takes no byte
  leaves as the last failure set it.
\<close>

record writer =
  wpipe :: wpipe
  werrno :: int
  wbuffer :: string
  bytesWritten :: c_long
  bufflen :: c_long

definition writer_init :: "wpipe \<Rightarrow> writer" where
  "writer_init p = \<lparr>wpipe = p, werrno = 0, wbuffer = [], bytesWritten = 0, bufflen = 0\<rparr>"

text \<open>
  A step gives a new state, or the error number that ends the loop (0 for the stop
  mark) with the state it ends in.
\<close>

definition wrote :: "writer \<Rightarrow> wr_result \<times> wpipe \<Rightarrow> int \<times> writer + writer" where
  "wrote w = (\<lambda>(r, p). case r of
       WFailed e \<Rightarrow>
         let w = w\<lparr>wpipe := p, werrno := e\<rparr> in if e = EAGAIN then Inr w else Inl (e, w)
     | Put n \<Rightarrow>
         let w = w\<lparr>wpipe := p\<rparr> in
         if n = 0 then (if werrno w = EAGAIN then Inr w else Inl (werrno w, w))
         else Inr (w\<lparr>bytesWritten := bytesWritten w + word_of_nat n\<rparr>))"

definition unwritten :: "writer \<Rightarrow> string" where
  "unwritten w =
     take (unat (bufflen w - bytesWritten w)) (drop (unat (bytesWritten w)) (wbuffer w))"

definition write_chunk :: "writer \<Rightarrow> (int \<times> writer + writer) outcome" where
  "write_chunk w =
     (if length (unwritten w) < unat (bufflen w - bytesWritten w) then Undef
      else Ret (wrote w (write_pipe (unwritten w) (wpipe w))))"

definition write_header :: "string \<Rightarrow> c_long \<Rightarrow> writer \<Rightarrow> int \<times> writer + writer" where
  "write_header text len w =
     (let w = w\<lparr>wbuffer := text, bufflen := len\<rparr> in
      case write_pipe (word_bytes len) (wpipe w) of
        (WFailed e, p) \<Rightarrow> Inl (e, w\<lparr>wpipe := p, werrno := e\<rparr>)
      | (Put n, p) \<Rightarrow> Inr (w\<lparr>wpipe := p, bytesWritten := 0\<rparr>))"

definition write_more :: "json list \<Rightarrow> writer \<Rightarrow> (int \<times> writer + json list \<times> writer) outcome" where
  "write_more queue w = bind_outcome (write_chunk w) (\<lambda>r. Ret (map_sum id (Pair queue) r))"

definition start_response :: "(json \<Rightarrow> (string \<times> c_long) outcome) \<Rightarrow> json \<Rightarrow> json list \<Rightarrow> writer
    \<Rightarrow> (int \<times> writer + json list \<times> writer) outcome" where
  "start_response generate responseObj queue w =
     bind_outcome (generate responseObj) (\<lambda>(text, len).
       case write_header text len w of
         Inl e \<Rightarrow> Ret (Inl e)
       | Inr w \<Rightarrow> write_more queue w)"

text \<open>The queue holds the responses pushed before the stop mark.\<close>

definition writer_step :: "(json \<Rightarrow> (string \<times> c_long) outcome) \<Rightarrow> json list \<times> writer
    \<Rightarrow> (int \<times> writer + json list \<times> writer) outcome" where
  "writer_step generate = (\<lambda>(queue, w).
     if bytesWritten w = bufflen w then
       (case queue of
          [] \<Rightarrow> Ret (Inl (0, w))
        | responseObj # queue \<Rightarrow> start_response generate responseObj queue w)
     else write_more queue w)"

text \<open>
  Each step takes a response, or a choice of the kernel, or writes all it is asked to.
\<close>

definition writer_left :: "writer \<Rightarrow> nat" where
  "writer_left w = length (wsched (wpipe w)) + unat (bufflen w - bytesWritten w)"

lemma write_pipe_full:
  "write_pipe bs p = (r, p') \<Longrightarrow> wsched p = [] \<Longrightarrow>
   r = Put (min (length bs) MAX_RW_COUNT) \<and> wsched p' = []"
  by (auto simp: write_pipe_def Let_def)

lemma write_pipe_choice:
  "write_pipe bs p = (r, p') \<Longrightarrow> wsched p \<noteq> [] \<Longrightarrow>
   Suc (length (wsched p')) = length (wsched p) \<and> (\<forall>n. r = Put n \<longrightarrow> n \<le> length bs)"
  by (auto simp: write_pipe_def Let_def split: list.splits wr.splits)

lemma unat_minus_less:
  fixes a b :: c_long
  assumes "n \<le> unat (a - b)"
  shows "unat (a - (b + word_of_nat n)) = unat (a - b) - n"
proof -
  have n: "unat (word_of_nat n :: c_long) = n"
    using assms unat_c_long_less [of "a - b"] by (intro unat_c_long_of_nat) simp
  have "a - (b + word_of_nat n) = (a - b) - word_of_nat n" by simp
  moreover have "word_of_nat n \<le> a - b" using assms n by (simp add: word_le_nat_alt)
  ultimately show ?thesis using n by (simp only: unat_sub)
qed

lemma length_unwritten: "length (unwritten w) \<le> unat (bufflen w - bytesWritten w)"
  by (simp add: unwritten_def)

lemma write_chunk_left:
  assumes "write_chunk w = Ret (Inr w')" and "bytesWritten w \<noteq> bufflen w"
  shows "writer_left w' < writer_left w"
proof -
  define count where "count = unat (bufflen w - bytesWritten w)"
  obtain r p where wp: "write_pipe (unwritten w) (wpipe w) = (r, p)" by fastforce
  have c: "0 < count" using assms(2) by (simp add: count_def unat_gt_0)
  from assms(1) wp have len: "length (unwritten w) = count" and w': "wrote w (r, p) = Inr w'"
    using length_unwritten [of w] by (auto simp: write_chunk_def count_def split: if_splits)
  show ?thesis
  proof (cases "wsched (wpipe w)")
    case Nil
    from write_pipe_full [OF wp Nil] len have r: "r = Put (min count MAX_RW_COUNT)" "wsched p = []"
      by simp_all
    then have "w' = w\<lparr>wpipe := p, bytesWritten := bytesWritten w + word_of_nat (min count MAX_RW_COUNT)\<rparr>"
      using w' c by (auto simp: wrote_def Let_def split: if_splits)
    then show ?thesis
      using r(2) Nil c unat_minus_less [of "min count MAX_RW_COUNT" "bufflen w" "bytesWritten w"]
      by (simp add: writer_left_def count_def)
  next
    case (Cons x xs)
    with write_pipe_choice [OF wp] len have p: "Suc (length (wsched p)) = length (wsched (wpipe w))"
      "\<And>n. r = Put n \<Longrightarrow> n \<le> count" by auto
    have "wpipe w' = p \<and> bufflen w' = bufflen w \<and>
      (bytesWritten w' = bytesWritten w \<or> (\<exists>n \<le> count. bytesWritten w' = bytesWritten w + word_of_nat n))"
      using w' p(2) by (auto simp: wrote_def Let_def split: wr_result.splits if_splits)
    then show ?thesis
      using p(1) unat_minus_less [of _ "bufflen w" "bytesWritten w"]
      by (auto simp: writer_left_def count_def)
  qed
qed

lemma map_sum_Inr: "map_sum f g x = Inr y \<longleftrightarrow> (\<exists>z. x = Inr z \<and> y = g z)"
  by (cases x) auto

lemma write_more_left:
  "write_more q w = Ret (Inr (q', w')) \<Longrightarrow> q' = q \<and> write_chunk w = Ret (Inr w')"
  by (auto simp: write_more_def bind_outcome_eq_Ret map_sum_Inr)

lemma start_response_left:
  assumes "start_response G d q w = Ret (Inr (q', w'))"
  shows "q' = q"
proof -
  obtain bs len where "(case write_header bs len w of Inl e \<Rightarrow> Ret (Inl e)
      | Inr w \<Rightarrow> write_more q w) = Ret (Inr (q', w'))"
    using assms by (auto simp: start_response_def bind_outcome_eq_Ret)
  then show ?thesis by (cases "write_header bs len w") (auto dest: write_more_left)
qed

lemma writer_step_left:
  assumes "writer_step G (q, w) = Ret (Inr (q', w'))"
  shows "length q' < length q \<or> q' = q \<and> writer_left w' < writer_left w"
  using assms
  by (auto simp: writer_step_def dest: start_response_left
      dest!: write_more_left write_chunk_left split: if_split_asm list.split_asm)

text \<open>The bytes on the pipe at the end, and the error number behind the thread's result.\<close>

function writer_loop :: "(json \<Rightarrow> (string \<times> c_long) outcome) \<Rightarrow> json list \<times> writer
    \<Rightarrow> (string \<times> int) outcome" where
  "writer_loop generate qw =
     (case writer_step generate qw of
        Ret (Inl (e, w)) \<Rightarrow> Ret (outbuf (wpipe w), e)
      | Ret (Inr qw') \<Rightarrow> writer_loop generate qw'
      | Exit n \<Rightarrow> Exit n
      | Undef \<Rightarrow> Undef
      | Diverge \<Rightarrow> Diverge)"
  by auto
termination
  by (relation "measures [\<lambda>(G, q, w). length q, \<lambda>(G, q, w). writer_left w]")
    (auto dest: writer_step_left)

declare writer_loop.simps [simp del]

section \<open>The results of the threads\<close>

definition new_thread_result :: "strerror_env \<Rightarrow> int \<Rightarrow> gerror option" where
  "new_thread_result E rv =
     (if rv = 0 then None else Some (mk_error IOPROCESS_GENERAL_ERROR rv (iop_msg E rv)))"

text \<open>The queued requests, which the stop mark follows, and the result of the thread.\<close>

definition requestReader :: "strerror_env \<Rightarrow> yajl \<Rightarrow> (nat \<Rightarrow> int option) \<Rightarrow> pipe
    \<Rightarrow> (json list \<times> gerror option) outcome" where
  "requestReader E Y malloc_err p =
     bind_outcome (reader_loop E Y malloc_err (reader_init p)) (\<lambda>(reqs, rv).
       Ret (reqs, new_thread_result E rv))"

text \<open>The bytes on the pipe, the result of the thread, and whether it stops the reader.\<close>

definition responseWriter :: "strerror_env \<Rightarrow> (json \<Rightarrow> (string \<times> c_long) outcome) \<Rightarrow> json list
    \<Rightarrow> wpipe \<Rightarrow> (string \<times> gerror option \<times> bool) outcome" where
  "responseWriter E generate queue p =
     bind_outcome (writer_loop generate (queue, writer_init p)) (\<lambda>(bytes, rv).
       let ret = new_thread_result E rv in Ret (bytes, ret, ret \<noteq> None))"

section \<open>Writing a stream of responses\<close>

text \<open>
  The schedules under which every response is written whole: the 8 bytes of a header
  are taken by one write, and a write of a text takes at least a byte or fails with
  \<open>EAGAIN\<close>.
\<close>

fun body_writes :: "nat \<Rightarrow> wr list \<Rightarrow> wr list option" where
  "body_writes n [] = Some []"
| "body_writes n (Wrote k # r) =
     (let t = min (min k n) MAX_RW_COUNT in
      if t = 0 then None else if t = n then Some r else body_writes (n - t) r)"
| "body_writes n (WrErr e # r) = (if e = EAGAIN then body_writes n r else None)"

fun good_wsched :: "nat list \<Rightarrow> wr list \<Rightarrow> bool" where
  "good_wsched ns [] \<longleftrightarrow> True"
| "good_wsched [] sch \<longleftrightarrow> True"
| "good_wsched (n # ns) (WrErr e # r) \<longleftrightarrow> False"
| "good_wsched (n # ns) (Wrote k # r) \<longleftrightarrow>
     8 \<le> k \<and> (case body_writes n r of None \<Rightarrow> False | Some r' \<Rightarrow> good_wsched ns r')"

definition generates :: "(json \<Rightarrow> (string \<times> c_long) outcome) \<Rightarrow> json \<Rightarrow> string \<Rightarrow> bool" where
  "generates G d t \<longleftrightarrow> G d = Ret (t, word_of_nat (length t)) \<and> t \<noteq> [] \<and> length t < 2 ^ 64"

text \<open>A writer with the last \<open>n\<close> bytes of the text \<open>t\<close> to go.\<close>

definition writing :: "string \<Rightarrow> nat \<Rightarrow> writer \<Rightarrow> bool" where
  "writing t n w \<longleftrightarrow> n \<le> length t \<and> length t < 2 ^ 64 \<and> wbuffer w = t \<and>
     bufflen w = word_of_nat (length t) \<and> bytesWritten w = word_of_nat (length t - n)"

lemma writing_unwritten:
  assumes "writing t n w"
  shows "unat (bufflen w - bytesWritten w) = n" "unwritten w = drop (length t - n) t"
proof -
  have w: "n \<le> length t" "length t < 2 ^ 64" "bufflen w = word_of_nat (length t)"
    "bytesWritten w = word_of_nat (length t - n)" "wbuffer w = t"
    using assms by (simp_all add: writing_def)
  have "bufflen w - bytesWritten w = word_of_nat (length t - (length t - n))"
    unfolding w(3,4) by (rule word_sub_len) simp
  then show 1: "unat (bufflen w - bytesWritten w) = n"
    using w(1,2) unat_c_long_of_nat [of n] by simp
  have "unat (bytesWritten w) = length t - n"
    unfolding w(4) using w(2) by (intro unat_c_long_of_nat) simp
  with 1 w show "unwritten w = drop (length t - n) t" by (simp add: unwritten_def)
qed

lemma write_more_writing:
  assumes "writing t n w"
  shows "write_more q w = Ret (map_sum id (Pair q) (wrote w (write_pipe (drop (length t - n) t) (wpipe w))))"
  using writing_unwritten [OF assms] assms by (simp add: write_more_def write_chunk_def writing_def)

lemma writing_advance:
  assumes "writing t n w" and "k \<le> n"
  shows "writing t (n - k) (w\<lparr>wpipe := p, bytesWritten := bytesWritten w + word_of_nat k\<rparr>)"
proof -
  have "word_of_nat (length t - n) + word_of_nat k = (word_of_nat (length t - (n - k)) :: c_long)"
    using assms by (simp add: writing_def flip: of_nat_add)
  moreover have "n - k \<le> length t" 
    by (rule le_trans [OF diff_le_self]) (use assms(1) in \<open>simp add: writing_def\<close>)
  ultimately show ?thesis using assms(1) by (simp add: writing_def)
qed

lemma writer_body:
  assumes "writing t n w" and "0 < n" and "body_writes n (wsched (wpipe w)) = Some sch"
  shows "\<exists>w'. writer_loop G (q, w) = writer_loop G (q, w') \<and> bytesWritten w' = bufflen w' \<and>
    wpipe w' = \<lparr>outbuf = outbuf (wpipe w) @ drop (length t - n) t, wsched = sch\<rparr>"
  using assms
proof (induction "n + length (wsched (wpipe w))" arbitrary: n w rule: less_induct)
  case less
  let ?bs = "drop (length t - n) t"
  have lbs: "length ?bs = n" using less.prems(1) by (simp add: writing_def)
  have ne: "bytesWritten w \<noteq> bufflen w"
    using writing_unwritten(1) [OF less.prems(1)] less.prems(2) by auto
  have step: "writer_step G (q, w) =
      Ret (map_sum id (Pair q) (wrote w (write_pipe ?bs (wpipe w))))"
    using ne write_more_writing [OF less.prems(1)] by (simp add: writer_step_def)
  show ?case
  proof (cases "\<exists>r. wsched (wpipe w) = WrErr EAGAIN # r")
    case True
    then obtain r where r: "wsched (wpipe w) = WrErr EAGAIN # r" by blast
    let ?w = "w\<lparr>wpipe := (wpipe w)\<lparr>wsched := r\<rparr>, werrno := EAGAIN\<rparr>"
    have "writer_loop G (q, w) = writer_loop G (q, ?w)"
      using step r by (subst writer_loop.simps) (simp add: write_pipe_def wrote_def Let_def)
    moreover have "\<exists>w'. writer_loop G (q, ?w) = writer_loop G (q, w') \<and> bytesWritten w' = bufflen w' \<and>
      wpipe w' = \<lparr>outbuf = outbuf (wpipe ?w) @ ?bs, wsched = sch\<rparr>"
      using less.prems r by (intro less.hyps) (auto simp: writing_def)
    ultimately show ?thesis by auto
  next
    case False
    obtain k r where k: "0 < k" "k \<le> n" "write_pipe ?bs (wpipe w) =
        (Put k, \<lparr>outbuf = outbuf (wpipe w) @ take k ?bs, wsched = r\<rparr>)"
      "length r \<le> length (wsched (wpipe w))" "if k = n then r = sch else body_writes (n - k) r = Some sch"
    proof (cases "wsched (wpipe w)")
      case Nil
      with less.prems lbs show thesis
        by (intro that [of "min n MAX_RW_COUNT" "[]"])
          (simp_all add: write_pipe_def Let_def min_def)
    next
      case (Cons x r)
      with False less.prems(3) obtain k where x: "x = Wrote k"
        by (cases x) (auto split: if_splits)
      define m where "m = min (min k n) MAX_RW_COUNT"
      have m: "(if m = 0 then None else if m = n then Some r else body_writes (n - m) r) = Some sch"
        using less.prems(3) unfolding Cons x body_writes.simps Let_def m_def .
      then have "0 < m" by (simp split: if_split_asm)
      moreover have "m \<le> n" by (simp add: m_def)
      moreover have "write_pipe ?bs (wpipe w) =
          (Put m, \<lparr>outbuf = outbuf (wpipe w) @ take m ?bs, wsched = r\<rparr>)"
        using Cons x lbs by (simp add: write_pipe_def Let_def m_def)
      ultimately show thesis using m Cons by (intro that [of m r]) (simp_all split: if_split_asm)
    qed
    let ?w = "w\<lparr>wpipe := \<lparr>outbuf = outbuf (wpipe w) @ take k ?bs, wsched = r\<rparr>,
      bytesWritten := bytesWritten w + word_of_nat k\<rparr>"
    have adv: "writing t (n - k) ?w" by (rule writing_advance [OF less.prems(1) k(2)])
    have loop: "writer_loop G (q, w) = writer_loop G (q, ?w)"
      using step k(1,3) by (subst writer_loop.simps) (simp add: wrote_def Let_def)
    show ?thesis
    proof (cases "k = n")
      case True
      with adv have "bytesWritten ?w = bufflen ?w" by (simp add: writing_def)
      with loop k(5) True lbs show ?thesis by (intro exI [of _ ?w]) auto
    next
      case False
      have "\<exists>w'. writer_loop G (q, ?w) = writer_loop G (q, w') \<and> bytesWritten w' = bufflen w' \<and>
        wpipe w' = \<lparr>outbuf = outbuf (wpipe ?w) @ drop (length t - (n - k)) t, wsched = sch\<rparr>"
        using k False by (intro less.hyps [OF _ adv]) auto
      moreover have "take k ?bs @ drop (length t - (n - k)) t = ?bs"
      proof -
        have "drop (length t - (n - k)) t = drop k ?bs" using k(2) less.prems(1) by (simp add: writing_def add.commute)
        then show ?thesis by (simp only: append_take_drop_id)
      qed
      ultimately show ?thesis using loop by auto
    qed
  qed
qed

lemma writer_header:
  assumes "bytesWritten w = bufflen w" and "generates G d t"
    and "case wsched (wpipe w) of Wrote k # _ \<Rightarrow> 8 \<le> k | WrErr _ # _ \<Rightarrow> False | [] \<Rightarrow> True"
  shows "\<exists>w'. writer_loop G (d # q, w) = writer_loop G (q, w') \<and> writing t (length t) w' \<and>
    wpipe w' = \<lparr>outbuf = outbuf (wpipe w) @ word_bytes (word_of_nat (length t)),
      wsched = tl (wsched (wpipe w))\<rparr>"
proof -
  let ?h = "word_bytes (word_of_nat (length t))"
  let ?w = "w\<lparr>wbuffer := t, bufflen := word_of_nat (length t), bytesWritten := 0,
    wpipe := \<lparr>outbuf = outbuf (wpipe w) @ ?h, wsched = tl (wsched (wpipe w))\<rparr>\<rparr>"
  have "min (min k 8) MAX_RW_COUNT = 8" "min (8 :: nat) MAX_RW_COUNT = 8" if "8 \<le> k" for k
    using that MAX_RW_COUNT_pos(2) by (simp_all add: min_def)
  then have "write_pipe ?h (wpipe w) = (Put 8, wpipe ?w)"
    using assms(3) by (cases "wpipe w") (auto simp: write_pipe_def Let_def split: list.splits wr.splits)
  then have h: "write_header t (word_of_nat (length t)) w = Inr ?w"
    by (simp add: write_header_def Let_def)
  have wr: "writing t (length t) ?w" using assms(2) by (simp add: writing_def generates_def)
  have "bytesWritten ?w \<noteq> bufflen ?w"
    using writing_unwritten(1) [OF wr] assms(2) by (auto simp: generates_def)
  then have "writer_step G (d # q, w) = writer_step G (q, ?w)"
    using assms(1,2) h by (simp add: writer_step_def start_response_def generates_def)
  then have "writer_loop G (d # q, w) = writer_loop G (q, ?w)"
    by (simp only: writer_loop.simps)
  with wr show ?thesis by (intro exI [of _ ?w]) simp
qed

lemma writer_stream:
  assumes "list_all2 (generates G) ds ts" and "good_wsched (map length ts) (wsched (wpipe w))"
    and "bytesWritten w = bufflen w"
  shows "writer_loop G (ds, w) = Ret (outbuf (wpipe w) @ concat (map frame ts), 0)"
  using assms
proof (induction ds arbitrary: ts w)
  case Nil
  then show ?case by (subst writer_loop.simps) (simp add: writer_step_def)
next
  case (Cons d ds)
  then obtain t ts' where ts: "ts = t # ts'" "generates G d t" "list_all2 (generates G) ds ts'"
    by (auto simp: list_all2_Cons1)
  have sch: "case wsched (wpipe w) of Wrote k # _ \<Rightarrow> 8 \<le> k | WrErr _ # _ \<Rightarrow> False | [] \<Rightarrow> True"
    and "\<exists>r. body_writes (length t) (tl (wsched (wpipe w))) = Some r \<and> good_wsched (map length ts') r"
    using Cons.prems(2) ts(1) by (auto split: list.splits wr.splits option.splits elim!: good_wsched.elims)
  then obtain r where r: "body_writes (length t) (tl (wsched (wpipe w))) = Some r"
    "good_wsched (map length ts') r" by blast
  obtain w1 where w1: "writer_loop G (d # ds, w) = writer_loop G (ds, w1)" "writing t (length t) w1"
    "wpipe w1 = \<lparr>outbuf = outbuf (wpipe w) @ word_bytes (word_of_nat (length t)),
      wsched = tl (wsched (wpipe w))\<rparr>"
    using writer_header [OF Cons.prems(3) ts(2) sch] by blast
  obtain w2 where "writer_loop G (ds, w1) = writer_loop G (ds, w2)" "bytesWritten w2 = bufflen w2"
    "wpipe w2 = \<lparr>outbuf = outbuf (wpipe w) @ frame t, wsched = r\<rparr>"
    using writer_body [OF w1(2), of r G ds] r(1) ts(2) w1(3) by (auto simp: generates_def frame_def)
  with w1(1) Cons.IH [OF ts(3), of w2] r(2) ts(1) show ?case by simp
qed

section \<open>Broken streams\<close>

lemma le_bytes_split: "le_bytes (a + b) n = le_bytes a n @ le_bytes b (n div 256 ^ a)"
  by (induction a arbitrary: n) (simp_all add: div_mult2_eq)

lemma le_bytes_zero: "le_bytes k 0 = replicate k (CHR 0x00)"
  by (induction k) (simp_all add: char_of_def)

lemma word_bytes_small:
  assumes "n < 2 ^ 32"
  shows "word_bytes (word_of_nat n) = le_bytes 4 n @ replicate 4 (CHR 0x00)"
proof -
  have "le_bytes 8 n = le_bytes 4 n @ le_bytes 4 (n div 256 ^ 4)"
    using le_bytes_split [of 4 4 n] by simp
  moreover have "n div 256 ^ 4 = 0" using assms by simp
  moreover have "unat (word_of_nat n :: c_long) = n" using assms by (intro unat_c_long_of_nat) simp
  ultimately show ?thesis by (simp add: word_bytes_def le_bytes_zero)
qed

text \<open>Whatever a whole message makes of the state, the loop goes on with it.\<close>

lemma reader_loop_step:
  "reader_step E Y M r = Ret (Inr r') \<Longrightarrow> reader_loop E Y M r = reader_loop E Y M r'"
  "reader_step E Y M r = Ret (Inl rv) \<Longrightarrow> reader_loop E Y M r = Ret (requests r, rv)"
  "reader_step E Y M r = Undef \<Longrightarrow> reader_loop E Y M r = Undef"
  by (simp_all add: reader_loop.simps [of E Y M r])

lemma reader_whole_body:
  assumes "sched (pipe r) = []" and "inbuf (pipe r) = m @ rest" and "buffer r = []"
    and "reqSize r = word_of_nat (length m)" and "bytesPending r = reqSize r"
    and "m \<noteq> []" and "length m \<le> MAX_RW_COUNT"
  shows "reader_step E Y M r = queue_request E Y
    (r\<lparr>pipe := \<lparr>inbuf = rest, sched = []\<rparr>, buffer := m, bytesPending := 0\<rparr>)"
proof -
  have len: "length m < 2 ^ 64" "Suc (length m) < 2 ^ 64"
    using assms(7) by (simp_all add: MAX_RW_COUNT_def)
  have n: "unat (bytesPending r) = length m" "bytesPending r \<noteq> 0"
    using assms(4-6) unat_c_long_of_nat [OF len(1)] word_of_nat_0_iff [OF len(1)] by simp_all
  have "reqSize r + 1 = word_of_nat (Suc (length m))" using assms(4) by simp
  then have "unat (reqSize r + 1) = Suc (length m)"
    using unat_c_long_of_nat [OF len(2)] by (simp only:)
  moreover have "read_pipe (length m) (pipe r) = (Got m, \<lparr>inbuf = rest, sched = []\<rparr>)"
    using assms(1,2,7) SSIZE_MAX_small(2) [OF assms(7)]
    by (cases "pipe r") (simp add: read_pipe_def take_pipe_def)
  ultimately show ?thesis
    using assms n by (simp add: reader_step_def read_body_chunk_def Let_def)
qed

section \<open>Properties\<close>

text \<open>The library reads the bytes \<open>m\<close> as a text whose tree is \<open>t\<close>; the sizes fit an \<open>int\<close>.\<close>

definition reads_as :: "yajl \<Rightarrow> string \<Rightarrow> json \<Rightarrow> bool" where
  "reads_as Y m t \<longleftrightarrow> yajl_reads Y m (events t) \<and> small_strings t \<and> m \<noteq> [] \<and> length m < 2 ^ 32"

lemma reads_as_delivers: "reads_as Y m t \<Longrightarrow> delivers E Y m (canon t)"
  by (auto simp: reads_as_def delivers_def intro!: exI [of _ None] parse_document_events len_cast SSIZE_MAX_small(1))

lemma reads_as_stream:
  "list_all2 (reads_as Y) ms ts \<Longrightarrow> list_all2 (delivers E Y) ms (map canon ts)"
  by (simp add: list_all2_map2 list_all2_mono reads_as_delivers)

text \<open>
  For the witnesses: a library for which a text is one string, unless it starts with a
  NUL byte, and a generator that writes the text of a string.
\<close>

definition demo_yajl :: yajl where
  "demo_yajl = \<lparr>yajl_alloc_ok = True,
     yajl_parse = (\<lambda>m. if m = [] \<or> hd m = CHR 0x00 then ([], False) else ([YString m], True)),
     yajl_complete_parse = (\<lambda>m. ([], True))\<rparr>"

definition demo_env :: strerror_env where
  "demo_env = \<lparr>gnu_variant = True, gnu_strerror = (\<lambda>e n. ''error''),
     xsi_strerror = (\<lambda>e n. (0, ''error'')), utf8_charset = True, locale_to_utf8 = Some,
     errno_left = (\<lambda>e old. old)\<rparr>"

fun demo_text :: "gen_call list \<Rightarrow> string" where
  "demo_text [GString s] = s"
| "demo_text cs = ''?''"

definition demo_generate :: "json \<Rightarrow> (string \<times> c_long) outcome" where
  "demo_generate = jdGenerator_generate id demo_text (\<lambda>n. True)"

lemma demo_reads_as:
  "m \<noteq> [] \<Longrightarrow> hd m \<noteq> CHR 0x00 \<Longrightarrow> length m < 2 ^ 31 \<Longrightarrow> reads_as demo_yajl m (JString m)"
  by (simp add: reads_as_def yajl_reads_def demo_yajl_def)

lemma demo_parse_NUL:
  "m \<noteq> [] \<Longrightarrow> hd m = CHR 0x00 \<Longrightarrow> length m < 2 ^ 32 \<Longrightarrow>
   parse_document demo_env demo_yajl m (word_of_nat (length m)) = Ret (None, Some (parse_error demo_env))"
  by (simp only: parse_document_def jdParser_buildDom_def Let_def len_cast)
    (simp add: demo_yajl_def buildDom_clean_def peek_tail_def jdBuilder_init_def)

text \<open>
  C12: the reader delivers every request of the stream, in order and as the document its text
  denotes, however the kernel cuts the bodies, and at the end of the pipe it stops with
  \<open>EPIPE\<close>.
\<close>

theorem reader_delivers:
  assumes "list_all2 (reads_as Y) ms ts" and "good_sched ms (sched p)"
    and "inbuf p = concat (map frame ms)" and "\<forall>n. M n = None"
  shows "requestReader E Y M p = Ret (map canon ts, new_thread_result E EPIPE)"
  using reader_stream [OF reads_as_stream [OF assms(1)], of "reader_init p" M E] assms(2-4)
  by (simp add: requestReader_def reader_init_def)

lemma reader_delivers_witness:
  "requestReader demo_env demo_yajl (\<lambda>n. None)
     \<lparr>inbuf = frame ''ab'' @ frame ''c'', sched = [Upto 8, Upto 1, Upto 5, Upto 100, Upto 1]\<rparr> =
   Ret ([JString ''ab'', JString ''c''], new_thread_result demo_env EPIPE)"
proof -
  have "list_all2 (reads_as demo_yajl) [''ab'', ''c''] [JString ''ab'', JString ''c'']"
    by (simp add: demo_reads_as)
  from reader_delivers [OF this, of "\<lparr>inbuf = frame ''ab'' @ frame ''c'',
      sched = [Upto 8, Upto 1, Upto 5, Upto 100, Upto 1]\<rparr>" "\<lambda>n. None" demo_env]
  show ?thesis by (simp add: MAX_RW_COUNT_def)
qed

text \<open>
  C23: the writer puts exactly one frame per response on the pipe, in the order of the
  queue, however the kernel cuts the writes of the texts and however often it says
  \<open>EAGAIN\<close>; so a receiver that reads frames gets the texts back.
\<close>

theorem writer_frames:
  assumes "list_all2 (generates G) ds ts" and "good_wsched (map length ts) sch"
  shows "\<exists>bytes. responseWriter E G ds \<lparr>outbuf = [], wsched = sch\<rparr> = Ret (bytes, None, False) \<and>
    bytes = concat (map frame ts) \<and> decode_n unframe (length ts) bytes = ts"
proof -
  have "list_all frameable ts"
    using assms(1) by (induction rule: list_all2_induct) (auto simp: generates_def frameable_def)
  then have "decode_n unframe (length ts) (concat (map frame ts)) = ts"
    by (rule wire.decode_stream) simp
  then show ?thesis
    using writer_stream [OF assms(1), of "writer_init \<lparr>outbuf = [], wsched = sch\<rparr>"] assms(2)
    by (simp add: responseWriter_def writer_init_def new_thread_result_def)
qed

lemma writer_frames_witness:
  "\<exists>bytes. responseWriter demo_env demo_generate [JString ''abc'', JString ''d'']
      \<lparr>outbuf = [], wsched = [Wrote 8, Wrote 1, WrErr EAGAIN, Wrote 9]\<rparr> = Ret (bytes, None, False) \<and>
    decode_n unframe (Suc (Suc 0)) bytes = [''abc'', ''d'']"
proof -
  have "list_all2 (generates demo_generate) [JString ''abc'', JString ''d''] [''abc'', ''d'']"
    by (simp add: generates_def demo_generate_def jdGenerator_generate_def yajl_gen_string_def)
  from writer_frames [OF this, of "[Wrote 8, Wrote 1, WrErr EAGAIN, Wrote 9]" demo_env]
  show ?thesis by (auto simp: MAX_RW_COUNT_def)
qed

text \<open>
  C35: a read that gets only half of a header is taken for the whole header, so the other
  half becomes the start of the message: a good request is rejected, the reader ends with
  \<open>EINVAL\<close>, and nothing of the stream is delivered.
\<close>

theorem short_header_rejected:
  assumes "4 \<le> length m" and "length m \<le> MAX_RW_COUNT" and "\<forall>n. M n = None"
    and "parse_document E Y (replicate 4 (CHR 0x00) @ take (length m - 4) m) (word_of_nat (length m)) =
      Ret (None, Some e)"
  shows "requestReader E Y M \<lparr>inbuf = frame m @ rest, sched = [Upto 4]\<rparr> =
    Ret ([], new_thread_result E EINVAL)"
proof -
  let ?n = "word_of_nat (length m) :: c_long"
  let ?bad = "replicate 4 (CHR 0x00) @ take (length m - 4) m"
  have n: "length m < 2 ^ 32" using assms(2) by (simp add: MAX_RW_COUNT_def)
  note wb = word_bytes_small [OF n]
  have 0: "drop 4 (word_bytes 0) = replicate 4 (CHR 0x00)" using word_bytes_small [of 0] by simp
  have fr: "frame m = le_bytes 4 (length m) @ replicate 4 (CHR 0x00) @ m" using wb by (simp add: frame_def)
  have m4: "min (8 :: nat) (max (Suc 0) 4) = 4" "min 4 MAX_RW_COUNT = 4"
    by (simp_all add: MAX_RW_COUNT_def)
  define p1 where "p1 = \<lparr>inbuf = replicate 4 (CHR 0x00) @ m @ rest, sched = []\<rparr>"
  have "read_pipe 8 \<lparr>inbuf = frame m @ rest, sched = [Upto 4]\<rparr> = (Got (le_bytes 4 (length m)), p1)"
    by (simp add: read_pipe_def take_pipe_def fr p1_def m4)
  moreover have "overwrite (le_bytes 4 (length m)) 0 = ?n"
    using wb bytes_word_bytes [of ?n] by (simp add: overwrite_def 0)
  ultimately have h: "read_header M (reader_init \<lparr>inbuf = frame m @ rest, sched = [Upto 4]\<rparr>) =
      Inr \<lparr>pipe = p1, reqSize = ?n, bytesPending = ?n, buffer = [], requests = []\<rparr>"
    using assms(3) by (simp add: read_header_def reader_init_def Let_def)
  let ?r = "\<lparr>pipe = p1, reqSize = ?n, bytesPending = ?n, buffer = [], requests = []\<rparr>"
  have ne: "m \<noteq> []" using assms(1) by auto
  then have nz: "bytesPending ?r \<noteq> 0" using n word_of_nat_0_iff [of "length m"] by simp
  have split: "inbuf p1 = ?bad @ drop (length m - 4) m @ rest" by (simp add: p1_def)
  have "reader_step E Y M ?r = queue_request E Y
      (?r\<lparr>pipe := \<lparr>inbuf = drop (length m - 4) m @ rest, sched = []\<rparr>, buffer := ?bad, bytesPending := 0\<rparr>)"
    using assms(1,2) split by (intro reader_whole_body) (simp_all add: p1_def)
  also have "\<dots> = Ret (Inl EINVAL)" using assms(4) by (simp add: queue_request_def)
  finally have "reader_loop E Y M ?r = Ret ([], EINVAL)" by (subst reader_loop_step(2)) auto
  moreover have "reader_loop E Y M (reader_init \<lparr>inbuf = frame m @ rest, sched = [Upto 4]\<rparr>) = reader_loop E Y M ?r"
    by (rule reader_header_step [OF _ h nz]) (simp add: reader_init_def)
  ultimately show ?thesis by (simp add: requestReader_def)
qed

lemma short_header_rejected_witness:
  "requestReader demo_env demo_yajl (\<lambda>n. None) \<lparr>inbuf = frame ''hello'' @ frame ''x'', sched = [Upto 4]\<rparr> =
   Ret ([], new_thread_result demo_env EINVAL)"
proof (rule short_header_rejected)
  let ?bad = "[CHR 0x00, CHR 0x00, CHR 0x00, CHR 0x00, CHR ''h'']"
  have bad: "replicate 4 (CHR 0x00) @ take (length ''hello'' - 4) ''hello'' = ?bad"
    by (simp add: numeral_eq_Suc)
  have len: "length ''hello'' = length ?bad" by simp
  show "parse_document demo_env demo_yajl
      (replicate 4 (CHR 0x00) @ take (length ''hello'' - 4) ''hello'') (word_of_nat (length ''hello'')) =
    Ret (None, Some (parse_error demo_env))"
    unfolding bad unfolding len by (rule demo_parse_NUL) simp_all
qed (simp_all add: MAX_RW_COUNT_def)

text \<open>
  C37: a message of length 0 ends the reader with \<open>EPIPE\<close>, as if the peer had closed the
  pipe, and whatever follows it is never read.
\<close>

theorem empty_message_ends_reader:
  "requestReader E Y (\<lambda>n. None) \<lparr>inbuf = frame [] @ rest, sched = []\<rparr> =
    Ret ([], new_thread_result E EPIPE)"
proof -
  let ?p = "\<lparr>inbuf = frame [] @ rest, sched = []\<rparr>"
  have "read_header (\<lambda>n. None) (reader_init ?p) =
      Inr ((reader_init ?p)\<lparr>pipe := \<lparr>inbuf = rest, sched = []\<rparr>, buffer := []\<rparr>)"
    using reader_header [of "reader_init ?p" "[]" rest] by (simp add: reader_init_def)
  then have "reader_step E Y (\<lambda>n. None) (reader_init ?p) = Ret (Inl EPIPE)"
    by (simp add: reader_step_def reader_init_def read_body_chunk_def read_pipe_def take_pipe_def)
  from reader_loop_step(2) [OF this] show ?thesis
    by (simp add: requestReader_def reader_init_def)
qed

text \<open>
  C36: the size in a header is not checked. For 2^64 - 1 the size of the buffer wraps to 0, and
  where \<open>malloc\<close> grants that, the reader asks for 2^64 - 1 bytes into a buffer of none. It is
  the kernel that keeps it in bounds: on a header of 2^63 or more whose buffer is granted, the
  read is refused, and the reader ends with \<open>EFAULT\<close> and delivers nothing of the stream.
\<close>

theorem oversized_header_ends_reader:
  assumes "2 ^ 63 \<le> unat n" and "M (unat (n + 1)) = None"
  shows "requestReader E Y M \<lparr>inbuf = word_bytes n @ rest, sched = []\<rparr> = Ret ([], new_thread_result E EFAULT)"
proof -
  let ?p = "\<lparr>inbuf = word_bytes n @ rest, sched = []\<rparr>"
  let ?r = "(reader_init ?p)\<lparr>pipe := \<lparr>inbuf = rest, sched = []\<rparr>, reqSize := n, bytesPending := n\<rparr>"
  have 8: "min (8 :: nat) MAX_RW_COUNT = 8" using MAX_RW_COUNT_pos(2) by (simp add: min_def)
  have "read_header M (reader_init ?p) = Inr ?r"
    using assms(2) by (simp add: read_header_def reader_init_def read_pipe_def take_pipe_def Let_def 8)
  moreover have "SSIZE_MAX < unat n" using assms(1) by (simp add: SSIZE_MAX_def)
  then have "read_body_chunk E Y ?r = Ret (Inl EFAULT)"
    by (simp add: read_body_chunk_def read_pipe_def)
  ultimately have "reader_step E Y M (reader_init ?p) = Ret (Inl EFAULT)"
    by (simp add: reader_step_def reader_init_def)
  from reader_loop_step(2) [OF this] show ?thesis by (simp add: requestReader_def reader_init_def)
qed

lemma oversized_header_ends_reader_witness:
  "requestReader demo_env demo_yajl (\<lambda>n. if n = 0 then None else Some ENOMEM)
     \<lparr>inbuf = word_bytes (- 1) @ ''x'', sched = []\<rparr> = Ret ([], new_thread_result demo_env EFAULT)"
  by (rule oversized_header_ends_reader) (simp_all add: unsigned_minus_1_eq_mask mask_eq_exp_minus_1)

text \<open>
  C38: a header of a response that the kernel takes only in part is not noticed: the writer goes on with
  the text and reports success, with the rest of the header missing from the stream.
\<close>

theorem short_header_write_unnoticed:
  assumes "generates G d t" and "length t \<le> MAX_RW_COUNT" and "k \<le> 8"
  shows "responseWriter E G [d] \<lparr>outbuf = [], wsched = [Wrote k]\<rparr> =
    Ret (take k (word_bytes (word_of_nat (length t))) @ t, None, False)"
proof -
  let ?n = "word_of_nat (length t) :: c_long"
  let ?p = "\<lparr>outbuf = [], wsched = [Wrote k]\<rparr>"
  let ?w = "(writer_init ?p)\<lparr>wpipe := \<lparr>outbuf = take k (word_bytes ?n), wsched = []\<rparr>,
    wbuffer := t, bufflen := ?n, bytesWritten := 0\<rparr>"
  have k: "min (min k 8) MAX_RW_COUNT = k" using assms(3) by (simp add: MAX_RW_COUNT_def)
  have h: "write_header t ?n (writer_init ?p) = Inr ?w"
    by (simp add: write_header_def writer_init_def write_pipe_def Let_def k)
  have wr: "writing t (length t) ?w" using assms(1) by (simp add: writing_def generates_def)
  have t: "0 < length t" using assms(1) by (simp add: generates_def)
  obtain w' where w': "writer_loop G ([], ?w) = writer_loop G ([], w')" "bytesWritten w' = bufflen w'"
    "wpipe w' = \<lparr>outbuf = take k (word_bytes ?n) @ t, wsched = []\<rparr>"
    using writer_body [OF wr t, of "[]" G "[]"] by auto
  have "bytesWritten ?w \<noteq> bufflen ?w" using writing_unwritten(1) [OF wr] t by auto
  then have "writer_step G ([d], writer_init ?p) = writer_step G ([], ?w)"
    using assms(1) h by (simp add: writer_step_def start_response_def generates_def writer_init_def)
  then have "writer_loop G ([d], writer_init ?p) = writer_loop G ([], ?w)"
    by (simp only: writer_loop.simps)
  moreover have "writer_loop G ([], w') = Ret (take k (word_bytes ?n) @ t, 0)"
    using w'(2,3) by (subst writer_loop.simps) (simp add: writer_step_def)
  ultimately show ?thesis using w'(1) by (simp add: responseWriter_def new_thread_result_def)
qed

lemma short_header_write_unnoticed_witness:
  "responseWriter demo_env demo_generate [JString ''abc''] \<lparr>outbuf = [], wsched = [Wrote 4]\<rparr> =
   Ret (take 4 (word_bytes (word_of_nat (length ''abc''))) @ ''abc'', None, False)"
  by (rule short_header_write_unnoticed)
    (simp_all add: generates_def demo_generate_def jdGenerator_generate_def yajl_gen_string_def MAX_RW_COUNT_def)

end
