(* ===== verification/Startup.thy ===== *)
theory Startup
  imports Pool Transport
begin

text \<open>
  The rest of \<open>src/ioprocess.c\<close>: the command line, the descriptors a new process
  inherits, the log lines, the end of the three threads and \<open>main\<close>.
\<close>

section \<open>The command line\<close>

record options =
  READ_PIPE_FD :: int
  WRITE_PIPE_FD :: int
  opt_max_threads :: int
  opt_max_queued :: int
  KEEP_FDS :: bool
  TRACE_ENABLED :: bool

definition default_options :: options where
  "default_options = \<lparr>READ_PIPE_FD = - 1, WRITE_PIPE_FD = - 1, opt_max_threads = 0,
     opt_max_queued = - 1, KEEP_FDS = False, TRACE_ENABLED = False\<rparr>"

text \<open>
  The table of options: an entry stores an integer through its pointer, or sets a flag. The
  names are those after \<open>--\<close> and \<open>-\<close>; the NUL character stands for no short name.
\<close>

datatype option_arg = ARG_INT "int \<Rightarrow> options \<Rightarrow> options" | ARG_NONE "options \<Rightarrow> options"

record option_entry =
  long_name :: string
  short_name :: char
  arg_data :: option_arg

definition entries :: "option_entry list" where
  "entries = [
     \<lparr>long_name = ''read-pipe-fd'', short_name = CHR ''r'', arg_data = ARG_INT (\<lambda>n v. v\<lparr>READ_PIPE_FD := n\<rparr>)\<rparr>,
     \<lparr>long_name = ''write-pipe-fd'', short_name = CHR ''w'', arg_data = ARG_INT (\<lambda>n v. v\<lparr>WRITE_PIPE_FD := n\<rparr>)\<rparr>,
     \<lparr>long_name = ''max-threads'', short_name = CHR ''t'', arg_data = ARG_INT (\<lambda>n v. v\<lparr>opt_max_threads := n\<rparr>)\<rparr>,
     \<lparr>long_name = ''max-queued-requests'', short_name = CHR ''q'', arg_data = ARG_INT (\<lambda>n v. v\<lparr>opt_max_queued := n\<rparr>)\<rparr>,
     \<lparr>long_name = ''keep-fds'', short_name = CHR 0x00, arg_data = ARG_NONE (\<lambda>v. v\<lparr>KEEP_FDS := True\<rparr>)\<rparr>,
     \<lparr>long_name = ''trace-enabled'', short_name = CHR 0x00, arg_data = ARG_NONE (\<lambda>v. v\<lparr>TRACE_ENABLED := True\<rparr>)\<rparr>]"

text \<open>
  The option parser of glib is the parameter \<open>parse\<close>: from the table and the arguments it
  gives the options that were used, as long names with their values in order (0 for a flag),
  or it fails; then it has changed no variable. A used option is stored by its entry.
\<close>

type_synonym option_parser = "option_entry list \<Rightarrow> string list \<Rightarrow> (string \<times> int) list option"

definition set_option :: "string \<times> int \<Rightarrow> options \<Rightarrow> options" where
  "set_option used v =
     (case find (\<lambda>e. long_name e = fst used) entries of
        None \<Rightarrow> v
      | Some e \<Rightarrow> (case arg_data e of ARG_INT store \<Rightarrow> store (snd used) v | ARG_NONE set_flag \<Rightarrow> set_flag v))"

text \<open>The result is 0 or -1, with the options.\<close>

definition parseCmdLine :: "option_parser \<Rightarrow> string list \<Rightarrow> int \<times> options" where
  "parseCmdLine parse argv =
     (case parse entries argv of
        None \<Rightarrow> (- 1, default_options)
      | Some used \<Rightarrow>
          let opts = fold set_option used default_options in
          if READ_PIPE_FD opts < 0 \<or> WRITE_PIPE_FD opts < 0 then (- 1, opts)
          else if opt_max_threads opts < 0 then (- 1, opts)
          else if 0 \<le> opt_max_queued opts \<and> opt_max_threads opts = 0 then (- 1, opts)
          else (0, opts))"

text \<open>The value an option has in the end: that of its last use, or the initial one.\<close>

definition last_use :: "string \<Rightarrow> int \<Rightarrow> (string \<times> int) list \<Rightarrow> int" where
  "last_use name v used = fold (\<lambda>(n, x) v. if n = name then x else v) used v"

lemma last_use_simps [simp]:
  "last_use name v [] = v"
  "last_use name v ((n, x) # used) = last_use name (if n = name then x else v) used"
  by (simp_all add: last_use_def)

lemma set_option_fields:
  "READ_PIPE_FD (set_option (n, x) v) = (if n = ''read-pipe-fd'' then x else READ_PIPE_FD v)"
  "WRITE_PIPE_FD (set_option (n, x) v) = (if n = ''write-pipe-fd'' then x else WRITE_PIPE_FD v)"
  "opt_max_threads (set_option (n, x) v) = (if n = ''max-threads'' then x else opt_max_threads v)"
  "opt_max_queued (set_option (n, x) v) = (if n = ''max-queued-requests'' then x else opt_max_queued v)"
  "KEEP_FDS (set_option (n, x) v) \<longleftrightarrow> n = ''keep-fds'' \<or> KEEP_FDS v"
  "TRACE_ENABLED (set_option (n, x) v) \<longleftrightarrow> n = ''trace-enabled'' \<or> TRACE_ENABLED v"
  by (auto simp: set_option_def entries_def)

lemma used_options:
  "READ_PIPE_FD (fold set_option used v) = last_use ''read-pipe-fd'' (READ_PIPE_FD v) used \<and>
   WRITE_PIPE_FD (fold set_option used v) = last_use ''write-pipe-fd'' (WRITE_PIPE_FD v) used \<and>
   opt_max_threads (fold set_option used v) = last_use ''max-threads'' (opt_max_threads v) used \<and>
   opt_max_queued (fold set_option used v) = last_use ''max-queued-requests'' (opt_max_queued v) used \<and>
   (KEEP_FDS (fold set_option used v) \<longleftrightarrow> KEEP_FDS v \<or> ''keep-fds'' \<in> fst ` set used) \<and>
   (TRACE_ENABLED (fold set_option used v) \<longleftrightarrow> TRACE_ENABLED v \<or> ''trace-enabled'' \<in> fst ` set used)"
proof (induction used arbitrary: v)
  case (Cons u used)
  then show ?case by (cases u) (auto simp: set_option_fields)
qed simp

section \<open>Inherited descriptors\<close>

text \<open>\<open>sscanf(fname, "%d", &n)\<close>: blanks, a sign, digits, and then anything.\<close>

definition is_blank :: "char \<Rightarrow> bool" where
  "is_blank ch \<longleftrightarrow> of_char ch \<in> {9, 10, 11, 12, 13, 32 :: nat}"

definition is_digit :: "char \<Rightarrow> bool" where
  "is_digit ch \<longleftrightarrow> of_char ch \<ge> (48 :: nat) \<and> of_char ch \<le> (57 :: nat)"

definition digits_value :: "string \<Rightarrow> int" where
  "digits_value ds = foldl (\<lambda>n d. 10 * n + int (of_char d - 48)) 0 ds"

definition scan_int :: "string \<Rightarrow> int option" where
  "scan_int s =
     (let s = dropWhile is_blank s;
          neg = (s \<noteq> [] \<and> hd s = CHR 0x2D);
          s = (if s \<noteq> [] \<and> (hd s = CHR 0x2D \<or> hd s = CHR 0x2B) then tl s else s);
          ds = takeWhile is_digit s
      in if ds = [] then None else Some (if neg then - digits_value ds else digits_value ds))"

text \<open>The white list ends with -1.\<close>

fun whitelisted :: "int list \<Rightarrow> int \<Rightarrow> bool" where
  "whitelisted [] fd = False"
| "whitelisted (w # ws) fd = (if w = - 1 then False else if fd = w then True else whitelisted ws fd)"

text \<open>
  The loop over the entries of \<open>/proc/self/fd\<close>, with the descriptors still open; it
  gives 0 or the negated error number. \<open>close_err\<close> is the error of closing a descriptor,
  if any; with one the descriptor stays open.
\<close>

fun close_entries :: "int list option \<Rightarrow> int \<Rightarrow> (int \<Rightarrow> int option) \<Rightarrow> string list \<Rightarrow> int list
    \<Rightarrow> int \<times> int list" where
  "close_entries whitelist dfd close_err [] held_fds = (0, held_fds)"
| "close_entries whitelist dfd close_err (fname # names) held_fds =
     (if fname = ''.'' \<or> fname = ''..'' then close_entries whitelist dfd close_err names held_fds
      else case scan_int fname of
        None \<Rightarrow> close_entries whitelist dfd close_err names held_fds
      | Some fdNum \<Rightarrow>
          if fdNum = dfd then close_entries whitelist dfd close_err names held_fds
          else if (case whitelist of None \<Rightarrow> False | Some ws \<Rightarrow> whitelisted ws fdNum)
          then close_entries whitelist dfd close_err names held_fds
          else case close_err fdNum of
            None \<Rightarrow> close_entries whitelist dfd close_err names (removeAll fdNum held_fds)
          | Some e \<Rightarrow>
              if e = EBADF then close_entries whitelist dfd close_err names held_fds
              else (- e, held_fds))"

text \<open>
  The result of opening \<open>/proc/self/fd/\<close> is a descriptor or an error, that of
  \<open>fdopendir\<close> the entries of the directory or an error. Only the normal exit closes the
  directory.
\<close>

definition closeUnrelatedFDs :: "int + int \<Rightarrow> int + string list \<Rightarrow> (int \<Rightarrow> int option) \<Rightarrow> int list option
    \<Rightarrow> int list \<Rightarrow> int \<times> int list" where
  "closeUnrelatedFDs opened dir close_err whitelist held_fds =
     (case opened of
        Inl e \<Rightarrow> (- e, held_fds)
      | Inr dfd \<Rightarrow>
          (case dir of
             Inl e \<Rightarrow> (- e, dfd # held_fds)
           | Inr names \<Rightarrow>
               (case close_entries whitelist dfd close_err names (dfd # held_fds) of
                  (rv, held_fds) \<Rightarrow> if rv < 0 then (rv, held_fds) else (rv, remove1 dfd held_fds))))"

lemma of_char_digit [simp]: "d < 10 \<Longrightarrow> of_char (digit d) = 48 + d"
  by (simp add: digit_def)

lemma is_digit_digit [simp]: "d < 10 \<Longrightarrow> is_digit (digit d)"
  by (simp add: is_digit_def)

lemma dec_nat_digits: "list_all is_digit (dec_nat n) \<and> dec_nat n \<noteq> [] \<and> digits_value (dec_nat n) = int n"
proof (induction n rule: dec_nat.induct)
  case (1 n)
  show ?case
  proof (cases "n < 10")
    case True
    then show ?thesis by (simp add: dec_nat.simps [of n] digits_value_def)
  next
    case False
    with 1 have IH: "list_all is_digit (dec_nat (n div 10))" "digits_value (dec_nat (n div 10)) = int (n div 10)"
      by auto
    have "int n = 10 * int (n div 10) + int (n mod 10)" by presburger
    with IH False show ?thesis by (simp add: dec_nat.simps [of n] digits_value_def)
  qed
qed

lemma scan_int_dec [simp]: "scan_int (dec_nat n) = Some (int n)"
proof -
  note d = dec_nat_digits [of n]
  obtain c cs where ccs: "dec_nat n = c # cs" using d by (cases "dec_nat n") auto
  with d have "is_digit c" by simp
  then have "\<not> is_blank c" "c \<noteq> CHR 0x2D" "c \<noteq> CHR 0x2B" by (auto simp: is_digit_def is_blank_def)
  with ccs have dw: "dropWhile is_blank (dec_nat n) = dec_nat n" "hd (dec_nat n) = c" "c \<noteq> CHR 0x2D" "c \<noteq> CHR 0x2B"
    by auto
  have tw: "takeWhile is_digit (dec_nat n) = dec_nat n"
    using d by (simp add: takeWhile_eq_all_conv list_all_iff)
  from dw show ?thesis using d by (simp add: scan_int_def Let_def tw)
qed

lemma dec_nat_not_dots [simp]: "dec_nat n \<noteq> ''.''" "dec_nat n \<noteq> ''..''"
  using dec_nat_digits [of n] by (auto simp: is_digit_def)

lemma whitelisted_iff: "- 1 \<notin> set ws \<Longrightarrow> whitelisted (ws @ [- 1]) fd \<longleftrightarrow> fd \<in> set ws"
  by (induction ws) auto

lemma close_entries_all:
  assumes "\<forall>fd. close_err fd = None"
  shows "close_entries (Some ws) dfd close_err (map dec_nat ns) held_fds =
    (0, filter (\<lambda>fd. fd = dfd \<or> whitelisted ws fd \<or> fd \<notin> int ` set ns) held_fds)"
  using assms
  by (induction ns arbitrary: held_fds)
    (auto simp: removeAll_filter_not_eq intro!: filter_cong)

text \<open>
  Of the descriptors the process inherited, \<open>closeUnrelatedFDs\<close> leaves open exactly those in
  the white list, and the descriptor it reads the directory with is closed again; here
  \<open>/proc/self/fd\<close> lists the open descriptors, the new one among them.
\<close>

lemma close_unrelated:
  assumes "dfd \<notin> set open_fds" and "0 \<le> dfd" and "- 1 \<notin> set ws"
    and "int ` set ns = insert dfd (set open_fds)" and "\<forall>fd. close_err fd = None"
  shows "closeUnrelatedFDs (Inr dfd) (Inr ([''.'', ''..''] @ map dec_nat ns)) close_err (Some (ws @ [- 1])) open_fds =
    (0, filter (\<lambda>fd. fd \<in> set ws) open_fds)"
proof -
  have "close_entries (Some (ws @ [- 1])) dfd close_err ([''.'', ''..''] @ map dec_nat ns) (dfd # open_fds) =
      (0, filter (\<lambda>fd. fd = dfd \<or> fd \<in> set ws \<or> fd \<notin> int ` set ns) (dfd # open_fds))"
    using close_entries_all [OF assms(5), of "ws @ [- 1]" dfd ns "dfd # open_fds"]
    by (simp add: whitelisted_iff [OF assms(3)])
  moreover have "filter (\<lambda>fd. fd = dfd \<or> fd \<in> set ws \<or> fd \<notin> int ` set ns) open_fds =
      filter (\<lambda>fd. fd \<in> set ws) open_fds"
    using assms(1,4) by (intro filter_cong) auto
  ultimately show ?thesis using assms(1) by (simp add: closeUnrelatedFDs_def)
qed

section \<open>Logging\<close>

datatype log_level = LEVEL_WARNING | LEVEL_DEBUG | LEVEL_MESSAGE | LEVEL_INFO | LEVEL_OTHER

fun level_text :: "log_level \<Rightarrow> string" where
  "level_text LEVEL_WARNING = ''WARNING''"
| "level_text LEVEL_DEBUG = ''DEBUG''"
| "level_text LEVEL_MESSAGE = ''INFO''"
| "level_text LEVEL_INFO = ''INFO''"
| "level_text LEVEL_OTHER = ''ERROR''"

definition bar :: string where "bar = [CHR 0x7C]"

text \<open>The line pushed to the logger's queue; none when its buffer cannot be allocated.\<close>

definition logfunc :: "(nat \<Rightarrow> bool) \<Rightarrow> string option \<Rightarrow> log_level \<Rightarrow> string \<Rightarrow> string option" where
  "logfunc fits_mem log_domain log_level msg =
     (let levelStr = level_text log_level;
          dom = (case log_domain of None \<Rightarrow> ''(null)'' | Some d \<Rightarrow> c_str d);
          buff = levelStr @ bar @ dom @ bar @ c_str msg @ [CHR 0x0A]
      in if fits_mem (length buff + 1) then Some buff else None)"

text \<open>
  The loop of \<open>logWriter\<close> on the lines to come. The schedule says of each \<open>fwrite\<close>
  whether it writes all, or how many bytes before an error of the stream, which ends
  the loop.
\<close>

fun logWriter :: "nat option list \<Rightarrow> string list \<Rightarrow> string" where
  "logWriter sch [] = []"
| "logWriter sch (buff # queue) =
     (if buff = [] then logWriter sch queue
      else case sch of
        Some k # _ \<Rightarrow> take k buff
      | _ \<Rightarrow> buff @ logWriter (tl sch) queue)"

section \<open>The end of the threads\<close>

text \<open>The global \<open>READ_PIPE_FD\<close>, and every call of \<open>close\<close> on a pipe, in order.\<close>

record pipes =
  read_fd :: int
  closes :: "int list"

definition close_fd :: "int \<Rightarrow> pipes \<Rightarrow> pipes" where
  "close_fd fd p = p\<lparr>closes := closes p @ [fd]\<rparr>"

definition stop_request_reader :: "pipes \<Rightarrow> pipes" where
  "stop_request_reader p =
     (if read_fd p \<noteq> - 1 then (close_fd (read_fd p) p)\<lparr>read_fd := - 1\<rparr> else p)"

text \<open>The last statements of the writer, and of \<open>communicate\<close> after the joins.\<close>

definition writer_exit :: "int \<Rightarrow> bool \<Rightarrow> pipes \<Rightarrow> pipes" where
  "writer_exit writePipe failed p =
     close_fd writePipe (if failed then stop_request_reader p else p)"

definition communicate_exit :: "int \<Rightarrow> int \<Rightarrow> pipes \<Rightarrow> pipes" where
  "communicate_exit readPipe writePipe p = close_fd writePipe (close_fd readPipe p)"

text \<open>The handler and the writer end in either order, before \<open>communicate\<close>.\<close>

definition shutdown :: "bool \<Rightarrow> bool \<Rightarrow> int \<Rightarrow> int \<Rightarrow> pipes" where
  "shutdown writer_first writer_failed readPipe writePipe =
     (let p = \<lparr>read_fd = readPipe, closes = []\<rparr>;
          p = (if writer_first
               then stop_request_reader (writer_exit writePipe writer_failed p)
               else writer_exit writePipe writer_failed (stop_request_reader p))
      in communicate_exit readPipe writePipe p)"

section \<open>The configuration of the threads\<close>

text \<open>The options as the threads see them, and the white list of \<open>main\<close>.\<close>

definition config_of :: "options \<Rightarrow> (json \<Rightarrow> json option \<Rightarrow> bool) \<Rightarrow> (json \<Rightarrow> json) \<Rightarrow> bool \<Rightarrow> config" where
  "config_of opts srv refuse_doc fail =
     \<lparr>MAX_THREADS = opt_max_threads opts, MAX_QUEUED_REQUESTS = opt_max_queued opts,
      serves = srv, refusal = refuse_doc, may_fail = fail\<rparr>"

definition main_whitelist :: "options \<Rightarrow> int list" where
  "main_whitelist opts = [1, 2, READ_PIPE_FD opts, WRITE_PIPE_FD opts, - 1]"

section \<open>Properties\<close>

definition demo_options :: options where
  "demo_options = default_options\<lparr>READ_PIPE_FD := 3, WRITE_PIPE_FD := 4, opt_max_threads := 10,
     opt_max_queued := 5\<rparr>"

text \<open>
  C31: a command line that glib cannot parse is refused. In one that parses, an option with a
  number has the value of its last use, and one of the two flags is set exactly when it is
  used; the command line is accepted exactly when it names both pipes, does not ask for a
  negative number of threads, and caps the queue only with capped threads; and accepted limits
  whose number of slots an \<open>int\<close> can hold are a valid configuration of the thread pool.
\<close>

theorem accepted_command_line:
  assumes "parseCmdLine parse argv = (rv, opts)"
  shows "case parse entries argv of
    None \<Rightarrow> rv = - 1
  | Some used \<Rightarrow>
      (let rd = last_use ''read-pipe-fd'' (- 1) used; wr = last_use ''write-pipe-fd'' (- 1) used;
           threads = last_use ''max-threads'' 0 used; queued = last_use ''max-queued-requests'' (- 1) used
       in opts = \<lparr>READ_PIPE_FD = rd, WRITE_PIPE_FD = wr, opt_max_threads = threads, opt_max_queued = queued,
            KEEP_FDS = (''keep-fds'' \<in> fst ` set used), TRACE_ENABLED = (''trace-enabled'' \<in> fst ` set used)\<rparr> \<and>
          rv = (if 0 \<le> rd \<and> 0 \<le> wr \<and> 0 \<le> threads \<and> (queued < 0 \<or> 0 < threads) then 0 else - 1) \<and>
          (rv = 0 \<and> threads + queued + 1 < 2 ^ 31 \<longrightarrow> valid_config (config_of opts srv refuse_doc fail)))"
proof (cases "parse entries argv")
  case None
  with assms show ?thesis by (simp add: parseCmdLine_def)
next
  case (Some used)
  then have opts: "opts = fold set_option used default_options"
    using assms by (auto simp: parseCmdLine_def Let_def split: if_splits)
  then have *: "opts = \<lparr>READ_PIPE_FD = last_use ''read-pipe-fd'' (- 1) used,
      WRITE_PIPE_FD = last_use ''write-pipe-fd'' (- 1) used, opt_max_threads = last_use ''max-threads'' 0 used,
      opt_max_queued = last_use ''max-queued-requests'' (- 1) used,
      KEEP_FDS = (''keep-fds'' \<in> fst ` set used), TRACE_ENABLED = (''trace-enabled'' \<in> fst ` set used)\<rparr>"
    using used_options [of used default_options] by (simp add: default_options_def)
  have "rv = (if 0 \<le> READ_PIPE_FD opts \<and> 0 \<le> WRITE_PIPE_FD opts \<and> 0 \<le> opt_max_threads opts \<and>
      (opt_max_queued opts < 0 \<or> 0 < opt_max_threads opts) then 0 else - 1)"
    using assms Some by (auto simp: parseCmdLine_def Let_def opts [symmetric] split: if_splits)
  with Some * show ?thesis
    by (simp add: Let_def) (auto simp: valid_config_def config_of_def capped_def cap_def)
qed

definition demo_parse :: option_parser where
  "demo_parse es argv = Some [(''read-pipe-fd'', 3), (''write-pipe-fd'', 9), (''max-threads'', 10),
     (''max-queued-requests'', 5), (''write-pipe-fd'', 4)]"

lemma accepted_command_line_witness:
  "demo_options = \<lparr>READ_PIPE_FD = 3, WRITE_PIPE_FD = 4, opt_max_threads = 10, opt_max_queued = 5,
     KEEP_FDS = False, TRACE_ENABLED = False\<rparr> \<and>
   valid_config (config_of demo_options (\<lambda>r resp. True) id False)"
proof -
  have "parseCmdLine demo_parse [] = (0, demo_options)"
    by (simp add: parseCmdLine_def demo_parse_def demo_options_def default_options_def set_option_def entries_def)
  from accepted_command_line [OF this, of "\<lambda>r resp. True" id False] show ?thesis
    by (auto simp: demo_parse_def Let_def)
qed

text \<open>
  The two limits are not checked together: options are accepted for which the number of
  slots, \<open>MAX_THREADS + MAX_QUEUED_REQUESTS + 1\<close> in \<open>int\<close>, overflows.
\<close>

lemma overflowing_limits_accepted:
  assumes "parse entries argv = Some [(''read-pipe-fd'', 3), (''write-pipe-fd'', 4),
    (''max-threads'', 2 ^ 31 - 1), (''max-queued-requests'', 0)]"
  shows "fst (parseCmdLine parse argv) = 0 \<and>
    2 ^ 31 \<le> opt_max_threads (snd (parseCmdLine parse argv)) + opt_max_queued (snd (parseCmdLine parse argv)) + 1"
  using assms by (simp add: parseCmdLine_def default_options_def set_option_def entries_def)

text \<open>
  On every way to shut down, both pipes are closed twice: the read pipe by
  \<open>stop_request_reader\<close> and the write pipe by the writer, and then both again by
  \<open>communicate\<close>.
\<close>

lemma pipes_closed_twice:
  assumes "r \<noteq> - 1" and "r \<noteq> w"
  shows "count_list (closes (shutdown writer_first writer_failed r w)) r = 2 \<and>
    count_list (closes (shutdown writer_first writer_failed r w)) w = 2"
  using assms
  by (cases writer_first; cases writer_failed)
    (simp_all add: shutdown_def Let_def writer_exit_def stop_request_reader_def communicate_exit_def close_fd_def)

text \<open>
  A log line is one line of level, domain and text: a reader that splits it at its first
  two bars gets the three back, when the domain has no bar in it.
\<close>

lemma log_line_splits:
  assumes "logfunc fits_mem (Some ldom) level msg = Some line" and "CHR 0x7C \<notin> set ldom" and "nul_free ldom"
  shows "\<exists>rest. line = level_text level @ bar @ rest \<and> CHR 0x7C \<notin> set (level_text level) \<and>
    takeWhile (\<lambda>ch. ch \<noteq> CHR 0x7C) rest = ldom \<and>
    drop (length ldom + 1) rest = c_str msg @ [CHR 0x0A]"
proof -
  have line: "line = level_text level @ bar @ (ldom @ bar @ c_str msg @ [CHR 0x0A])"
    using assms(1,3) by (auto simp: logfunc_def Let_def split: if_splits)
  have "takeWhile (\<lambda>ch. ch \<noteq> CHR 0x7C) (ldom @ bar @ c_str msg @ [CHR 0x0A]) = ldom"
    using assms(2) by (subst takeWhile_append2) (auto simp: bar_def)
  moreover have "drop (length ldom + 1) (ldom @ bar @ c_str msg @ [CHR 0x0A]) = c_str msg @ [CHR 0x0A]"
    by (simp add: bar_def)
  moreover have "CHR 0x7C \<notin> set (level_text level)" by (cases level) simp_all
  ultimately show ?thesis using line by blast
qed

end
