(* ===== verification/Lifecycle.thy ===== *)
theory Lifecycle
  imports Startup
begin

text \<open>
  The process from \<open>main\<close> to its exit status (\<open>create_thread\<close>, \<open>communicate\<close>,
  \<open>setup_logging\<close>, \<open>stop_logging\<close> and \<open>main\<close> of \<open>src/ioprocess.c\<close>): which threads are
  started and joined, in which order, and when the queues and streams they use are given
  up. What the threads do meanwhile is the subject of \<open>Transport\<close> and \<open>Pool\<close>.
\<close>

section \<open>Threads and actions\<close>

datatype thread = Request_reader | Response_writer | Request_handler | Log_writer

datatype action =
    New_queues
  | New_log_queue
  | Set_log_handler
  | Create thread
  | Join thread
  | Close int
  | Unref_queues
  | Log string
  | Fclose_stderr

text \<open>
  A run is the actions taken and how it ends: it returns a value, waits for ever (\<open>Diverge\<close>),
  or a thread does something undefined.
\<close>

type_synonym 'a run = "action list \<times> 'a outcome"

definition after :: "action list \<Rightarrow> 'a run \<Rightarrow> 'a run" where
  "after tr m = (tr @ fst m, snd m)"

definition then_do :: "unit run \<Rightarrow> 'a run \<Rightarrow> 'a run" where
  "then_do m m' =
     (case snd m of
        Ret u \<Rightarrow> after (fst m) m'
      | Exit n \<Rightarrow> (fst m, Exit n)
      | Undef \<Rightarrow> (fst m, Undef)
      | Diverge \<Rightarrow> (fst m, Diverge))"

text \<open>
  The parameter \<open>created\<close> says which threads can be created. With glib 2.32 or newer a failure
  ends the program in \<open>g_thread_new\<close>; the branches that handle it are those of older ones.

  A join returns when its thread ends. Here the read pipe comes to its end, so that the reader
  ends, and the methods return. The handler ends on the stop mark of the reader, and the writer
  on that of the handler: without the thread that pushes it, it waits for ever.
\<close>

fun thread_ends :: "(thread \<Rightarrow> bool) \<Rightarrow> thread \<Rightarrow> bool" where
  "thread_ends created Request_reader = True"
| "thread_ends created Request_handler = created Request_reader"
| "thread_ends created Response_writer = (created Request_reader \<and> created Request_handler)"
| "thread_ends created Log_writer = True"

definition join_thread :: "(thread \<Rightarrow> bool) \<Rightarrow> thread \<Rightarrow> unit run" where
  "join_thread created t = (if thread_ends created t then ([Join t], Ret ()) else ([], Diverge))"

definition communicate_clean :: "(thread \<Rightarrow> bool) \<Rightarrow> bool \<Rightarrow> bool \<Rightarrow> int \<Rightarrow> int \<Rightarrow> int \<Rightarrow> int run" where
  "communicate_clean created handlerThread writerThread readPipe writePipe rv =
     then_do (if handlerThread then join_thread created Request_handler else ([], Ret ()))
       (then_do (if writerThread then join_thread created Response_writer else ([], Ret ()))
          ([Close readPipe, Close writePipe, Unref_queues], Ret rv))"

definition communicate :: "(thread \<Rightarrow> bool) \<Rightarrow> int \<Rightarrow> int \<Rightarrow> int run" where
  "communicate created readPipe writePipe =
     (let tr = [New_queues] in
      if \<not> created Request_reader
      then after tr (communicate_clean created False False readPipe writePipe (- ENOMEM))
      else
        let tr = tr @ [Create Request_reader] in
        if \<not> created Response_writer
        then after tr (communicate_clean created False False readPipe writePipe (- ENOMEM))
        else
          let tr = tr @ [Create Response_writer] in
          if \<not> created Request_handler
          then after tr (communicate_clean created False True readPipe writePipe (- ENOMEM))
          else
            after (tr @ [Create Request_handler])
              (then_do (join_thread created Request_reader)
                 (communicate_clean created True True readPipe writePipe 0)))"

definition setup_logging :: "(thread \<Rightarrow> bool) \<Rightarrow> int \<times> action list" where
  "setup_logging created =
     (let tr = [New_log_queue, Set_log_handler] in
      if \<not> created Log_writer then (- ENOMEM, tr) else (0, tr @ [Create Log_writer]))"

text \<open>
  The log writer ends when its stream has an error or is at its end. Until then it uses the
  stream after every message, the one that \<open>stop_logging\<close> sends it included; after \<open>fclose\<close> that
  is undefined. The second argument says that it has ended before, on an error of the stream.
\<close>

definition stop_logging :: "bool \<Rightarrow> bool \<Rightarrow> unit run" where
  "stop_logging log_writer log_ended =
     after [Fclose_stderr, Log ''CLOSE'']
       (if \<not> log_writer then ([], Ret ())
        else if log_ended then ([Join Log_writer], Ret ()) else ([], Undef))"

text \<open>
  The last argument is \<open>closeUnrelatedFDs\<close> on the descriptors of the process. The result is
  the run, with the exit code, and the descriptors that are open when \<open>communicate\<close> starts.
\<close>

definition main_program :: "option_parser \<Rightarrow> string list \<Rightarrow> (thread \<Rightarrow> bool) \<Rightarrow> bool \<Rightarrow> int list
    \<Rightarrow> (int list option \<Rightarrow> int list \<Rightarrow> int \<times> int list) \<Rightarrow> int run \<times> int list" where
  "main_program parse argv created log_ended held_fds close_unrelated =
     (case parseCmdLine parse argv of (rv, opts) \<Rightarrow>
        if rv < 0 then (([], Ret (- 1)), held_fds)
        else case setup_logging created of (rv, tr) \<Rightarrow>
          if rv < 0 then ((tr, Ret (- rv)), held_fds)
          else
            let tr = tr @ [Log ''Starting ioprocess''];
                (rv, held_fds) =
                  (if \<not> KEEP_FDS opts then close_unrelated (Some (main_whitelist opts)) held_fds
                   else (rv, held_fds)) in
            if rv < 0 then ((tr, Ret (- rv)), held_fds)
            else
              (case communicate created (READ_PIPE_FD opts) (WRITE_PIPE_FD opts) of
                 (comm, Ret rv) \<Rightarrow>
                   after (tr @ comm @ [Log ''Shutting down ioprocess''])
                     (then_do (stop_logging True log_ended) ([], Ret rv))
               | run \<Rightarrow> after tr run, held_fds))"

section \<open>Threads that run\<close>

fun step_threads :: "action \<Rightarrow> thread set \<Rightarrow> thread set" where
  "step_threads (Create t) T = insert t T"
| "step_threads (Join t) T = T - {t}"
| "step_threads _ T = T"

definition running_after :: "action list \<Rightarrow> thread set" where
  "running_after tr = fold step_threads tr {}"

text \<open>The action \<open>a\<close> is taken while a thread of \<open>U\<close> runs.\<close>

fun taken_under :: "action \<Rightarrow> thread set \<Rightarrow> thread set \<Rightarrow> action list \<Rightarrow> bool" where
  "taken_under a U T [] = False"
| "taken_under a U T (b # tr) = ((a = b \<and> T \<inter> U \<noteq> {}) \<or> taken_under a U (step_threads b T) tr)"

definition queue_users :: "thread set" where
  "queue_users = {Request_reader, Response_writer, Request_handler}"

lemma taken_under_append:
  "taken_under a U T (xs @ ys) \<longleftrightarrow> taken_under a U T xs \<or> taken_under a U (fold step_threads xs T) ys"
  by (induction xs arbitrary: T) auto

lemma taken_under_iff:
  "taken_under a U {} tr \<longleftrightarrow> (\<exists>pre post. tr = pre @ a # post \<and> running_after pre \<inter> U \<noteq> {})"
proof
  have "\<exists>pre post. tr = pre @ a # post \<and> fold step_threads pre T \<inter> U \<noteq> {}" if "taken_under a U T tr" for T
    using that
  proof (induction tr arbitrary: T)
    case (Cons b tr)
    show ?case
    proof (cases "a = b \<and> T \<inter> U \<noteq> {}")
      case True
      then show ?thesis by (intro exI [of _ "[]"] exI [of _ tr]) simp
    next
      case False
      with Cons obtain pre post where "tr = pre @ a # post" "fold step_threads pre (step_threads b T) \<inter> U \<noteq> {}"
        by fastforce
      then show ?thesis by (intro exI [of _ "b # pre"] exI [of _ post]) simp
    qed
  qed simp
  then show "taken_under a U {} tr \<Longrightarrow> \<exists>pre post. tr = pre @ a # post \<and> running_after pre \<inter> U \<noteq> {}"
    by (simp add: running_after_def)
qed (auto simp: taken_under_append running_after_def)

lemmas lifecycle_defs =
  communicate_def communicate_clean_def setup_logging_def stop_logging_def running_after_def
  join_thread_def then_do_def after_def




section \<open>Properties\<close>

text \<open>
  C33: how \<open>communicate\<close> ends when threads cannot be created, where the read pipe comes to its
  end and the methods return. When only the handler is missing it never returns: it joins the
  writer, which waits for a stop mark nobody pushes. When the reader was created and the writer
  was not, it gives up the queues while the reader still uses them, and on no other run does it
  do so. It returns 0 when all three threads were created, and otherwise \<open>-ENOMEM\<close>.
\<close>

theorem communicate_without_threads:
  "snd (communicate created r w) =
     (if created Request_reader \<and> created Response_writer \<and> \<not> created Request_handler then Diverge
      else if created Request_reader \<and> created Response_writer \<and> created Request_handler then Ret 0
      else Ret (- ENOMEM)) \<and>
   ((\<exists>pre post. fst (communicate created r w) = pre @ Unref_queues # post \<and> running_after pre \<inter> queue_users \<noteq> {}) \<longleftrightarrow>
     created Request_reader \<and> \<not> created Response_writer)"
  unfolding taken_under_iff [symmetric]
  by (auto simp: lifecycle_defs queue_users_def Let_def insert_Diff_if)



text \<open>
  The exit code of a run that fails is the error number, except for a thread that
  \<open>communicate\<close> cannot create: there the code is negative.
\<close>

lemma exit_code_sign:
  assumes "parseCmdLine parse argv = (0, opts)" and "KEEP_FDS opts" and "created Log_writer"
    and "\<not> created Request_reader"
  shows "snd (fst (main_program parse argv created True held_fds close_unrelated)) = Ret (- ENOMEM)"
    and "snd (fst (main_program parse argv (created(Log_writer := False)) True held_fds close_unrelated)) = Ret ENOMEM"
  using assms by (simp_all add: main_program_def lifecycle_defs Let_def ENOMEM_def)

end
