(* ===== verification/Pool_Spec.thy ===== *)
theory Pool_Spec
  imports Pool
begin

text \<open>
  What the threads of \<open>src/ioprocess.c\<close> promise together, as a specification without threads:
  a bag of pending requests, each of which is answered in one step, at any time and in any
  order, and a stream of responses. Every run of the threads is a run of the specification.
\<close>

section \<open>The specification\<close>

record service =
  pending :: "json multiset"
  outbox :: "json list"
  sent :: "json list"

inductive spec_step :: "config \<Rightarrow> service \<Rightarrow> service \<Rightarrow> bool" for c where
  answer:
    "r \<in># pending s \<Longrightarrow> serves c r resp \<or> capped c \<and> resp = Some (refusal c r) \<Longrightarrow>
     spec_step c s (s\<lparr>pending := pending s - {# r #},
       outbox := outbox s @ (case resp of None \<Rightarrow> [] | Some d \<Rightarrow> [d])\<rparr>)"
| send:
    "outbox s = d # q \<Longrightarrow> spec_step c s (s\<lparr>outbox := q, sent := sent s @ [d]\<rparr>)"
| drop_requests:
    "may_fail c \<Longrightarrow> M \<subseteq># pending s \<Longrightarrow> spec_step c s (s\<lparr>pending := pending s - M\<rparr>)"
| drop_response:
    "may_fail c \<Longrightarrow> outbox s = d # q \<Longrightarrow> spec_step c s (s\<lparr>outbox := q\<rparr>)"

definition spec_start :: "json list \<Rightarrow> service" where
  "spec_start reqs = \<lparr>pending = mset reqs, outbox = [], sent = []\<rparr>"

section \<open>The threads refine it\<close>

text \<open>
  A request is pending from the pipe to the moment its response is queued, wherever it is in
  between: in a queue, in the hands of the handler, or with a worker.
\<close>

definition abs_threads :: "threads \<Rightarrow> service" where
  "abs_threads s = \<lparr>pending = mset (input s) + mset (msgs (requestQueue s)) + mset (in_hand (handler s)) +
       mset (poolQueue s) + mset (running (workers s)),
     outbox = msgs (responseQueue s), sent = written s\<rparr>"

lemma abs_threads_simps [simp]:
  "pending (abs_threads s) = mset (input s) + mset (msgs (requestQueue s)) + mset (in_hand (handler s)) +
     mset (poolQueue s) + mset (running (workers s))"
  "outbox (abs_threads s) = msgs (responseQueue s)" "sent (abs_threads s) = written s"
  by (simp_all add: abs_threads_def)

definition refuses_ok :: "config \<Rightarrow> threads \<Rightarrow> bool" where
  "refuses_ok c s \<longleftrightarrow> (refusing (handler s) \<longrightarrow> capped c)"

lemma refuses_ok_step: "pool_step c s t \<Longrightarrow> refuses_ok c s \<Longrightarrow> refuses_ok c t"
  by (induction rule: pool_step.induct) (auto simp: refuses_ok_def)

lemma spec_answerI:
  assumes "serves c r resp \<or> capped c \<and> resp = Some (refusal c r)" and "pending s = add_mset r (pending t)"
    and "outbox t = outbox s @ (case resp of None \<Rightarrow> [] | Some d \<Rightarrow> [d])" and "sent t = sent s"
  shows "spec_step c s t"
  using answer [of r s c resp] assms by (cases s; cases t) simp

lemma spec_sendI:
  assumes "outbox s = d # outbox t" and "sent t = sent s @ [d]" and "pending t = pending s"
  shows "spec_step c s t"
  using send [of s d "outbox t" c] assms by (cases s; cases t) simp

lemma spec_dropI:
  assumes "may_fail c" and "pending t \<subseteq># pending s" and "outbox t = outbox s" and "sent t = sent s"
  shows "spec_step c s t"
  using drop_requests [of c "pending s - pending t" s] assms by (cases s; cases t) (simp add: subset_mset.diff_diff_right)

lemma spec_drop_responseI:
  assumes "may_fail c" and "outbox s = d # outbox t" and "pending t = pending s" and "sent t = sent s"
  shows "spec_step c s t"
  using drop_response [of c s d "outbox t"] assms by (cases s; cases t) simp

lemma abs_step:
  assumes "pool_step c s t" and "refuses_ok c s"
  shows "abs_threads t = abs_threads s \<or> spec_step c (abs_threads s) (abs_threads t)"
  using assms
proof (cases rule: pool_step.cases)
  case (read_fails)
  then show ?thesis by (intro disjI2 spec_dropI) (auto simp: ac_simps)
next
  case (params_malloc_fails r q)
  then show ?thesis by (intro disjI2 spec_dropI) (auto simp: ac_simps)
next
  case (refuse r)
  with assms(2) show ?thesis
    by (intro disjI2 spec_answerI [where r = r and resp = "Some (refusal c r)"]) (auto simp: refuses_ok_def)
next
  case (worker_respond us r vs resp)
  then show ?thesis
    by - (rule disjI2, rule spec_answerI [where r = r and resp = resp], rule disjI1, auto split: option.split)
next
  case (write_response d q)
  then show ?thesis by (intro disjI2 spec_sendI [where d = d]) auto
next
  case (write_fails d q)
  then show ?thesis by (intro disjI2 spec_drop_responseI [where d = d]) auto
qed (auto simp: abs_threads_def)

lemma abs_run:
  assumes "(pool_step c)\<^sup>*\<^sup>* (start c reqs) s"
  shows "(spec_step c)\<^sup>*\<^sup>* (spec_start reqs) (abs_threads s) \<and> refuses_ok c s"
  using assms
proof (induction rule: rtranclp_induct)
  case base
  have "abs_threads (start c reqs) = spec_start reqs" by (simp add: abs_threads_def spec_start_def start_def)
  then show ?case by (simp add: refuses_ok_def start_def)
next
  case (step s t)
  with abs_step [OF step(2)] refuses_ok_step [OF step(2)] show ?case
    by (metis rtranclp.rtrancl_into_rtrancl)
qed

section \<open>One thread, no limit: the order of the requests\<close>

definition in_order :: "json list \<Rightarrow> threads \<Rightarrow> bool" where
  "in_order reqs s \<longleftrightarrow> length (workers s) \<le> 1 \<and> \<not> refusing (handler s) \<and>
     map fst (answered s) @ running (workers s) @ poolQueue s @ in_hand (handler s) @ msgs (requestQueue s) @ input s = reqs"

lemma single_worker:
  assumes "length (us @ w # vs) \<le> 1"
  shows "us = []" "vs = []"
  using assms by auto

lemma in_order_step:
  assumes "pool_step c s t" and "MAX_THREADS c = 1" and "\<not> capped c" and "\<not> may_fail c" and "in_order reqs s"
  shows "in_order reqs t"
  using assms
proof (cases rule: pool_step.cases)
  case (worker_respond us r vs resp)
  then have "length (us @ Running r # vs) \<le> 1" using assms(5) unfolding in_order_def by metis
  note single_worker [OF this]
  with worker_respond assms(5) show ?thesis by (simp add: in_order_def)
next
  case (worker_finish us vs)
  then have "length (us @ Finishing # vs) \<le> 1" using assms(5) unfolding in_order_def by metis
  note single_worker [OF this]
  with worker_finish assms(5) show ?thesis by (simp add: in_order_def)
qed (auto simp: in_order_def)

lemma in_order_run:
  assumes "MAX_THREADS c = 1" and "\<not> capped c" and "\<not> may_fail c" and "(pool_step c)\<^sup>*\<^sup>* (start c reqs) s"
  shows "in_order reqs s"
  using assms(4)
proof (induction rule: rtranclp_induct)
  case base
  show ?case by (simp add: in_order_def start_def)
qed (use assms in_order_step in blast)

section \<open>Properties\<close>

text \<open>
  C8: every run of the threads, whatever their interleaving and whatever fails, is a run of
  the specification: requests are answered one by one, each by what its handler gives or,
  with a capped queue, by the refusal; responses go out in the order in which they were
  queued; and only failures drop a request or a response.
\<close>

theorem threads_refine_service:
  assumes "(pool_step c)\<^sup>*\<^sup>* (start c reqs) s"
  shows "(spec_step c)\<^sup>*\<^sup>* (spec_start reqs) (abs_threads s)"
  using abs_run [OF assms] by blast

lemma threads_refine_service_witness:
  "(spec_step demo_config)\<^sup>*\<^sup>* (spec_start [JNull]) \<lparr>pending = {#}, outbox = [], sent = [JNull]\<rparr>"
  using threads_refine_service [OF demo_run] by (simp add: abs_threads_def one_answered_def start_def)

text \<open>
  With one thread and no limit on the queue, requests are answered in the order in
  which they came in, and the responses written are those of a first part of the requests,
  in that order.
\<close>

lemma one_thread_in_order:
  assumes "MAX_THREADS c = 1" and "\<not> capped c" and "\<not> may_fail c" and "(pool_step c)\<^sup>*\<^sup>* (start c reqs) s"
  shows "\<exists>later unsent. reqs = map fst (answered s) @ later \<and>
    List.map_filter snd (answered s) = written s @ unsent"
proof -
  from in_order_run [OF assms] have "\<exists>later. reqs = map fst (answered s) @ later"
    by (auto simp: in_order_def)
  moreover have "response_side s"
    using pool.inv_reachable [OF refl assms(4)] assms(3) by (simp add: pool_inv_def)
  then have "\<exists>unsent. List.map_filter snd (answered s) = written s @ unsent"
    by (metis response_side_def responses_def)
  ultimately show ?thesis by blast
qed

end
