(* ===== verification/Serial.thy ===== *)
theory Serial
  imports Pool_Spec
begin

text \<open>
  The threads together with the system they work on. \<open>exec_step\<close> is a step of the threads in
  which a worker that answers runs \<open>servRequest\<close> on the state of the process; all
  other steps leave that state alone. With one worker thread the handlers do not interleave,
  so this is what the program does, and it is shown to do the same as a loop that takes the
  requests one after the other.
\<close>

section \<open>Requests one after the other\<close>

text \<open>
  The pool at work: a request is served by \<open>servRequest\<close> in some state of the process, and
  refused by \<open>servQueueFull\<close>.
\<close>

definition served_by :: "'w posix \<Rightarrow> json \<Rightarrow> json option \<Rightarrow> bool" where
  "served_by P req resp \<longleftrightarrow> (\<exists>s s'. servRequest P req s = Ret (resp, s'))"

definition refusal_by :: "'w posix \<Rightarrow> json \<Rightarrow> json" where
  "refusal_by P req = (case servQueueFull P req of Ret d \<Rightarrow> d | _ \<Rightarrow> JNull)"

fun serve_all :: "'w posix \<Rightarrow> json list \<Rightarrow> 'w proc \<Rightarrow> (json option list \<times> 'w proc) outcome" where
  "serve_all P [] w = Ret ([], w)"
| "serve_all P (r # rs) w =
     bind_outcome (servRequest P r w) (\<lambda>(resp, w).
     bind_outcome (serve_all P rs w) (\<lambda>(resps, w). Ret (resp # resps, w)))"

lemma serve_all_append:
  "serve_all P (xs @ ys) w =
     bind_outcome (serve_all P xs w) (\<lambda>(as, w).
     bind_outcome (serve_all P ys w) (\<lambda>(bs, w). Ret (as @ bs, w)))"
proof (induction xs arbitrary: w)
  case Nil
  then show ?case by (cases "serve_all P ys w") auto
qed (simp add: bind_outcome_assoc split_def)

lemma serve_all_returns:
  "serve_all P rs w = Ret out \<Longrightarrow> r \<in> set rs \<Longrightarrow> \<exists>resp. served_by P r resp"
proof (induction rs arbitrary: w out)
  case (Cons a rs)
  from Cons.prems(1) obtain resp w1 rest where
    first: "servRequest P a w = Ret (resp, w1)" and rest: "serve_all P rs w1 = Ret rest"
    by (auto simp: bind_outcome_eq_Ret)
  from Cons.prems(2) consider "r = a" | "r \<in> set rs" by auto
  then show ?case
  proof cases
    case 1
    with first show ?thesis by (auto simp: served_by_def)
  next
    case 2
    from Cons.IH [OF rest this] show ?thesis .
  qed
qed simp

lemma serve_all_snoc:
  "serve_all P xs w = Ret (as, w1) \<Longrightarrow> servRequest P r w1 = Ret (resp, w2) \<Longrightarrow>
   serve_all P (xs @ [r]) w = Ret (as @ [resp], w2)"
  by (simp add: serve_all_append)

lemma serve_all_next:
  assumes "serve_all P (xs @ r # ys) w = Ret out" and "serve_all P xs w = Ret (as, w1)"
  shows "\<exists>resp w2. servRequest P r w1 = Ret (resp, w2)"
  using assms by (auto simp: serve_all_append bind_outcome_eq_Ret)

section \<open>Steps on a system\<close>

inductive exec_step :: "'w posix \<Rightarrow> config \<Rightarrow> threads \<times> 'w proc \<Rightarrow> threads \<times> 'w proc \<Rightarrow> bool"
  for P c where
  quiet: "pool_step c s t \<Longrightarrow> answered t = answered s \<Longrightarrow> exec_step P c (s, w) (t, w)"
| refused: "pool_step c s t \<Longrightarrow> handler s = Refusing r \<Longrightarrow> handler t = Restoring \<Longrightarrow>
    exec_step P c (s, w) (t, w)"
| served: "workers s = us @ Running r # vs \<Longrightarrow> servRequest P r w = Ret (resp, w') \<Longrightarrow>
    pool_step c s t \<Longrightarrow> workers t = us @ Finishing # vs \<Longrightarrow> answered t = answered s @ [(r, resp)] \<Longrightarrow>
    exec_step P c (s, w) (t, w')"

lemma exec_pool: "exec_step P c x y \<Longrightarrow> pool_step c (fst x) (fst y)"
  by (cases rule: exec_step.cases) auto

lemma exec_run_pool: "(exec_step P c)\<^sup>*\<^sup>* x y \<Longrightarrow> (pool_step c)\<^sup>*\<^sup>* (fst x) (fst y)"
  by (induction rule: rtranclp_induct) (auto dest: exec_pool intro: rtranclp.rtrancl_into_rtrancl)

text \<open>A run with one thread and no limit: the state is that of the requests answered so far.\<close>

definition one_thread :: "config \<Rightarrow> bool" where
  "one_thread c \<longleftrightarrow> MAX_THREADS c = 1 \<and> \<not> capped c \<and> \<not> may_fail c"

definition serial_inv :: "'w posix \<Rightarrow> config \<Rightarrow> json list \<Rightarrow> 'w proc \<Rightarrow> threads \<times> 'w proc \<Rightarrow> bool" where
  "serial_inv P c reqs w0 x \<longleftrightarrow> pool_inv c reqs (fst x) \<and>
     (one_thread c \<longrightarrow> in_order reqs (fst x) \<and>
        serve_all P (map fst (answered (fst x))) w0 = Ret (map snd (answered (fst x)), snd x))"

lemma serial_inv_step:
  assumes inv: "serial_inv P c reqs w0 x" and step: "exec_step P c x y"
  shows "serial_inv P c reqs w0 y"
proof -
  note ps = exec_pool [OF step]
  have "pool_inv c reqs (fst y)" using inv ps pool.inv_step by (auto simp: serial_inv_def)
  moreover have "in_order reqs (fst y) \<and>
      serve_all P (map fst (answered (fst y))) w0 = Ret (map snd (answered (fst y)), snd y)"
    if c: "one_thread c"
  proof -
    from inv c have *: "in_order reqs (fst x)"
      "serve_all P (map fst (answered (fst x))) w0 = Ret (map snd (answered (fst x)), snd x)"
      by (auto simp: serial_inv_def)
    have "in_order reqs (fst y)" using c * ps in_order_step by (auto simp: one_thread_def)
    moreover from step have "serve_all P (map fst (answered (fst y))) w0 = Ret (map snd (answered (fst y)), snd y)"
    proof cases
      case (refused s t r w)
      with *(1) show ?thesis by (simp add: in_order_def)
    next
      case (served s us r vs w resp w' t)
      with *(2) serve_all_snoc show ?thesis by fastforce
    qed (use *(2) in simp)
    ultimately show ?thesis by blast
  qed
  ultimately show ?thesis by (simp add: serial_inv_def)
qed

interpretation exec: ending_system "\<lambda>x. x = (start c reqs, w0)" "exec_step P c" "serial_inv P c reqs w0"
    "\<lambda>x. steps_left (fst x)"
  for P :: "'w posix" and c reqs w0
proof
  fix x
  assume "x = (start c reqs, w0)"
  moreover have "pool_inv c reqs (start c reqs)" by (rule pool.inv_initial) (rule refl)
  ultimately show "serial_inv P c reqs w0 x"
    by (simp add: serial_inv_def in_order_def) (simp add: start_def)
next
  fix x y
  show "serial_inv P c reqs w0 x \<Longrightarrow> exec_step P c x y \<Longrightarrow> serial_inv P c reqs w0 y"
    by (rule serial_inv_step)
  show "exec_step P c x y \<Longrightarrow> steps_left (fst y) < steps_left (fst x)"
    by (rule steps_left_step [OF exec_pool])
qed

text \<open>Where the threads can go on, so can the program, as long as the handlers return.\<close>

lemma pool_step_exec:
  assumes inv: "serial_inv P c reqs w0 (s, w)" and c: "one_thread c" and sv: "serves c = served_by P"
    and ret: "serve_all P reqs w0 = Ret out" and step: "pool_step c s t"
  shows "\<exists>y. exec_step P c (s, w) y"
  using step
proof (cases rule: pool_step.cases)
  case (refuse r)
  then have "handler t = Restoring" by simp
  with exec_step.refused [OF step refuse(2)] show ?thesis by blast
next
  case (worker_respond us r vs resp0)
  from inv c have *: "in_order reqs s" "serve_all P (map fst (answered s)) w0 = Ret (map snd (answered s), w)"
    by (auto simp: serial_inv_def)
  have "length (us @ Running r # vs) \<le> 1" using *(1) worker_respond(2) unfolding in_order_def by metis
  from single_worker [OF this] *(1) worker_respond(2) obtain later where "reqs = map fst (answered s) @ r # later"
    by (auto simp: in_order_def)
  with ret *(2) obtain resp w' where r: "servRequest P r w = Ret (resp, w')"
    using serve_all_next by metis
  then have "serves c r resp" by (auto simp: sv served_by_def)
  then have go: "pool_step c s
      (s\<lparr>workers := us @ Finishing # vs,
          responseQueue := responseQueue s @ (case resp of None \<Rightarrow> [] | Some d \<Rightarrow> [Msg d]),
          answered := answered s @ [(r, resp)]\<rparr>)"
    by (rule pool_step.worker_respond [OF worker_respond(2)])
  have "exec_step P c (s, w)
      (s\<lparr>workers := us @ Finishing # vs,
          responseQueue := responseQueue s @ (case resp of None \<Rightarrow> [] | Some d \<Rightarrow> [Msg d]),
          answered := answered s @ [(r, resp)]\<rparr>, w')"
    by (rule exec_step.served [OF worker_respond(2) r go]) simp_all
  then show ?thesis by blast
qed (use exec_step.quiet [OF step] in auto)

lemma one_thread_serial:
  assumes "MAX_THREADS c = 1" and "\<not> capped c" and "\<not> may_fail c" and "serves c = served_by P"
    and "serve_all P reqs w0 = Ret (resps, w1)"
    and "(exec_step P c)\<^sup>*\<^sup>* (start c reqs, w0) (s, w)"
  shows "(\<exists>y. (exec_step P c)\<^sup>*\<^sup>* (s, w) y \<and> (\<forall>z. \<not> exec_step P c y z)) \<and>
    ((\<forall>z. \<not> exec_step P c (s, w) z) \<longrightarrow> w = w1 \<and> written s = List.map_filter id resps)"
proof (intro conjI impI)
  show "\<exists>y. (exec_step P c)\<^sup>*\<^sup>* (s, w) y \<and> (\<forall>z. \<not> exec_step P c y z)" by (rule exec.run_ends)
next
  assume rest: "\<forall>z. \<not> exec_step P c (s, w) z"
  have c: "one_thread c" using assms(1-3) by (simp add: one_thread_def)
  have inv: "serial_inv P c reqs w0 (s, w)" by (rule exec.inv_reachable [OF refl assms(6)])
  then have p: "pool_inv c reqs s" "in_order reqs s"
    "serve_all P (map fst (answered s)) w0 = Ret (map snd (answered s), w)"
    using c by (auto simp: serial_inv_def)
  have stuck: "\<not> pool_step c s t" for t
    using rest pool_step_exec [OF inv c assms(4,5)] by blast
  have "all_served c reqs"
    using serve_all_returns [OF assms(5)] by (auto simp: all_served_def list_all_iff assms(4))
  then have d: "drained s"
    using p(1) assms(1-3) stuck by (intro stuck_drained) (auto simp: valid_config_def)
  then have "map fst (answered s) = reqs" using p(2) by (auto simp: in_order_def drained_def)
  with p(3) assms(5) have *: "map snd (answered s) = resps" "w = w1" by auto
  show "w = w1" by (rule *(2))
  have "List.map_filter snd al = List.map_filter id (map snd al)" for al :: "(json \<times> json option) list"
    by (simp add: List.map_filter_def filter_map comp_def)
  with *(1) show "written s = List.map_filter id resps"
    using drained_answers(2) [OF p(1) assms(3) d] by (metis responses_def)
qed

section \<open>Properties\<close>

text \<open>
  C22: with one thread and no limit on the queue, where every request returns when they are
  executed one after the other in the order they came in, and allocations, the thread start
  and writes succeed, the program is a sequential server: every run comes to rest after at
  most \<open>12 n + 26\<close> steps for \<open>n\<close> requests, it can always get there, and when it has come to
  rest the responses written are those of that execution, in its order, and the state of the
  system is the one it leaves.
\<close>

theorem one_thread_is_serial:
  assumes "MAX_THREADS c = 1" and "\<not> capped c" and "\<not> may_fail c" and "serves c = served_by P"
    and "serve_all P reqs w0 = Ret (resps, w1)"
    and "(exec_step P c ^^ k) (start c reqs, w0) (s, w)"
  shows "k \<le> 12 * length reqs + 26 \<and>
    (\<exists>t. (exec_step P c)\<^sup>*\<^sup>* (s, w) (t, w1) \<and> (\<forall>z. \<not> exec_step P c (t, w1) z)) \<and>
    ((\<forall>z. \<not> exec_step P c (s, w) z) \<longrightarrow> w = w1 \<and> written s = List.map_filter id resps)"
proof (intro conjI impI)
  show "k \<le> 12 * length reqs + 26"
    using exec.run_bound [OF assms(6)] by (simp add: steps_left_def start_def)
  note run = relpowp_imp_rtranclp [OF assms(6)]
  obtain t v where t: "(exec_step P c)\<^sup>*\<^sup>* (s, w) (t, v)" "\<forall>z. \<not> exec_step P c (t, v) z"
    using exec.run_ends by (metis surj_pair)
  from one_thread_serial [OF assms(1-5) rtranclp_trans [OF run t(1)]] t(2) have "v = w1" by blast
  with t show "\<exists>t. (exec_step P c)\<^sup>*\<^sup>* (s, w) (t, w1) \<and> (\<forall>z. \<not> exec_step P c (t, w1) z)" by blast
  assume "\<forall>z. \<not> exec_step P c (s, w) z"
  with one_thread_serial [OF assms(1-5) run] show "w = w1" "written s = List.map_filter id resps" by blast+
qed

definition ping_request :: json where
  "ping_request = JMap [(''id'', JLong 7), (''methodName'', JString ''ping'')]"

definition pong_response :: json where
  "pong_response = buildResponse 7 None (Some (JString ''pong''))"

lemma ping_is_request: "is_request ping_request 7 ''ping''"
  by (simp add: is_request_def ping_request_def c_str_def)

lemma ping_returns: "servRequest demo_posix ping_request s = Ret (Some pong_response, s)"
proof -
  have "getCallback (c_str ''ping'') = Some (exp_ping :: world handler)"
    by (simp add: getCallback_def exportedFunctions_def c_streq_def c_str_def)
  then show ?thesis
    by (simp add: servRequest_dispatch [OF ping_is_request] exp_ping_def JsonNode_newFromString_def c_str_def
        pong_response_def)
qed

definition ping_serial_config :: config where
  "ping_serial_config = \<lparr>MAX_THREADS = 1, MAX_QUEUED_REQUESTS = - 1, serves = served_by demo_posix,
     refusal = refusal_by demo_posix, may_fail = False\<rparr>"

lemma one_thread_is_serial_witness:
  "\<exists>s w. (exec_step demo_posix ping_serial_config)\<^sup>*\<^sup>* (start ping_serial_config [ping_request], demo_proc []) (s, w) \<and>
    w = demo_proc [] \<and> written s = [pong_response]"
proof -
  let ?run = "(exec_step demo_posix ping_serial_config)\<^sup>*\<^sup>* (start ping_serial_config [ping_request], demo_proc [])"
  have c: "MAX_THREADS ping_serial_config = 1" "\<not> capped ping_serial_config" "\<not> may_fail ping_serial_config"
    "serves ping_serial_config = served_by demo_posix"
    by (simp_all add: ping_serial_config_def capped_def)
  have "serve_all demo_posix [ping_request] (demo_proc []) = Ret ([Some pong_response], demo_proc [])"
    by (simp add: ping_returns)
  note serial = one_thread_is_serial [OF c this]
  from serial [of 0] obtain t where
    t: "?run (t, demo_proc [])" "\<forall>z. \<not> exec_step demo_posix ping_serial_config (t, demo_proc []) z"
    by auto
  from rtranclp_imp_relpowp [OF t(1)] obtain k where
    "(exec_step demo_posix ping_serial_config ^^ k)
      (start ping_serial_config [ping_request], demo_proc []) (t, demo_proc [])"
    by blast
  from serial [OF this] t(2) have "written t = List.map_filter id [Some pong_response]" by blast
  with t(1) show ?thesis by auto
qed

end
