(* ===== verification/Methods.thy ===== *)
theory Methods
  imports Request
begin

text \<open>
  The exported functions side by side: the arguments each of them takes, and what holds of
  every one of them. The table restates the calls of \<open>safeGetArgValues\<close> in
  \<open>src/exported-functions.c\<close> as a specification of the protocol.
\<close>

section \<open>The arguments of the methods\<close>

type_synonym signature = "(string \<times> JsonNodeType) list"

definition signatures :: "(string \<times> signature) list" where
  "signatures = [
     (''echo'', [(''text'', JT_STRING), (''sleep'', JT_LONG)]),
     (''stat'', [(''path'', JT_STRING)]),
     (''lstat'', [(''path'', JT_STRING)]),
     (''statvfs'', [(''path'', JT_STRING)]),
     (''access'', [(''path'', JT_STRING), (''mode'', JT_LONG)]),
     (''rename'', [(''oldpath'', JT_STRING), (''newpath'', JT_STRING)]),
     (''unlink'', [(''path'', JT_STRING)]),
     (''rmdir'', [(''path'', JT_STRING)]),
     (''link'', [(''oldpath'', JT_STRING), (''newpath'', JT_STRING)]),
     (''symlink'', [(''oldpath'', JT_STRING), (''newpath'', JT_STRING)]),
     (''chmod'', [(''path'', JT_STRING), (''mode'', JT_LONG)]),
     (''readfile'', [(''path'', JT_STRING), (''direct'', JT_BOOLEAN)]),
     (''glob'', [(''pattern'', JT_STRING)]),
     (''listdir'', [(''path'', JT_STRING)]),
     (''writefile'', [(''path'', JT_STRING), (''data'', JT_STRING), (''direct'', JT_BOOLEAN)]),
     (''lexists'', [(''path'', JT_STRING)]),
     (''truncate'', [(''path'', JT_STRING), (''size'', JT_LONG), (''mode'', JT_LONG), (''excl'', JT_BOOLEAN)]),
     (''mkdir'', [(''path'', JT_STRING), (''mode'', JT_LONG)]),
     (''fsyncPath'', [(''path'', JT_STRING)]),
     (''touch'', [(''path'', JT_STRING), (''flags'', JT_LONG), (''mode'', JT_LONG)]),
     (''probe_block_size'', [(''dir'', JT_STRING)])]"

text \<open>A map has the arguments of a signature, with their types.\<close>

definition typed :: "json \<Rightarrow> signature \<Rightarrow> bool" where
  "typed a sig \<longleftrightarrow> is_JMap a \<and>
     list_all (\<lambda>(n, t). \<exists>v. map_get a n = Some v \<and> JsonNode_getType v = t) sig"

text \<open>A function extracts the arguments of a signature into variables that fit them.\<close>

definition arg_sig :: "arg list \<Rightarrow> signature" where
  "arg_sig argp = map (\<lambda>(n, t, ty, old). (n, t)) argp"

definition takes :: "'w handler \<Rightarrow> signature \<Rightarrow> bool" where
  "takes f sig \<longleftrightarrow> (\<exists>argp body. (\<forall>P args s. f P args s = with_args args argp (body P) s) \<and>
     arg_sig argp = sig \<and> list_all (\<lambda>(n, t, ty, old). fits t ty) argp)"

lemma takesI:
  assumes "\<And>P args s. f P args s = with_args args argp (body P) s" and "arg_sig argp = sig"
    and "list_all (\<lambda>(n, t, ty, old). fits t ty) argp"
  shows "takes f sig"
  unfolding takes_def using assms by blast

lemma all_takes:
  "takes exp_echo [(''text'', JT_STRING), (''sleep'', JT_LONG)]"
  "takes exp_stat [(''path'', JT_STRING)]"
  "takes exp_lstat [(''path'', JT_STRING)]"
  "takes exp_statvfs [(''path'', JT_STRING)]"
  "takes exp_access [(''path'', JT_STRING), (''mode'', JT_LONG)]"
  "takes exp_rename [(''oldpath'', JT_STRING), (''newpath'', JT_STRING)]"
  "takes exp_unlink [(''path'', JT_STRING)]"
  "takes exp_rmdir [(''path'', JT_STRING)]"
  "takes exp_link [(''oldpath'', JT_STRING), (''newpath'', JT_STRING)]"
  "takes exp_symlink [(''oldpath'', JT_STRING), (''newpath'', JT_STRING)]"
  "takes exp_chmod [(''path'', JT_STRING), (''mode'', JT_LONG)]"
  "takes exp_readfile [(''path'', JT_STRING), (''direct'', JT_BOOLEAN)]"
  "takes exp_glob [(''pattern'', JT_STRING)]"
  "takes exp_listdir [(''path'', JT_STRING)]"
  "takes exp_writefile [(''path'', JT_STRING), (''data'', JT_STRING), (''direct'', JT_BOOLEAN)]"
  "takes exp_lexists [(''path'', JT_STRING)]"
  "takes exp_truncate [(''path'', JT_STRING), (''size'', JT_LONG), (''mode'', JT_LONG), (''excl'', JT_BOOLEAN)]"
  "takes exp_mkdir [(''path'', JT_STRING), (''mode'', JT_LONG)]"
  "takes exp_fsyncPath [(''path'', JT_STRING)]"
  "takes exp_touch [(''path'', JT_STRING), (''flags'', JT_LONG), (''mode'', JT_LONG)]"
  "takes exp_probe_block_size [(''dir'', JT_STRING)]"
  by (rule takesI,
      (rule exp_echo_def exp_stat_def exp_lstat_def exp_statvfs_def exp_access_def exp_rename_def
         exp_unlink_def exp_rmdir_def exp_link_def exp_symlink_def exp_chmod_def exp_readfile_def
         exp_glob_def exp_listdir_def exp_writefile_def exp_lexists_def exp_truncate_def exp_mkdir_def
         exp_fsyncPath_def exp_touch_def exp_probe_block_size_def),
      simp add: arg_sig_def, simp)+

lemma signature_takes:
  fixes f :: "'w handler"
  assumes "(n, f) \<in> set exportedFunctions" and "(n, sig) \<in> set signatures"
  shows "takes f sig"
  using assms(2,1) unfolding signatures_def list.set insert_iff
  by (elim disjE; simp add: exportedFunctions_def all_takes)

section \<open>Arguments that are missing\<close>

lemma typed_args_ok:
  assumes "typed a (arg_sig argp)" and "list_all (\<lambda>(n, t, ty, old). fits t ty) argp"
  shows "list_all (arg_ok a) argp"
  using assms by (auto simp: typed_def arg_sig_def arg_ok_def list_all_iff)

lemma takes_missing:
  assumes f: "takes f (before @ (m, t) # after)" and a: "typed a before" and m: "map_get a m = None"
  shows "f P (Some a) s = Ret ((None, Some (argument_error
    (''arg '' @ [CHR 0x27] @ m @ [CHR 0x27] @ '' was not found in list''))), s)"
proof -
  from f obtain argp body where f: "f P (Some a) s = with_args (Some a) argp (body P) s"
    and argp: "arg_sig argp = before @ (m, t) # after" "list_all (\<lambda>(n, t, ty, old). fits t ty) argp"
    unfolding takes_def by blast
  from argp(1) obtain xs ty old ys where x: "argp = xs @ (m, t, ty, old) # ys" "arg_sig xs = before"
    by (force simp: arg_sig_def map_eq_append_conv map_eq_Cons_conv)
  have "list_all (arg_ok a) xs" using a argp(2) x by (intro typed_args_ok) auto
  then have "\<exists>vs. safeGetArgValues (Some a) argp = Ret (vs, Some (argument_error
      (''arg '' @ [CHR 0x27] @ m @ [CHR 0x27] @ '' was not found in list'')))"
    unfolding x(1)
  proof (induction xs)
    case Nil
    then show ?case using a m by (simp add: safeGetArg_missing typed_def)
  next
    case (Cons y xs)
    obtain n u uy old' where "y = (n, u, uy, old')" by (cases y) auto
    with Cons a show ?case by (auto simp: safeGetArgValue_ok typed_def)
  qed
  then show ?thesis by (auto simp: f with_args_def)
qed

lemma takes_no_map:
  assumes "takes f sig" and "sig \<noteq> []" and "args = None \<or> (\<exists>a. args = Some a \<and> \<not> is_JMap a)"
  shows "f P args s = Ret ((None, Some (argument_error
    (if args = None then ''args is empty'' else ''args must be a map''))), s)"
proof -
  from assms(1) obtain argp body where f: "f P args s = with_args args argp (body P) s"
    and argp: "arg_sig argp = sig"
    unfolding takes_def by blast
  with assms(2) obtain x xs where x: "argp = x # xs" by (cases argp) (auto simp: arg_sig_def)
  obtain n t ty old where "x = (n, t, ty, old)" by (cases x) auto
  with x assms(3) show ?thesis
    by (auto simp: f with_args_def safeGetArgValue_def safeGetArg_def is_JMap_def)
qed

lemma signature_entry:
  assumes "(n, sig) \<in> set signatures"
  shows "\<exists>f. (n, f) \<in> set (exportedFunctions :: (string \<times> 'w handler) list)"
  using assms unfolding signatures_def list.set insert_iff
  by (elim disjE; simp add: exportedFunctions_def)

section \<open>Well-typed requests are well-defined\<close>

text \<open>
  On arguments of their types no function but \<open>readfile\<close> does anything undefined, whatever
  the system calls return.
\<close>

lemma typed_cases:
  "JsonNode_getType v = JT_STRING \<longleftrightarrow> (\<exists>x. v = JString x)"
  "JsonNode_getType v = JT_LONG \<longleftrightarrow> (\<exists>l. v = JLong l)"
  "JsonNode_getType v = JT_BOOLEAN \<longleftrightarrow> (\<exists>b. v = JBoolean b)"
  by (cases v; simp)+

lemma bind_eq_Undef:
  "bind_outcome m f = Undef \<longleftrightarrow> m = Undef \<or> (\<exists>a. m = Ret a \<and> f a = Undef)"
  by (cases m) auto

lemma of_option_not_Undef [simp]: "of_option x \<noteq> Undef"
  by (cases x) auto

definition defined_on :: "'w handler \<Rightarrow> signature \<Rightarrow> bool" where
  "defined_on f sig \<longleftrightarrow> (\<forall>P a s. typed a sig \<longrightarrow> f P (Some a) s \<noteq> Undef)"

lemma std_call_defined [simp]: "std_call P f s \<noteq> Undef"
  by (simp add: std_call_def split: prod.split)

lemma write_body_defined: "write_body P fd data s \<noteq> Undef"
  by (auto simp: write_body_def bind_eq_Undef split: prod.split_asm option.split_asm)

lemma probe_loop_defined: "probe_loop P fd sizes s \<noteq> Undef"
  by (induction P fd sizes s rule: probe_loop.induct) (auto simp: bind_eq_Undef split: if_split_asm)

lemma lists_defined:
  "append_all ps JsonNode_newArray \<noteq> Undef" "listdir_loop ps JsonNode_newArray \<noteq> Undef"
  by (simp_all add: JsonNode_newArray_def append_all_array listdir_loop_array)

lemmas handler_defs =
  exp_echo_def exp_stat_def exp_lstat_def exp_statvfs_def exp_access_def exp_rename_def
  exp_unlink_def exp_rmdir_def exp_link_def exp_symlink_def exp_chmod_def
  exp_glob_def exp_listdir_def exp_writefile_def exp_lexists_def exp_truncate_def exp_mkdir_def
  exp_fsyncPath_def exp_touch_def exp_probe_block_size_def

lemma all_defined:
  "defined_on exp_echo [(''text'', JT_STRING), (''sleep'', JT_LONG)]"
  "defined_on exp_stat [(''path'', JT_STRING)]"
  "defined_on exp_lstat [(''path'', JT_STRING)]"
  "defined_on exp_statvfs [(''path'', JT_STRING)]"
  "defined_on exp_access [(''path'', JT_STRING), (''mode'', JT_LONG)]"
  "defined_on exp_rename [(''oldpath'', JT_STRING), (''newpath'', JT_STRING)]"
  "defined_on exp_unlink [(''path'', JT_STRING)]"
  "defined_on exp_rmdir [(''path'', JT_STRING)]"
  "defined_on exp_link [(''oldpath'', JT_STRING), (''newpath'', JT_STRING)]"
  "defined_on exp_symlink [(''oldpath'', JT_STRING), (''newpath'', JT_STRING)]"
  "defined_on exp_chmod [(''path'', JT_STRING), (''mode'', JT_LONG)]"
  "defined_on exp_glob [(''pattern'', JT_STRING)]"
  "defined_on exp_listdir [(''path'', JT_STRING)]"
  "defined_on exp_writefile [(''path'', JT_STRING), (''data'', JT_STRING), (''direct'', JT_BOOLEAN)]"
  "defined_on exp_lexists [(''path'', JT_STRING)]"
  "defined_on exp_truncate [(''path'', JT_STRING), (''size'', JT_LONG), (''mode'', JT_LONG), (''excl'', JT_BOOLEAN)]"
  "defined_on exp_mkdir [(''path'', JT_STRING), (''mode'', JT_LONG)]"
  "defined_on exp_fsyncPath [(''path'', JT_STRING)]"
  "defined_on exp_touch [(''path'', JT_STRING), (''flags'', JT_LONG), (''mode'', JT_LONG)]"
  "defined_on exp_probe_block_size [(''dir'', JT_STRING)]"
  unfolding defined_on_def typed_def handler_defs
  by (auto simp: typed_cases with_args_ok arg_ok_def arg_val_def Let_def bind_eq_Undef write_body_defined
      probe_loop_defined lists_defined split: prod.split_asm option.split_asm if_split_asm)

lemma signature_defined:
  fixes f :: "'w handler"
  assumes "(n, f) \<in> set exportedFunctions" and "(n, sig) \<in> set signatures" and "n \<noteq> ''readfile''"
  shows "defined_on f sig"
  using assms(2,1,3) unfolding signatures_def list.set insert_iff
  by (elim disjE; simp add: exportedFunctions_def all_defined)

text \<open>The functions without a signature use no arguments.\<close>

lemma memstat_defined: "exp_memstat P args s \<noteq> Undef"
  by (simp add: exp_memstat_def Let_def split: prod.split)

lemma no_signature_defined:
  fixes f :: "'w handler"
  assumes "(n, f) \<in> set exportedFunctions" and "n \<notin> fst ` set signatures"
  shows "f P args s \<noteq> Undef"
  using assms unfolding exportedFunctions_def list.set insert_iff
  by (elim disjE; simp add: signatures_def exp_ping_def exp_crash_def memstat_defined)

section \<open>The methods that make one system call\<close>

text \<open>A string argument as the kernel sees it, and a number cut to an \<open>int\<close>.\<close>

definition c_path :: "json \<Rightarrow> string \<Rightarrow> string" where
  "c_path a n = (case map_get a n of Some (JString x) \<Rightarrow> c_str x | _ \<Rightarrow> [])"

definition c_mode :: "json \<Rightarrow> string \<Rightarrow> c_int" where
  "c_mode a n = (case map_get a n of Some (JLong l) \<Rightarrow> ucast l | _ \<Rightarrow> 0)"

definition single_calls :: "'w posix \<Rightarrow> json \<Rightarrow> (string \<times> ('w, unit) os_call) list" where
  "single_calls P a = [
     (''access'', os_access P (c_path a ''path'') (c_mode a ''mode'')),
     (''rename'', os_rename P (c_path a ''oldpath'') (c_path a ''newpath'')),
     (''unlink'', os_unlink P (c_path a ''path'')),
     (''rmdir'', os_rmdir P (c_path a ''path'')),
     (''link'', os_link P (c_path a ''oldpath'') (c_path a ''newpath'')),
     (''symlink'', os_symlink P (c_path a ''oldpath'') (c_path a ''newpath'')),
     (''chmod'', os_chmod P (c_path a ''path'') (c_mode a ''mode'')),
     (''mkdir'', os_mkdir P (c_path a ''path'') (c_mode a ''mode''))]"

lemma single_call_runs:
  fixes f :: "'w handler"
  assumes "(n, call) \<in> set (single_calls P a)" and "(n, sig) \<in> set signatures"
    and "(n, f) \<in> set exportedFunctions" and "typed a sig"
  shows "f P (Some a) s = std_call P call s"
  using assms(1,2,3,4) unfolding single_calls_def list.set insert_iff
  by (elim disjE; simp add: signatures_def exportedFunctions_def;
      auto simp: typed_def typed_cases handler_defs with_args_ok arg_ok_def arg_val_def c_path_def c_mode_def)

lemma std_call_result:
  "std_call P call s = (case call (os s) of
     (Succ _, w) \<Rightarrow> Ret ((Some (JBoolean 1), None), s\<lparr>os := w\<rparr>)
   | (Fail e, w) \<Rightarrow> Ret ((Some (JBoolean 0), Some (mk_error IOPROCESS_STDAPI_ERROR e (iop_msg (strerr P) e))),
       s\<lparr>os := w, errno := e\<rparr>))"
  by (simp add: std_call_def c_call_def syscall_def stdApiWrapper_def set_error_from_errno_def
      JsonNode_newFromBoolean_def c_TRUE_def c_FALSE_def split: prod.split sysres.split)

section \<open>Properties\<close>

text \<open>
  C21: for every method that takes arguments: a request in which they are all there up to
  one that is missing is answered with an argument error that names the first missing one,
  and no system call is made for it.
\<close>

theorem missing_argument_answered:
  fixes P :: "'w posix"
  assumes "is_request req i n" and "(n, before @ (m, t) # after) \<in> set signatures"
    and "map_get req ''args'' = Some a" and "typed a before" and "map_get a m = None"
  shows "servRequest P req s = Ret (Some (buildResponse i (Some (mk_error IOPROCESS_ARGUMENT_ERROR 22
    (''arg '' @ [CHR 0x27] @ m @ [CHR 0x27] @ '' was not found in list''))) None), s)"
proof -
  obtain f :: "'w handler" where f: "(n, f) \<in> set exportedFunctions" using signature_entry [OF assms(2)] by blast
  from takes_missing [OF signature_takes [OF f assms(2)] assms(4,5), of P s] assms(3)
  show ?thesis by (simp add: request_entry [OF assms(1) f] argument_error_def EINVAL_def)
qed

lemma missing_argument_answered_witness:
  "servRequest demo_posix (request_doc 5 ''chmod'' (JMap [(''path'', JString ''/x'')])) (demo_proc []) =
     Ret (Some (buildResponse 5 (Some (mk_error IOPROCESS_ARGUMENT_ERROR 22
       (''arg '' @ [CHR 0x27] @ ''mode'' @ [CHR 0x27] @ '' was not found in list''))) None), demo_proc [])"
proof (rule missing_argument_answered [where a = "JMap [(''path'', JString ''/x'')]"])
  show "is_request (request_doc 5 ''chmod'' (JMap [(''path'', JString ''/x'')])) 5 ''chmod''"
    using is_request_doc [of 5 "''chmod''"] by (simp add: c_str_def)
  show "(''chmod'', [(''path'', JT_STRING)] @ (''mode'', JT_LONG) # []) \<in> set signatures"
    by (simp add: signatures_def)
qed (simp_all add: request_doc_fields typed_def c_str_def)

text \<open>
  For every method that takes arguments: a request without arguments, or whose
  arguments are no map, is answered with an argument error that says so, and no system
  call is made for it.
\<close>

lemma no_arguments_answered:
  fixes P :: "'w posix"
  assumes "is_request req i n" and "(n, sig) \<in> set signatures"
    and "map_get req ''args'' = None \<or> (\<exists>a. map_get req ''args'' = Some a \<and> \<not> is_JMap a)"
  shows "servRequest P req s = Ret (Some (buildResponse i (Some (mk_error IOPROCESS_ARGUMENT_ERROR 22
    (if map_get req ''args'' = None then ''args is empty'' else ''args must be a map''))) None), s)"
proof -
  obtain f :: "'w handler" where f: "(n, f) \<in> set exportedFunctions" using signature_entry [OF assms(2)] by blast
  have "sig \<noteq> []" using assms(2) by (auto simp: signatures_def)
  from takes_no_map [OF signature_takes [OF f assms(2)] this assms(3), of P s]
  show ?thesis by (simp add: request_entry [OF assms(1) f] argument_error_def EINVAL_def)
qed

lemma no_arguments_answered_witness:
  "servRequest demo_posix (request_doc 6 ''glob'' JNull) (demo_proc []) =
     Ret (Some (buildResponse 6 (Some (mk_error IOPROCESS_ARGUMENT_ERROR 22 ''args must be a map'')) None), demo_proc [])"
  using no_arguments_answered [of "request_doc 6 ''glob'' JNull" 6 "''glob''" "[(''pattern'', JT_STRING)]" demo_posix "demo_proc []"]
    is_request_doc [of 6 "''glob''"]
  by (simp add: request_doc_fields signatures_def is_JMap_def c_str_def)

text \<open>
  C20: a request for any of the 24 methods but \<open>readfile\<close> (whose buffer sizes depend on what
  the file system reports), with arguments of their types where the method takes some, never
  makes the program do anything undefined, whatever the system calls return.
\<close>

theorem typed_requests_defined:
  fixes P :: "'w posix"
  assumes "is_request req i n" and "n \<in> fst ` set (exportedFunctions :: (string \<times> 'w handler) list)"
    and "n \<noteq> ''readfile''"
    and "\<And>sig. (n, sig) \<in> set signatures \<Longrightarrow> \<exists>a. map_get req ''args'' = Some a \<and> typed a sig"
  shows "servRequest P req s \<noteq> Undef"
proof -
  from assms(2) obtain f :: "'w handler" where f: "(n, f) \<in> set exportedFunctions" by auto
  have "f P (map_get req ''args'') s \<noteq> Undef"
  proof (cases "n \<in> fst ` set signatures")
    case True
    then obtain sig where sig: "(n, sig) \<in> set signatures" by auto
    with assms(4) obtain a where "map_get req ''args'' = Some a" "typed a sig" by blast
    with signature_defined [OF f sig assms(3)] show ?thesis by (simp add: defined_on_def)
  next
    case False
    then show ?thesis by (rule no_signature_defined [OF f])
  qed
  then show ?thesis by (auto simp: request_entry [OF assms(1) f] bind_eq_Undef)
qed

lemma typed_requests_defined_witness:
  "servRequest demo_posix (request_doc 5 ''lexists'' (JMap [(''path'', JString ''/x'')])) (demo_proc []) \<noteq> Undef"
proof (rule typed_requests_defined)
  show "is_request (request_doc 5 ''lexists'' (JMap [(''path'', JString ''/x'')])) 5 ''lexists''"
    using is_request_doc [of 5 "''lexists''"] by (simp add: c_str_def)
  show "''lexists'' \<in> fst ` set (exportedFunctions :: (string \<times> world handler) list)"
    by (simp add: exportedFunctions_def)
  show "\<exists>a. map_get (request_doc 5 ''lexists'' (JMap [(''path'', JString ''/x'')])) ''args'' = Some a \<and> typed a sig"
    if "(''lexists'', sig) \<in> set signatures" for sig
    using that by (simp add: signatures_def request_doc_fields typed_def c_str_def)
qed simp

text \<open>
  C19: a request for one of \<open>access\<close>, \<open>rename\<close>, \<open>unlink\<close>, \<open>rmdir\<close>, \<open>link\<close>,
  \<open>symlink\<close>, \<open>chmod\<close> and \<open>mkdir\<close> makes the system call of that name once, on its paths as C
  strings and its mode cut to 32 bits; it is answered with true and \<open>SUCCESS\<close> when the call
  succeeds, and with false, the error number of the call and its text when it fails.
\<close>

theorem single_call_answered:
  fixes P :: "'w posix"
  assumes "is_request req i n" and "(n, sig) \<in> set signatures" and "(n, call) \<in> set (single_calls P a)"
    and "map_get req ''args'' = Some a" and "typed a sig"
  shows "servRequest P req s = (case call (os s) of
     (Succ _, w) \<Rightarrow> Ret (Some (JMap [(''id'', JLong i), (''errcode'', JLong 0), (''errstr'', JString ''SUCCESS''),
       (''result'', JBoolean 1)]), s\<lparr>os := w\<rparr>)
   | (Fail e, w) \<Rightarrow> Ret (Some (JMap [(''id'', JLong i), (''errcode'', JLong (scast (word_of_int e :: c_int))),
       (''errstr'', JString (c_str (iop_msg (strerr P) e))), (''result'', JBoolean 0)]), s\<lparr>os := w, errno := e\<rparr>))"
proof -
  obtain f :: "'w handler" where f: "(n, f) \<in> set exportedFunctions" using signature_entry [OF assms(2)] by blast
  have "servRequest P req s = bind_outcome (std_call P call s) (\<lambda>((result, err), s').
      Ret (Some (buildResponse i err result), s'))"
    using single_call_runs [OF assms(3,2) f assms(5)] by (simp add: request_entry [OF assms(1) f] assms(4))
  then show ?thesis
    by (simp add: std_call_result response_layout c_str_def split: prod.split sysres.split)
qed

lemma single_call_answered_witness:
  "servRequest demo_posix (request_doc 8 ''unlink'' (JMap [(''path'', JString ''/x'')])) (demo_proc []) =
     Ret (Some (JMap [(''id'', JLong 8), (''errcode'', JLong 2), (''errstr'', JString ''error''),
       (''result'', JBoolean 0)]), (demo_proc [])\<lparr>errno := 2\<rparr>)"
proof -
  let ?a = "JMap [(''path'', JString ''/x'')]"
  have "is_request (request_doc 8 ''unlink'' ?a) 8 ''unlink''"
    using is_request_doc [of 8 "''unlink''"] by (simp add: c_str_def)
  moreover have "(''unlink'', [(''path'', JT_STRING)]) \<in> set signatures" by (simp add: signatures_def)
  moreover have "(''unlink'', os_unlink demo_posix ''/x'') \<in> set (single_calls demo_posix ?a)"
    by (simp add: single_calls_def c_path_def c_str_def)
  moreover have "map_get (request_doc 8 ''unlink'' ?a) ''args'' = Some ?a" by (simp add: request_doc_fields)
  moreover have "typed ?a [(''path'', JT_STRING)]" by (simp add: typed_def c_str_def)
  ultimately show ?thesis
    using single_call_answered [of "request_doc 8 ''unlink'' ?a" 8 "''unlink''" "[(''path'', JT_STRING)]"
        "os_unlink demo_posix ''/x''" demo_posix ?a "demo_proc []"]
    by (simp add: demo_posix_def demo_proc_def demo_strerror_def iop_msg_def iop_strerror_def gnu_strerror_r_def c_str_def)
qed

end
