(* ===== verification/Json_Safety.thy ===== *)
theory Json_Safety
  imports Json_Gen
begin

text \<open>
  The parser on input it does not control: whatever events the library reports, and
  whatever allocations fail, the callbacks touch allocated nodes only, a failed parse frees
  every node it made, and a successful one returns a tree of new nodes.
\<close>

section \<open>A tree is changed below one of its nodes\<close>

text \<open>
  Every node of a tree is the root of a subtree; the tree around it is still a tree when
  another one, apart from the rest, takes its place at the same address.
\<close>

definition hole :: "(node_ref \<Rightarrow> cell option) \<Rightarrow> node_ref \<Rightarrow> node_ref set \<Rightarrow> node_ref \<Rightarrow> node_ref set \<Rightarrow> bool" where
  "hole h r F p Fp \<longleftrightarrow> Fp \<subseteq> F \<and> (\<exists>tp. repr h tp p Fp) \<and>
     (\<forall>h' t' G. (\<forall>x \<in> F - Fp. h' x = h x) \<longrightarrow> repr h' t' p G \<longrightarrow> G \<inter> (F - Fp) = {} \<longrightarrow>
        (\<exists>u. repr h' u r (F - Fp \<union> G)))"

definition holes :: "(node_ref \<Rightarrow> cell option) \<Rightarrow> node_ref list \<Rightarrow> node_ref set \<Rightarrow> node_ref \<Rightarrow> node_ref set \<Rightarrow> bool" where
  "holes h rs F p Fp \<longleftrightarrow> Fp \<subseteq> F \<and> (\<exists>tp. repr h tp p Fp) \<and>
     (\<forall>h' t' G. (\<forall>x \<in> F - Fp. h' x = h x) \<longrightarrow> repr h' t' p G \<longrightarrow> G \<inter> (F - Fp) = {} \<longrightarrow>
        (\<exists>us. reprs h' us rs (F - Fp \<union> G)))"

lemma hole_self: "repr h t p F \<Longrightarrow> hole h p F p F"
  unfolding hole_def by auto

lemma reprs_length: "reprs h ts rs F \<Longrightarrow> length ts = length rs"
  by (induction ts arbitrary: rs F) (auto elim: reprs_consE)

lemma hole_container:
  assumes "h r = Some c" and "c = CMap m \<and> rs = map snd m \<or> c = CArray rs"
    and "holes h rs F p Fp" and "r \<notin> F"
  shows "hole h r (insert r F) p Fp"
  unfolding hole_def
proof (intro conjI allI impI)
  from assms(3) show "Fp \<subseteq> insert r F" "\<exists>tp. repr h tp p Fp" by (auto simp: holes_def)
  fix h' t' G
  assume eq: "\<forall>x \<in> insert r F - Fp. h' x = h x" and t': "repr h' t' p G"
    and G: "G \<inter> (insert r F - Fp) = {}"
  have "r \<notin> Fp" using assms(3,4) by (auto simp: holes_def)
  with eq G have r: "h' r = Some c" "r \<notin> G" using assms(1) by auto
  have "\<forall>x \<in> F - Fp. h' x = h x" "G \<inter> (F - Fp) = {}" using eq G by auto
  with assms(3) t' obtain us where us: "reprs h' us rs (F - Fp \<union> G)" unfolding holes_def by blast
  have set_eq: "insert r F - Fp \<union> G = insert r (F - Fp \<union> G)" and "r \<notin> F - Fp \<union> G"
    using \<open>r \<notin> Fp\<close> assms(4) r(2) by auto
  from assms(2) show "\<exists>u. repr h' u r (insert r F - Fp \<union> G)"
  proof
    assume c: "c = CMap m \<and> rs = map snd m"
    have "repr h' (JMap (zip (map fst m) us)) r (insert r (F - Fp \<union> G))"
      using us c r(1) \<open>r \<notin> F - Fp \<union> G\<close> reprs_length [OF us]
      by (intro repr_map [where m = m]) auto
    then show ?thesis unfolding set_eq by blast
  next
    assume c: "c = CArray rs"
    then show ?thesis unfolding set_eq using us r(1) \<open>r \<notin> F - Fp \<union> G\<close> by (blast intro: repr_array)
  qed
qed

lemma holes_head:
  assumes "hole h r F p Fp" and "reprs h ts rs G" and "F \<inter> G = {}"
  shows "holes h (r # rs) (F \<union> G) p Fp"
  unfolding holes_def
proof (intro conjI allI impI)
  from assms(1) show "Fp \<subseteq> F \<union> G" "\<exists>tp. repr h tp p Fp" by (auto simp: hole_def)
  fix h' t' H
  assume eq: "\<forall>x \<in> F \<union> G - Fp. h' x = h x" and t': "repr h' t' p H" and H: "H \<inter> (F \<union> G - Fp) = {}"
  have Fp: "Fp \<subseteq> F" using assms(1) by (simp add: hole_def)
  with assms(3) have s: "F \<union> G - Fp \<union> H = (F - Fp \<union> H) \<union> G" "(F - Fp \<union> H) \<inter> G = {}" using H by auto
  have "\<forall>x \<in> F - Fp. h' x = h x" "H \<inter> (F - Fp) = {}" using eq H by auto
  with assms(1) t' obtain u where "repr h' u r (F - Fp \<union> H)" unfolding hole_def by blast
  moreover have "reprs h' ts rs G"
    by (rule reprs_frameI [OF assms(2)]) (use eq Fp assms(3) in auto)
  ultimately show "\<exists>us. reprs h' us (r # rs) (F \<union> G - Fp \<union> H)"
    unfolding s(1) using s(2) by (blast intro: reprs_cons)
qed

lemma holes_tail:
  assumes "repr h t r F" and "holes h rs G p Fp" and "F \<inter> G = {}"
  shows "holes h (r # rs) (F \<union> G) p Fp"
  unfolding holes_def
proof (intro conjI allI impI)
  from assms(2) show "Fp \<subseteq> F \<union> G" "\<exists>tp. repr h tp p Fp" by (auto simp: holes_def)
  fix h' t' H
  assume eq: "\<forall>x \<in> F \<union> G - Fp. h' x = h x" and t': "repr h' t' p H" and H: "H \<inter> (F \<union> G - Fp) = {}"
  have Fp: "Fp \<subseteq> G" using assms(2) by (simp add: holes_def)
  with assms(3) have s: "F \<union> G - Fp \<union> H = F \<union> (G - Fp \<union> H)" "F \<inter> (G - Fp \<union> H) = {}" using H by auto
  have "\<forall>x \<in> G - Fp. h' x = h x" "H \<inter> (G - Fp) = {}" using eq H by auto
  with assms(2) t' obtain us where "reprs h' us rs (G - Fp \<union> H)" unfolding holes_def by blast
  moreover have "repr h' t r F"
    by (rule repr_frameI [OF assms(1)]) (use eq Fp assms(3) in auto)
  ultimately show "\<exists>us. reprs h' us (r # rs) (F \<union> G - Fp \<union> H)"
    unfolding s(1) using s(2) by (blast intro: reprs_cons)
qed

lemma repr_hole:
  "repr h t r F \<Longrightarrow> \<forall>p\<in>F. \<exists>Fp. hole h r F p Fp"
  "reprs h ts rs F \<Longrightarrow> \<forall>p\<in>F. \<exists>Fp. holes h rs F p Fp"
proof (induction rule: repr_reprs.inducts)
  case (repr_map r m kvs F)
  have "repr h (JMap kvs) r (insert r F)" by (rule repr_reprs.repr_map; fact repr_map)
  then show ?case using repr_map hole_self hole_container [of h r "CMap m" m "map snd m" F] by blast
next
  case (repr_array r rs ts F)
  have "repr h (JArray ts) r (insert r F)" by (rule repr_reprs.repr_array; fact repr_array)
  then show ?case using repr_array hole_self hole_container [of h r "CArray rs" _ rs F] by blast
next
  case (reprs_cons t r F ts rs G)
  then show ?case using holes_head [of h r F _ _ ts rs G] holes_tail [of h t r F rs G] by blast
qed (auto intro: hole_self repr_reprs.intros)

lemma holeD: "hole h r F p Fp \<Longrightarrow> Fp \<subseteq> F" "hole h r F p Fp \<Longrightarrow> \<exists>tp. repr h tp p Fp"
  by (simp_all add: hole_def)

text \<open>The nodes of the tree at an address are determined by the heap.\<close>

lemma repr_at_map:
  assumes "repr h t r F" and "h r = Some (CMap m)"
  shows "\<exists>kvs G. F = insert r G \<and> r \<notin> G \<and> map fst m = map fst kvs \<and> reprs h (map snd kvs) (map snd m) G"
  using assms by (cases rule: repr.cases) auto

lemma repr_at_array:
  assumes "repr h t r F" and "h r = Some (CArray a)"
  shows "\<exists>ts G. F = insert r G \<and> r \<notin> G \<and> reprs h ts a G"
  using assms by (cases rule: repr.cases) auto

lemma repr_at_leaf:
  assumes "repr h t r F" and "h r = Some c" and "\<not> is_container c"
  shows "F = {r}"
  using assms by (cases rule: repr.cases) auto

lemma repr_det:
  "repr h t r F \<Longrightarrow> \<forall>t' F'. repr h t' r F' \<longrightarrow> F = F'"
  "reprs h ts rs F \<Longrightarrow> \<forall>ts' F'. reprs h ts' rs F' \<longrightarrow> F = F'"
proof (induction rule: repr_reprs.inducts)
  case (repr_map r m kvs F)
  show ?case using repr_map(3) repr_at_map [where h = h and r = r, OF _ repr_map(1)] by metis
next
  case (repr_array r rs ts F)
  show ?case using repr_array(3) repr_at_array [where h = h and r = r, OF _ repr_array(1)] by metis
next
  case (reprs_cons t r F ts rs G)
  show ?case
  proof (intro allI impI)
    fix ts' F'
    assume "reprs h ts' (r # rs) F'"
    then obtain t' ts'' A B where "F' = A \<union> B" "repr h t' r A" "reprs h ts'' rs B"
      by (auto elim: reprs_cons2E)
    with reprs_cons.IH(2,4) show "F \<union> G = F'" by auto
  qed
qed (auto dest: repr_at_leaf)

lemma leaf_repr:
  assumes "children new = []" and "h r = Some new"
  shows "\<exists>t. repr h t r {r}"
proof (cases new)
  case (CMap m)
  then have "repr h (JMap []) r (insert r {})" using assms by (intro repr_map [where m = "[]"]) auto
  then show ?thesis by auto
next
  case (CArray a)
  then have "repr h (JArray []) r (insert r {})" using assms by (intro repr_array [where rs = "[]"]) auto
  then show ?thesis by auto
qed (use assms in \<open>auto intro: repr_reprs.intros\<close>)

section \<open>A new node in an open container\<close>

lemma attach_repr:
  assumes rep: "repr h tp p Fp" and p: "h p = Some c" "is_container c" and n: "h n = None"
  obtains Fo where "old_foot h (old_of key c) Fo" "Fo \<subseteq> Fp" "p \<notin> Fo"
    "\<And>h' t. \<forall>x \<in> Fp - Fo. x \<noteq> p \<longrightarrow> h' x = h x \<Longrightarrow> h' p = Some (attach key n c) \<Longrightarrow> repr h' t n {n} \<Longrightarrow>
       \<exists>u. repr h' u p (Fp - Fo \<union> {n})"
proof (cases c)
  case (CMap m)
  obtain kvs F where F: "Fp = insert p F" "p \<notin> F" "map fst m = map fst kvs"
    "reprs h (map snd kvs) (map snd m) F"
    using repr_at_map [OF rep p(1) [unfolded CMap]] by blast
  from map_children_update [OF F(3) [symmetric] F(4), of "c_str key"] obtain Fo Fr where
    fo: "old_foot h (map_of m (c_str key)) Fo" "F = Fo \<union> Fr" "Fo \<inter> Fr = {}" and
    up: "\<And>h' t r G. \<forall>x\<in>Fr. h' x = h x \<Longrightarrow> repr h' t r G \<Longrightarrow> G \<inter> Fr = {} \<Longrightarrow>
      reprs h' (map snd (AList.update (c_str key) t kvs)) (map snd (AList.update (c_str key) r m)) (G \<union> Fr)"
    by blast
  have nF: "n \<notin> F" "n \<noteq> p" using repr_footprint(2) [OF F(4)] n p by auto
  show thesis
  proof (rule that [of Fo])
    fix h' t
    assume eq: "\<forall>x \<in> Fp - Fo. x \<noteq> p \<longrightarrow> h' x = h x" and p': "h' p = Some (attach key n c)" and t: "repr h' t n {n}"
    have "reprs h' (map snd (AList.update (c_str key) t kvs)) (map snd (AList.update (c_str key) n m)) ({n} \<union> Fr)"
      using eq fo F t nF by (intro up) auto
    then have "repr h' (JMap (AList.update (c_str key) t kvs)) p (insert p ({n} \<union> Fr))"
      using p' CMap nF F fo keys_update [OF F(3)] by (intro repr_map [where m = "AList.update (c_str key) n m"]) auto
    moreover have "insert p ({n} \<union> Fr) = Fp - Fo \<union> {n}" using F fo nF by auto
    ultimately show "\<exists>u. repr h' u p (Fp - Fo \<union> {n})" by auto
  qed (use fo F CMap in auto)
next
  case (CArray a)
  obtain ts F where F: "Fp = insert p F" "p \<notin> F" "reprs h ts a F"
    using repr_at_array [OF rep p(1) [unfolded CArray]] by blast
  have nF: "n \<notin> F" "n \<noteq> p" using repr_footprint(2) [OF F(3)] n p by auto
  show thesis
  proof (rule that [of "{}"])
    fix h' t
    assume eq: "\<forall>x \<in> Fp - {}. x \<noteq> p \<longrightarrow> h' x = h x" and p': "h' p = Some (attach key n c)" and t: "repr h' t n {n}"
    have "reprs h' ts a F" by (rule reprs_frameI [OF F(3)]) (use eq F in auto)
    then have "reprs h' (ts @ [t]) (a @ [n]) (F \<union> {n})" using t nF by (intro reprs_append) auto
    then have "repr h' (JArray (ts @ [t])) p (insert p (F \<union> {n}))"
      using p' CArray nF F by (intro repr_array) auto
    moreover have "insert p (F \<union> {n}) = Fp - {} \<union> {n}" using F by auto
    ultimately show "\<exists>u. repr h' u p (Fp - {} \<union> {n})" by auto
  qed (use CArray in \<open>auto simp: old_foot_def\<close>)
qed (use p in auto)

lemma linked_tree:
  assumes ok: "heap_ok h" and rep: "repr (cells h) tp p Fp" and p: "cells h p = Some c" "is_container c"
    and new: "children new = []"
  obtains Fo where "old_foot (cells h) (old_of key c) Fo" "Fo \<subseteq> Fp" "p \<notin> Fo"
    "\<And>q tq Fq. repr (cells h) tq q Fq \<Longrightarrow> p \<in> Fq \<Longrightarrow>
       \<exists>u. repr (cells (linked p key c new Fo h)) u q (Fq - Fo \<union> {brk h})"
proof -
  let ?n = "brk h"
  have n: "cells h ?n = None" using ok by (simp add: heap_ok_def)
  obtain Fo where Fo: "old_foot (cells h) (old_of key c) Fo" "Fo \<subseteq> Fp" "p \<notin> Fo" and
    up: "\<And>h' t. \<forall>x \<in> Fp - Fo. x \<noteq> p \<longrightarrow> h' x = cells h x \<Longrightarrow> h' p = Some (attach key ?n c) \<Longrightarrow>
      repr h' t ?n {?n} \<Longrightarrow> \<exists>u. repr h' u p (Fp - Fo \<union> {?n})"
    using attach_repr [OF rep p n] by metis
  let ?h' = "cells (linked p key c new Fo h)"
  have fresh: "?n \<notin> Fp" "?n \<noteq> p" using repr_footprint(1) [OF rep] n p by auto
  have other: "?h' x = cells h x" if "x \<noteq> p" "x \<noteq> ?n" "x \<notin> Fo" for x
    using that by (simp add: linked_def cells_without)
  have at: "?h' p = Some (attach key ?n c)" "?h' ?n = Some new"
    using fresh Fo by (auto simp: linked_def cells_without)
  obtain t where "repr ?h' t ?n {?n}" using leaf_repr [of new ?h' ?n] new at(2) by blast
  have "\<forall>x \<in> Fp - Fo. x \<noteq> p \<longrightarrow> ?h' x = cells h x" using fresh by (auto intro: other)
  from up [OF this at(1) \<open>repr ?h' t ?n {?n}\<close>] obtain u where u: "repr ?h' u p (Fp - Fo \<union> {?n})" by blast
  show thesis
  proof (rule that [OF Fo])
    fix q tq Fq
    assume q: "repr (cells h) tq q Fq" "p \<in> Fq"
    from repr_hole(1) [OF q(1)] q(2) obtain Fp' where "hole (cells h) q Fq p Fp'" by blast
    moreover from this rep have "Fp' = Fp" using repr_det(1) [OF rep] holeD(2) [of "cells h" q Fq p Fp'] by metis
    ultimately have hole: "hole (cells h) q Fq p Fp" by simp
    have nq: "?n \<notin> Fq" using repr_footprint(1) [OF q(1)] n by auto
    have "\<forall>x \<in> Fq - Fp. ?h' x = cells h x"
      using nq Fo repr_footprint(1) [OF rep] by (auto intro: other)
    then have "\<exists>v. repr ?h' v q (Fq - Fp \<union> (Fp - Fo \<union> {?n}))"
      using hole u nq Fo unfolding hole_def by blast
    moreover have "Fq - Fp \<union> (Fp - Fo \<union> {?n}) = Fq - Fo \<union> {?n}"
      using holeD(1) [OF hole] Fo by auto
    ultimately show "\<exists>v. repr ?h' v q (Fq - Fo \<union> {?n})" by simp
  qed
qed

section \<open>What the builder keeps\<close>

text \<open>
  \<open>p\<close> is a node of the tree at \<open>q\<close>, and not above it. The containers on the stack are
  nested that way, from the innermost to the root.
\<close>

definition contains :: "(node_ref \<Rightarrow> cell option) \<Rightarrow> node_ref \<Rightarrow> node_ref \<Rightarrow> bool" where
  "contains h q p \<longleftrightarrow> (\<exists>t F. repr h t q F \<and> p \<in> F)"

definition nested_in :: "(node_ref \<Rightarrow> cell option) \<Rightarrow> node_ref \<Rightarrow> node_ref \<Rightarrow> bool" where
  "nested_in h p q \<longleftrightarrow> contains h q p \<and> (p = q \<or> \<not> contains h p q)"

lemma contains_repr: "repr h t q F \<Longrightarrow> contains h q p \<longleftrightarrow> p \<in> F"
  unfolding contains_def using repr_det(1) by metis

lemma contains_root: "contains h q p \<Longrightarrow> \<exists>t F. repr h t p F"
  unfolding contains_def using repr_hole(1) holeD(2) by metis

text \<open>
  Compared with the heap \<open>h0\<close> before the parse, the only nodes are those of the tree at
  the bottom of the stack, and they are new.
\<close>

definition owned :: "dom_heap \<Rightarrow> dom_heap \<Rightarrow> node_ref list \<Rightarrow> node_ref set \<Rightarrow> bool" where
  "owned h0 h st F \<longleftrightarrow> F \<subseteq> {brk h0..} \<and> (\<forall>x. x \<notin> F \<longrightarrow> cells h x = cells h0 x) \<and>
     (if st = [] then F = {} else \<exists>t. repr (cells h) t (last st) F)"

definition safe_builder :: "dom_heap \<Rightarrow> builder \<Rightarrow> bool" where
  "safe_builder h0 ctx \<longleftrightarrow>
     heap_ok h0 \<and> heap_ok (heap ctx) \<and> brk h0 \<le> brk (heap ctx) \<and> malloc_ok (heap ctx) = malloc_ok h0 \<and>
     sorted_wrt (nested_in (cells (heap ctx))) (containerStack ctx) \<and>
     (\<exists>F. owned h0 (heap ctx) (containerStack ctx) F)"

lemma safe_builder_key [simp]: "safe_builder h0 (ctx\<lparr>tmpMapKay := k\<rparr>) = safe_builder h0 ctx"
  by (simp add: safe_builder_def)

text \<open>A failed allocation changes no node.\<close>

lemma safe_builder_brk:
  assumes "safe_builder h0 ctx"
  shows "safe_builder h0 (ctx\<lparr>heap := (heap ctx)\<lparr>brk := Suc (brk (heap ctx))\<rparr>\<rparr>)"
  using assms by (auto simp: safe_builder_def owned_def heap_ok_def)

lemma linked_safe:
  assumes safe: "safe_builder h0 ctx" and st: "containerStack ctx = p # rest"
    and p: "cells (heap ctx) p = Some c" "is_container c" and new: "children new = []"
  obtains Fo where "open_at ctx p rest c Fo"
    "safe_builder h0 (ctx\<lparr>heap := linked p (tmpMapKay ctx) c new Fo (heap ctx)\<rparr>)"
    "\<forall>q \<in> set (p # rest). nested_in (cells (linked p (tmpMapKay ctx) c new Fo (heap ctx))) (brk (heap ctx)) q"
proof -
  let ?h = "heap ctx" let ?n = "brk ?h"
  have ok: "heap_ok ?h" and sorted: "sorted_wrt (nested_in (cells ?h)) (p # rest)"
    using safe st by (simp_all add: safe_builder_def)
  obtain F t where F: "F \<subseteq> {brk h0..}" "\<forall>x. x \<notin> F \<longrightarrow> cells ?h x = cells h0 x"
    "repr (cells ?h) t (last (p # rest)) F"
    using safe st by (auto simp: safe_builder_def owned_def)
  have above: "contains (cells ?h) q p" if "q \<in> set (p # rest)" for q
  proof -
    have "contains (cells ?h) (last (p # rest)) p"
    proof (cases rest)
      case Nil
      then show ?thesis using F(3) repr_footprint(1) [OF F(3)] by (auto simp: contains_def)
    qed (use sorted in \<open>auto simp: nested_in_def\<close>)
    then have "contains (cells ?h) p p"
      using contains_root [of "cells ?h" "last (p # rest)" p] repr_footprint(1) by (fastforce simp: contains_def)
    then show ?thesis using that sorted by (auto simp: nested_in_def)
  qed
  obtain tp Fp where rep: "repr (cells ?h) tp p Fp" using above [of p] by (auto simp: contains_def)
  obtain Fo where Fo: "old_foot (cells ?h) (old_of (tmpMapKay ctx) c) Fo" "Fo \<subseteq> Fp" "p \<notin> Fo" and
    up: "\<And>q tq Fq. repr (cells ?h) tq q Fq \<Longrightarrow> p \<in> Fq \<Longrightarrow>
       \<exists>u. repr (cells (linked p (tmpMapKay ctx) c new Fo ?h)) u q (Fq - Fo \<union> {?n})"
    using linked_tree [OF ok rep p new] by metis
  let ?h' = "linked p (tmpMapKay ctx) c new Fo ?h"
  have oa: "open_at ctx p rest c Fo" using st p ok Fo by (simp add: open_at_def)
  note link = linked_simps [OF oa, where key = "tmpMapKay ctx" and new = new]
  have up': "contains (cells ?h') q x \<longleftrightarrow> contains (cells ?h) q x \<and> x \<notin> Fo \<or> x = ?n"
    if q: "q \<in> set (p # rest)" for q x
  proof -
    obtain tq Fq where Fq: "repr (cells ?h) tq q Fq" "p \<in> Fq"
      using above [OF q] by (auto simp: contains_def)
    from up [OF this] obtain u where "repr (cells ?h') u q (Fq - Fo \<union> {?n})" by blast
    then show ?thesis by (auto simp: contains_repr [OF Fq(1)] contains_repr)
  qed
  have old: "?n \<notin> set (p # rest)" "\<And>q. q \<in> set (p # rest) \<Longrightarrow> q \<notin> Fo"
  proof -
    fix q assume q: "q \<in> set (p # rest)"
    have "contains (cells ?h) p q \<Longrightarrow> q = p" using sorted q by (auto simp: nested_in_def)
    then show "q \<notin> Fo" using Fo contains_repr [OF rep] by blast
  next
    have "x < ?n" if "x \<in> set (p # rest)" for x
      using above [OF that] repr_footprint(1) ok unfolding contains_def
      by (metis below_brk domD subsetD)
    then show "?n \<notin> set (p # rest)" by blast
  qed
  have nest: "nested_in (cells ?h') a b" if "a \<in> set (p # rest)" "b \<in> set (p # rest)" "nested_in (cells ?h) a b" for a b
    using that up' [of a] up' [of b] old by (auto simp: nested_in_def)
  have "sorted_wrt (nested_in (cells ?h')) (p # rest)"
    by (rule sorted_wrt_mono_rel [OF nest sorted])
  moreover have "owned h0 ?h' (p # rest) (F - Fo \<union> {?n})"
  proof -
    have "p \<in> F" using above [of "last (p # rest)"] contains_repr [OF F(3)] by simp
    with F(3) up obtain u where u: "repr (cells ?h') u (last (p # rest)) (F - Fo \<union> {?n})" by blast
    have "Fo \<subseteq> F"
    proof -
      obtain Fp' where "hole (cells ?h) (last (p # rest)) F p Fp'" using repr_hole(1) [OF F(3)] \<open>p \<in> F\<close> by blast
      from holeD [OF this] have "Fp \<subseteq> F" using repr_det(1) [OF rep] by auto
      with Fo(2) show ?thesis by blast
    qed
    have "cells ?h' x = cells h0 x" if "x \<notin> F - Fo \<union> {?n}" for x
    proof (cases "x \<in> Fo")
      case True
      then have "x \<noteq> p" "brk h0 \<le> x" using Fo(3) \<open>Fo \<subseteq> F\<close> F(1) by auto
      with True that link(6) [of x] show ?thesis using safe by (simp add: safe_builder_def heap_ok_def)
    next
      case False
      with that \<open>p \<in> F\<close> link(6) [of x] F(2) show ?thesis by auto
    qed
    with u F show ?thesis using safe by (auto simp: owned_def safe_builder_def)
  qed
  ultimately have "safe_builder h0 (ctx\<lparr>heap := ?h'\<rparr>)"
    using safe link st by (auto simp: safe_builder_def)
  moreover have "nested_in (cells ?h') ?n q" if "q \<in> set (p # rest)" for q
  proof -
    obtain t where "repr (cells ?h') t ?n {?n}" using leaf_repr [of new "cells ?h'" ?n] new link(5) by blast
    then show ?thesis using up' [OF that] that old(1) contains_repr [of "cells ?h'" t ?n "{?n}"]
      by (auto simp: nested_in_def)
  qed
  ultimately show thesis using that oa by blast
qed

section \<open>The callbacks\<close>

definition with_node :: "cell \<Rightarrow> dom_heap \<Rightarrow> dom_heap" where
  "with_node new h = h\<lparr>cells := (cells h)(brk h \<mapsto> new), brk := Suc (brk h)\<rparr>"

lemma free_new_node:
  assumes "heap_ok h" and "children new = []"
  shows "free_node (brk h) (with_node new h) = Ret (h\<lparr>brk := Suc (brk h)\<rparr>)"
proof -
  have "cells (with_node new h) (brk h) = Some new" by (simp add: with_node_def)
  then obtain t where t: "repr (cells (with_node new h)) t (brk h) {brk h}"
    using leaf_repr [OF assms(2), of "cells (with_node new h)" "brk h"] by blast
  have "heap_ok (with_node new h)" using assms(1) by (simp add: heap_ok_def with_node_def)
  from free_node_repr [OF this t] show ?thesis
    using assms(1) by (simp add: with_node_def without_def heap_ok_def restrict_map_def fun_eq_iff)
qed

text \<open>
  Adding a new node without children: it is refused and freed, or it becomes the root, or
  it is attached to the innermost container, and may then go on top of the stack.
\<close>

definition added_on :: "node_ref \<Rightarrow> builder \<Rightarrow> builder \<Rightarrow> bool" where
  "added_on r ctx ctx' \<longleftrightarrow>
     containerStack ctx' = (if containerStack ctx = [] then [r] else containerStack ctx) \<and>
     (\<forall>q \<in> set (containerStack ctx'). nested_in (cells (heap ctx')) r q)"

lemma safeAdd_empty:
  assumes safe: "safe_builder h0 ctx" and new: "children new = []" and st: "containerStack ctx = []"
  shows "\<exists>ctx'. cb_build_safeAdd (ctx\<lparr>heap := with_node new (heap ctx)\<rparr>) (Some (brk (heap ctx))) = Ret (1, ctx') \<and>
    safe_builder h0 ctx' \<and> added_on (brk (heap ctx)) ctx ctx'"
proof -
  let ?n = "brk (heap ctx)" let ?h = "with_node new (heap ctx)"
  have h: "cells ?h = (cells (heap ctx))(?n \<mapsto> new)" by (simp add: with_node_def)
  obtain t where t: "repr (cells ?h) t ?n {?n}" using leaf_repr [OF new, of "cells ?h" ?n] h by auto
  then have n: "nested_in (cells ?h) ?n ?n" by (auto simp: nested_in_def contains_def)
  have o: "owned h0 ?h [?n] {?n}" using safe t st by (auto simp: owned_def safe_builder_def h)
  show ?thesis
  proof (intro exI conjI)
    let ?c = "push_head ?n (ctx\<lparr>heap := ?h\<rparr>)"
    show "cb_build_safeAdd (ctx\<lparr>heap := ?h\<rparr>) (Some ?n) = Ret (1, ?c)"
      using st by (simp add: cb_build_safeAdd_def jdBuilder_addValue_def)
    show "safe_builder h0 ?c"
      using safe o st by (auto simp: safe_builder_def push_head_def with_node_def heap_ok_def)
    show "added_on ?n ctx ?c" using n st by (simp add: added_on_def push_head_def)
  qed
qed

lemma safeAdd_refused:
  assumes safe: "safe_builder h0 ctx" and new: "children new = []" and st: "containerStack ctx = p # rest"
    and p: "cells (heap ctx) p = Some c" "\<not> is_container c"
  shows "\<exists>ctx'. cb_build_safeAdd (ctx\<lparr>heap := with_node new (heap ctx)\<rparr>) (Some (brk (heap ctx))) = Ret (0, ctx') \<and>
    safe_builder h0 ctx'"
proof -
  let ?n = "brk (heap ctx)" let ?h = "with_node new (heap ctx)"
  have ok: "heap_ok (heap ctx)" using safe by (simp add: safe_builder_def)
  then have "p \<noteq> ?n" using p by (auto simp: heap_ok_def)
  then have "cells ?h p = Some c" using p by (simp add: with_node_def)
  then have "jdBuilder_addValue (ctx\<lparr>heap := ?h\<rparr>) ?n = Ret (- 1, ctx\<lparr>heap := ?h\<rparr>)"
    using st p(2) by (cases c) (simp_all add: jdBuilder_addValue_def)
  then have "cb_build_safeAdd (ctx\<lparr>heap := ?h\<rparr>) (Some ?n) =
      Ret (0, ctx\<lparr>heap := (heap ctx)\<lparr>brk := Suc ?n\<rparr>\<rparr>)"
    by (simp add: cb_build_safeAdd_def free_new_node [OF ok new])
  with safe_builder_brk [OF safe] show ?thesis by blast
qed

lemma safeAdd_attached:
  assumes safe: "safe_builder h0 ctx" and new: "children new = []" and st: "containerStack ctx = p # rest"
    and p: "cells (heap ctx) p = Some c" "is_container c"
  shows "\<exists>ctx'. cb_build_safeAdd (ctx\<lparr>heap := with_node new (heap ctx)\<rparr>) (Some (brk (heap ctx))) = Ret (1, ctx') \<and>
    safe_builder h0 ctx' \<and> added_on (brk (heap ctx)) ctx ctx'"
proof -
  obtain Fo where Fo: "open_at ctx p rest c Fo"
    "safe_builder h0 (ctx\<lparr>heap := linked p (tmpMapKay ctx) c new Fo (heap ctx)\<rparr>)"
    "\<forall>q \<in> set (p # rest). nested_in (cells (linked p (tmpMapKay ctx) c new Fo (heap ctx))) (brk (heap ctx)) q"
    using linked_safe [OF safe st p new] by metis
  have "cb_build_safeAdd (ctx\<lparr>heap := with_node new (heap ctx)\<rparr>) (Some (brk (heap ctx))) =
      Ret (1, ctx\<lparr>heap := linked p (tmpMapKay ctx) c new Fo (heap ctx)\<rparr>)"
    using addValue [OF Fo(1), of new] by (simp add: cb_build_safeAdd_def with_node_def)
  with Fo(2,3) st show ?thesis by (auto simp: added_on_def)
qed

lemma stack_allocated:
  assumes "safe_builder h0 ctx" and "q \<in> set (containerStack ctx)"
  shows "\<exists>c. cells (heap ctx) q = Some c"
proof -
  obtain F t where F: "repr (cells (heap ctx)) t (last (containerStack ctx)) F"
    using assms by (cases "containerStack ctx") (auto simp: safe_builder_def owned_def)
  show ?thesis
  proof (cases "q = last (containerStack ctx)")
    case True
    then show ?thesis using repr_footprint(1) [OF F] by auto
  next
    case False
    obtain st where st: "containerStack ctx = st @ [last (containerStack ctx)]"
      using assms(2) by (metis append_butlast_last_id length_greater_0_conv length_pos_if_in_set)
    with False assms(2) have "q \<in> set st" by (metis Un_iff empty_iff insert_iff list.set(1) list.set(2) set_append)
    moreover have "sorted_wrt (nested_in (cells (heap ctx))) (st @ [last (containerStack ctx)])"
      using assms(1) st by (simp add: safe_builder_def)
    ultimately have "contains (cells (heap ctx)) (last (containerStack ctx)) q"
      by (auto simp: sorted_wrt_append nested_in_def)
    then show ?thesis using contains_repr [OF F] repr_footprint(1) [OF F] by blast
  qed
qed

lemma safeAdd_safe:
  assumes safe: "safe_builder h0 ctx" and new: "children new = []" and node: "JsonNode_new new (heap ctx) = (node, h)"
  shows "(\<exists>ctx'. cb_build_safeAdd (ctx\<lparr>heap := h\<rparr>) node = Ret (0, ctx') \<and> safe_builder h0 ctx') \<or>
    (\<exists>ctx' r. node = Some r \<and> cb_build_safeAdd (ctx\<lparr>heap := h\<rparr>) node = Ret (1, ctx') \<and> safe_builder h0 ctx' \<and>
       added_on r ctx ctx')"
proof (cases "malloc_ok (heap ctx) (brk (heap ctx))")
  case False
  with node have "cb_build_safeAdd (ctx\<lparr>heap := h\<rparr>) node = Ret (0, ctx\<lparr>heap := (heap ctx)\<lparr>brk := Suc (brk (heap ctx))\<rparr>\<rparr>)"
    by (auto simp: JsonNode_new_def cb_build_safeAdd_def)
  with safe_builder_brk [OF safe] show ?thesis by blast
next
  case True
  with node have n: "node = Some (brk (heap ctx))" "h = with_node new (heap ctx)"
    by (auto simp: JsonNode_new_def with_node_def)
  show ?thesis
  proof (cases "containerStack ctx")
    case Nil
    with safeAdd_empty [OF safe new] n show ?thesis by blast
  next
    case (Cons p rest)
    with stack_allocated [OF safe] obtain c where "cells (heap ctx) p = Some c" by fastforce
    with safeAdd_refused [OF safe new Cons] safeAdd_attached [OF safe new Cons] n show ?thesis by metis
  qed
qed

text \<open>
  How many containers are open after a sequence of events; \<open>None\<close> when more are closed
  than were opened. This is all that is asked of the events: the library may give a prefix
  of a document, several documents, or values without keys.
\<close>

fun depth :: "nat \<Rightarrow> event list \<Rightarrow> nat option" where
  "depth d [] = Some d"
| "depth d (YStartMap # es) = depth (Suc d) es"
| "depth d (YStartArray # es) = depth (Suc d) es"
| "depth d (YEndMap # es) = (case d of 0 \<Rightarrow> None | Suc d' \<Rightarrow> depth d' es)"
| "depth d (YEndArray # es) = (case d of 0 \<Rightarrow> None | Suc d' \<Rightarrow> depth d' es)"
| "depth d (_ # es) = depth d es"

lemma depth_Cons: "depth d (e # es) = Option.bind (depth d [e]) (\<lambda>d'. depth d' es)"
  by (cases e) (auto split: nat.split)

lemma depth_append: "depth d (xs @ ys) = Option.bind (depth d xs) (\<lambda>d'. depth d' ys)"
  by (induction d xs rule: depth.induct) (auto split: nat.split)

definition stack_fits :: "nat \<Rightarrow> builder \<Rightarrow> bool" where
  "stack_fits d ctx \<longleftrightarrow> length (containerStack ctx) = Suc d \<or> d = 0 \<and> containerStack ctx = []"

fun is_key :: "event \<Rightarrow> bool" where
  "is_key (YMapKey k) = True"
| "is_key _ = False"

definition cb_safe :: "dom_heap \<Rightarrow> nat \<Rightarrow> bool \<Rightarrow> (int \<times> builder) outcome \<Rightarrow> bool" where
  "cb_safe h0 d nonempty r \<longleftrightarrow> (\<exists>rv ctx'. r = Ret (rv, ctx') \<and> safe_builder h0 ctx' \<and>
     (rv \<noteq> 0 \<longrightarrow> stack_fits d ctx' \<and> (nonempty \<longrightarrow> containerStack ctx' \<noteq> [])))"

lemma add_new_safe:
  assumes "safe_builder h0 ctx" and "children new = []" and "stack_fits d ctx"
  shows "cb_safe h0 d True (add_new new ctx)"
proof -
  obtain node h where n: "JsonNode_new new (heap ctx) = (node, h)" by fastforce
  from safeAdd_safe [OF assms(1,2) n] assms(3) show ?thesis
    by (auto simp: cb_safe_def add_new_def n added_on_def stack_fits_def)
qed

lemma open_new_safe:
  assumes "safe_builder h0 ctx" and "children new = []" and "stack_fits d ctx"
  shows "cb_safe h0 (Suc d) True (open_new new ctx)"
proof -
  obtain node h where n: "JsonNode_new new (heap ctx) = (node, h)" by fastforce
  from safeAdd_safe [OF assms(1,2) n] show ?thesis
  proof (elim disjE exE conjE)
    fix ctx'
    assume "cb_build_safeAdd (ctx\<lparr>heap := h\<rparr>) node = Ret (0, ctx')" "safe_builder h0 ctx'"
    then show ?thesis by (simp add: cb_safe_def open_new_def n cb_build_safeContainerAdd_def)
  next
    fix ctx' r
    assume a: "node = Some r" "cb_build_safeAdd (ctx\<lparr>heap := h\<rparr>) node = Ret (1, ctx')" "safe_builder h0 ctx'"
      "added_on r ctx ctx'"
    then have "containerStack ctx' \<noteq> []" by (auto simp: added_on_def)
    then have "safe_builder h0 (push_head r ctx')"
      using a(3,4) by (auto simp: safe_builder_def push_head_def owned_def added_on_def)
    moreover have "stack_fits (Suc d) (push_head r ctx')"
      using assms(3) a(4) by (auto simp: stack_fits_def push_head_def added_on_def)
    ultimately show ?thesis
      using a by (simp add: cb_safe_def open_new_def n cb_build_safeContainerAdd_def push_head_def)
  qed
qed

lemma end_container_safe:
  assumes safe: "safe_builder h0 ctx" and fits: "stack_fits (Suc d) ctx"
  shows "cb_safe h0 d True (cb_build_end_container ctx)"
proof -
  obtain p q st where st: "containerStack ctx = p # q # st"
    using fits by (cases "containerStack ctx"; cases "tl (containerStack ctx)") (auto simp: stack_fits_def)
  have "safe_builder h0 (jdBuilder_popContainerStack ctx)"
    using safe st by (auto simp: safe_builder_def jdBuilder_popContainerStack_def owned_def)
  moreover have "stack_fits d (jdBuilder_popContainerStack ctx)"
    using fits st by (auto simp: stack_fits_def jdBuilder_popContainerStack_def)
  ultimately show ?thesis
    using st by (simp add: cb_safe_def cb_build_end_container_def jdBuilder_popContainerStack_def)
qed

text \<open>
  The one callback that uses a node before it checks the allocation is that of strings. The
  nodes of the values are allocated in the order of the events, and the library stops at the
  first failure: what has to hold is that this is not the node of a string.
\<close>

fun allocates :: "event \<Rightarrow> bool" where
  "allocates (YMapKey k) = False"
| "allocates YEndMap = False"
| "allocates YEndArray = False"
| "allocates _ = True"

fun is_string :: "event \<Rightarrow> bool" where
  "is_string (YString s) = True"
| "is_string _ = False"

fun strings_allocated :: "(node_ref \<Rightarrow> bool) \<Rightarrow> node_ref \<Rightarrow> event list \<Rightarrow> bool" where
  "strings_allocated M n [] \<longleftrightarrow> True"
| "strings_allocated M n (e # es) \<longleftrightarrow>
     (if allocates e then (if M n then strings_allocated M (Suc n) es else \<not> is_string e)
      else strings_allocated M n es)"

lemma strings_allocated_all: "(\<And>k. M k) \<Longrightarrow> strings_allocated M n es"
  by (induction es arbitrary: n) auto

text \<open>How far the callbacks move the break.\<close>

definition same_brk :: "dom_heap \<Rightarrow> dom_heap \<Rightarrow> bool" where
  "same_brk h h' \<longleftrightarrow> brk h' = brk h \<and> malloc_ok h' = malloc_ok h"

lemma free_same_brk: "JsonNode_free n r h = Ret h' \<Longrightarrow> same_brk h h'"
proof (induction n arbitrary: r h h')
  case (Suc n)
  have "free_list (JsonNode_free n) rs h1 = Ret h2 \<Longrightarrow> same_brk h1 h2" for rs h1 h2
    by (induction rs arbitrary: h1) (auto simp: bind_outcome_eq_Ret same_brk_def dest!: Suc.IH)
  with Suc.prems show ?case
    by (auto simp: bind_outcome_eq_Ret same_brk_def split: option.split_asm)
qed simp

lemma free_node_same_brk: "free_node r h = Ret h' \<Longrightarrow> brk h' = brk h \<and> malloc_ok h' = malloc_ok h"
  unfolding free_node_def by (drule free_same_brk) (simp add: same_brk_def)

lemma addValue_same_brk: "jdBuilder_addValue ctx r = Ret (rv, ctx') \<Longrightarrow> same_brk (heap ctx) (heap ctx')"
  by (auto simp: jdBuilder_addValue_def push_head_def heap_array_append_def heap_map_insert_def set_cell_def
      bind_outcome_eq_Ret same_brk_def Let_def
      dest!: free_node_same_brk split: list.split_asm option.split_asm cell.split_asm)

lemma safeAdd_same_brk:
  "cb_build_safeAdd ctx node = Ret (rv, ctx') \<Longrightarrow> rv \<noteq> 0 \<Longrightarrow> node \<noteq> None \<and> same_brk (heap ctx) (heap ctx')"
  by (auto simp: cb_build_safeAdd_def bind_outcome_eq_Ret dest!: addValue_same_brk
      split: option.split_asm if_split_asm)

lemma new_brk:
  "JsonNode_new c h = (Some r, h') \<Longrightarrow> malloc_ok h (brk h) \<and> brk h' = Suc (brk h) \<and> malloc_ok h' = malloc_ok h"
  by (auto simp: JsonNode_new_def split: if_split_asm)

lemma callback_brk:
  assumes "build_callbacks e ctx = Ret (rv, ctx')" and "rv \<noteq> 0"
  shows "malloc_ok (heap ctx') = malloc_ok (heap ctx) \<and>
    (if allocates e then malloc_ok (heap ctx) (brk (heap ctx)) \<and> brk (heap ctx') = Suc (brk (heap ctx))
     else brk (heap ctx') = brk (heap ctx))"
proof -
  have add: "malloc_ok (heap ctx') = malloc_ok (heap ctx) \<and> malloc_ok (heap ctx) (brk (heap ctx)) \<and>
      brk (heap ctx') = Suc (brk (heap ctx))"
    if "cb_build_safeAdd (ctx\<lparr>heap := h\<rparr>) node = Ret (k, ctx'')" "k \<noteq> 0" "JsonNode_new c (heap ctx) = (node, h)"
      "same_brk (heap ctx'') (heap ctx')" for node h k ctx'' c
    using safeAdd_same_brk [OF that(1,2)] that(3,4) new_brk [of c "heap ctx"] by (auto simp: same_brk_def)
  have "malloc_ok (heap ctx') = malloc_ok (heap ctx) \<and> malloc_ok (heap ctx) (brk (heap ctx)) \<and>
      brk (heap ctx') = Suc (brk (heap ctx))" if "add_new c ctx = Ret (rv, ctx')" for c
    using that assms(2) add [of _ _ rv ctx' c]
    by (auto simp: add_new_def same_brk_def split: prod.split_asm)
  moreover have "malloc_ok (heap ctx') = malloc_ok (heap ctx) \<and> malloc_ok (heap ctx) (brk (heap ctx)) \<and>
      brk (heap ctx') = Suc (brk (heap ctx))" if "open_new c ctx = Ret (rv, ctx')" for c
  proof -
    obtain node h where n: "JsonNode_new c (heap ctx) = (node, h)" by fastforce
    with that assms(2) obtain k ctx'' where "cb_build_safeAdd (ctx\<lparr>heap := h\<rparr>) node = Ret (k, ctx'')" "k \<noteq> 0"
      "heap ctx' = heap ctx''"
      by (auto simp: open_new_def cb_build_safeContainerAdd_def bind_outcome_eq_Ret push_head_def
          split: if_split_asm option.split_asm)
    with add [OF _ _ n] show ?thesis by (simp add: same_brk_def)
  qed
  moreover have "malloc_ok (heap ctx') = malloc_ok (heap ctx) \<and> malloc_ok (heap ctx) (brk (heap ctx)) \<and>
      brk (heap ctx') = Suc (brk (heap ctx))" if "cb_build_string ctx v = Ret (rv, ctx')" for v
    using that assms(2) add [of _ _ rv ctx']
    by (fastforce simp: cb_build_string_def Let_def same_brk_def split: prod.split_asm option.split_asm)
  ultimately show ?thesis
    using assms
    by (cases e) (auto simp: cb_build_null_def cb_build_boolean_def cb_build_long_def cb_build_double_def
        cb_build_start_map_def cb_build_start_array_def cb_build_end_container_def cb_build_map_key_def
        jdBuilder_popContainerStack_def Let_def)
qed

lemma strings_allocated_next:
  assumes "strings_allocated (malloc_ok (heap ctx)) (brk (heap ctx)) (e # es)"
    and "build_callbacks e ctx = Ret (rv, ctx')" and "rv \<noteq> 0"
  shows "strings_allocated (malloc_ok (heap ctx')) (brk (heap ctx')) es"
  using assms(1) callback_brk [OF assms(2,3)] by (auto split: if_split_asm)

lemma string_safe:
  assumes safe: "safe_builder h0 ctx" and ok: "malloc_ok (heap ctx) (brk (heap ctx))" and fits: "stack_fits d ctx"
  shows "cb_safe h0 d True (cb_build_string ctx s)"
proof -
  have "cb_build_string ctx s =
      add_new (CString (string_bytes (JsonNode_newFromStringLen s (word_of_nat (length s))))) ctx"
    using ok by (simp add: cb_build_string_def add_new_def Let_def JsonNode_new_def)
  with add_new_safe [OF safe _ fits] show ?thesis by simp
qed

lemma callback_safe:
  assumes safe: "safe_builder h0 ctx" and strings: "strings_allocated (malloc_ok (heap ctx)) (brk (heap ctx)) (e # es)"
    and fits: "stack_fits d ctx" and d: "depth d [e] = Some d'"
  shows "cb_safe h0 d' (containerStack ctx \<noteq> [] \<or> \<not> is_key e) (build_callbacks e ctx)"
proof (cases e)
  case (YMapKey k)
  with assms show ?thesis
    by (simp add: cb_safe_def cb_build_map_key_def Let_def stack_fits_def)
next
  case (YString s)
  with assms string_safe [OF safe _ fits] show ?thesis
    by (simp split: if_split_asm)
next
  case YEndMap
  with d obtain k where "d = Suc k" "d' = k" by (cases d) auto
  with YEndMap end_container_safe [OF safe] fits show ?thesis by simp
next
  case YEndArray
  with d obtain k where "d = Suc k" "d' = k" by (cases d) auto
  with YEndArray end_container_safe [OF safe] fits show ?thesis by simp
qed (use add_new_safe [OF safe _ fits] open_new_safe [OF safe _ fits] d in
  \<open>auto simp: cb_build_null_def cb_build_boolean_def cb_build_long_def cb_build_double_def
    cb_build_start_map_def cb_build_start_array_def\<close>)

lemma feed_safe:
  assumes "safe_builder h0 ctx" and "strings_allocated (malloc_ok (heap ctx)) (brk (heap ctx)) (es @ rest)"
    and "stack_fits d ctx" and "depth d es = Some d'"
  shows "\<exists>ok ctx'. feed es ctx = Ret (ok, ctx') \<and> safe_builder h0 ctx' \<and>
    (ok \<longrightarrow> stack_fits d' ctx' \<and> (containerStack ctx \<noteq> [] \<or> \<not> list_all is_key es \<longrightarrow> containerStack ctx' \<noteq> []) \<and>
      strings_allocated (malloc_ok (heap ctx')) (brk (heap ctx')) rest)"
  using assms
proof (induction es arbitrary: ctx d)
  case (Cons e es)
  from Cons.prems(4) obtain k where k: "depth d [e] = Some k" "depth k es = Some d'"
    unfolding depth_Cons [of d e es] by (cases "depth d [e]") auto
  have str: "strings_allocated (malloc_ok (heap ctx)) (brk (heap ctx)) (e # (es @ rest))"
    using Cons.prems(2) by simp
  from callback_safe [OF Cons.prems(1) str Cons.prems(3) k(1)] obtain rv ctx1 where
    c: "build_callbacks e ctx = Ret (rv, ctx1)" "safe_builder h0 ctx1"
    "rv \<noteq> 0 \<Longrightarrow> stack_fits k ctx1 \<and> (containerStack ctx \<noteq> [] \<or> \<not> is_key e \<longrightarrow> containerStack ctx1 \<noteq> [])"
    by (auto simp: cb_safe_def)
  show ?case
  proof (cases "rv = 0")
    case True
    with c have "feed (e # es) ctx = Ret (False, ctx1)" by simp
    with c(2) show ?thesis by blast
  next
    case False
    with Cons.IH [OF c(2) strings_allocated_next [OF str c(1) False] _ k(2)] c show ?thesis by auto
  qed
qed auto

section \<open>The whole parse\<close>

text \<open>
  What the library reports of a buffer, whether it takes it for a document, and what a
  caller gets: a tree of new nodes, or an error and the heap as it was.
\<close>

definition yajl_events :: "yajl \<Rightarrow> string \<Rightarrow> c_long \<Rightarrow> event list" where
  "yajl_events Y buffer bufflen =
     (let m = take (unat (ucast bufflen :: c_int)) buffer
      in fst (yajl_parse Y m) @ fst (yajl_complete_parse Y m))"

definition yajl_accepts :: "yajl \<Rightarrow> string \<Rightarrow> c_long \<Rightarrow> bool" where
  "yajl_accepts Y buffer bufflen =
     (let m = take (unat (ucast bufflen :: c_int)) buffer
      in yajl_alloc_ok Y \<and> snd (yajl_parse Y m) \<and> snd (yajl_complete_parse Y m))"

definition parsed_safely :: "dom_heap \<Rightarrow> bool \<Rightarrow> event list \<Rightarrow> node_ref option \<times> gerror option \<times> dom_heap \<Rightarrow> bool" where
  "parsed_safely h accepted es = (\<lambda>(result, err, h').
     (case result of
        None \<Rightarrow> cells h' = cells h \<and> (err = None \<longrightarrow> accepted \<and> list_all is_key es)
      | Some r \<Rightarrow> err = None \<and> (\<exists>t F. repr (cells h') t r F \<and> F \<subseteq> {brk h..<brk h'} \<and>
          (\<forall>x. x \<notin> F \<longrightarrow> cells h' x = cells h x))))"

lemma clean_safe:
  assumes safe: "safe_builder h ctx"
  shows "\<exists>h'. buildDom_clean ctx None err = Ret (None, err, h') \<and> cells h' = cells h"
proof -
  obtain F where F: "owned h (heap ctx) (containerStack ctx) F" using safe by (auto simp: safe_builder_def)
  show ?thesis
  proof (cases "containerStack ctx = []")
    case True
    with F show ?thesis by (auto simp: buildDom_clean_def peek_tail_def owned_def)
  next
    case False
    with F obtain t where t: "repr (cells (heap ctx)) t (last (containerStack ctx)) F" by (auto simp: owned_def)
    have "cells (without F (heap ctx)) x = cells h x" for x
      using F safe by (auto simp: cells_without owned_def safe_builder_def heap_ok_def)
    with free_node_repr [OF _ t] False safe show ?thesis
      by (auto simp: buildDom_clean_def peek_tail_def safe_builder_def)
  qed
qed

lemma buildDom_safe:
  assumes ok: "heap_ok h" and dep: "depth 0 (yajl_events Y buffer bufflen) \<noteq> None"
    and strings: "strings_allocated (malloc_ok h) (brk h) (yajl_events Y buffer bufflen)"
  shows "\<exists>r. jdParser_buildDom E Y buffer bufflen h = Ret r \<and>
    parsed_safely h (yajl_accepts Y buffer bufflen) (yajl_events Y buffer bufflen) r"
proof -
  let ?es = "yajl_events Y buffer bufflen" let ?acc = "yajl_accepts Y buffer bufflen"
  let ?t = "take (unat (ucast bufflen :: c_int)) buffer"
  obtain es1 ok1 es2 ok2 where y: "yajl_parse Y ?t = (es1, ok1)" "yajl_complete_parse Y ?t = (es2, ok2)"
    by fastforce
  have app: "?es = es1 @ es2" and acc: "?acc \<longleftrightarrow> yajl_alloc_ok Y \<and> ok1 \<and> ok2"
    using y by (simp_all add: yajl_events_def yajl_accepts_def Let_def)
  obtain d1 d2 where d: "depth 0 es1 = Some d1" "depth d1 es2 = Some d2"
    using dep unfolding app depth_append by (cases "depth 0 es1") auto
  have str: "strings_allocated (malloc_ok (heap (jdBuilder_init h))) (brk (heap (jdBuilder_init h))) (es1 @ es2)"
    using strings by (simp add: app jdBuilder_init_def)
  have start: "safe_builder h (jdBuilder_init h)" "stack_fits 0 (jdBuilder_init h)"
    using ok by (auto simp: safe_builder_def jdBuilder_init_def owned_def stack_fits_def)
  have failed: "\<exists>r. buildDom_clean ctx None (Some e) = Ret r \<and> parsed_safely h ?acc ?es r" if "safe_builder h ctx" for ctx e
    using clean_safe [OF that, of "Some e"] by (auto simp: parsed_safely_def)
  from feed_safe [OF start(1) str start(2) d(1)] obtain k1 c1 where
    f1: "feed es1 (jdBuilder_init h) = Ret (k1, c1)" "safe_builder h c1"
    "k1 \<Longrightarrow> stack_fits d1 c1 \<and> (\<not> list_all is_key es1 \<longrightarrow> containerStack c1 \<noteq> []) \<and>
      strings_allocated (malloc_ok (heap c1)) (brk (heap c1)) (es2 @ [])"
    by auto
  show ?thesis
  proof (cases "yajl_alloc_ok Y \<and> k1 \<and> ok1")
    case False
    with y f1 failed [OF start(1)] failed [OF f1(2)] show ?thesis
      by (auto simp: jdParser_buildDom_def Let_def)
  next
    case True
    with feed_safe [OF f1(2) _ _ d(2), of "[]"] f1(3) obtain k2 c2 where
      f2: "feed es2 c1 = Ret (k2, c2)" "safe_builder h c2"
      "k2 \<Longrightarrow> \<not> list_all is_key ?es \<longrightarrow> containerStack c2 \<noteq> []"
      by (auto simp: app)
    show ?thesis
    proof (cases "k2 \<and> ok2")
      case False
      with True y f1 f2 failed [OF f2(2)] show ?thesis
        by (auto simp: jdParser_buildDom_def Let_def)
    next
      case ok2: True
      with True y f1 f2 have r: "jdParser_buildDom E Y buffer bufflen h = buildDom_clean c2 (peek_tail c2) None"
        by (simp add: jdParser_buildDom_def Let_def)
      show ?thesis
      proof (cases "containerStack c2 = []")
        case True
        with f2(3) ok2 have "list_all is_key ?es" by blast
        moreover have ?acc using acc \<open>yajl_alloc_ok Y \<and> k1 \<and> ok1\<close> ok2 by blast
        ultimately show ?thesis using r clean_safe [OF f2(2), of None] True by (auto simp: peek_tail_def parsed_safely_def)
      next
        case False
        with f2(2) obtain F t where F: "F \<subseteq> {brk h..}" "\<forall>x. x \<notin> F \<longrightarrow> cells (heap c2) x = cells h x"
          "repr (cells (heap c2)) t (last (containerStack c2)) F" "heap_ok (heap c2)"
          by (auto simp: safe_builder_def owned_def)
        moreover have "F \<subseteq> {brk h..<brk (heap c2)}" using F(1) heap_ok_repr [OF F(4,3)] by auto
        ultimately show ?thesis using r False
          by (auto simp: peek_tail_def buildDom_clean_def parsed_safely_def)
      qed
    qed
  qed
qed

text \<open>The parse of a text, as a document: never undefined, and it has an error when it has no result.\<close>

lemma parse_document_safe:
  assumes "depth 0 (yajl_events Y buffer bufflen) \<noteq> None"
    and "yajl_accepts Y buffer bufflen \<Longrightarrow> \<not> list_all is_key (yajl_events Y buffer bufflen)"
  shows "(\<exists>d. parse_document E Y buffer bufflen = Ret (Some d, None)) \<or>
    (\<exists>e. parse_document E Y buffer bufflen = Ret (None, Some e))"
proof -
  have "strings_allocated (malloc_ok empty_heap) (brk empty_heap) (yajl_events Y buffer bufflen)"
    by (rule strings_allocated_all) (rule heap_ok_empty)
  from buildDom_safe [OF heap_ok_empty(1) assms(1) this, of E] obtain result err h where
    r: "jdParser_buildDom E Y buffer bufflen empty_heap = Ret (result, err, h)"
    "parsed_safely empty_heap (yajl_accepts Y buffer bufflen) (yajl_events Y buffer bufflen) (result, err, h)"
    by (metis prod.collapse)
  show ?thesis
  proof (cases result)
    case None
    with r assms(2) show ?thesis by (cases err) (auto simp: parse_document_def parsed_safely_def)
  next
    case (Some n)
    with r obtain t F where F: "err = None" "repr (cells h) t n F" "F \<subseteq> {0..<brk h}"
      by (auto simp: parsed_safely_def)
    have "card F \<le> card {0..<brk h}" using F(3) by (intro card_mono) auto
    with jdepth_card(1) [OF F(2)] have "jdepth t \<le> brk h" by simp
    with tree_of_repr(1) [OF F(2)] have "tree_of (brk h) (cells h) n = Some t" by blast
    with Some r F(1) show ?thesis by (simp add: parse_document_def)
  qed
qed

text \<open>A text the library rejects gives no document.\<close>

lemma clean_no_result: "buildDom_clean ctx None err = Ret (result, e, h') \<Longrightarrow> result = None"
  by (auto simp: buildDom_clean_def bind_outcome_eq_Ret split: option.split_asm)

lemma rejected_no_result:
  assumes "jdParser_buildDom E Y buffer bufflen h = Ret (result, err, h')" and "\<And>m. \<not> snd (yajl_parse Y m)"
  shows "result = None"
  using assms
  by (auto simp: jdParser_buildDom_def Let_def bind_outcome_eq_Ret dest: clean_no_result split: if_split_asm)

text \<open>A string whose node cannot be allocated is the exception: the null pointer is read.\<close>

lemma unallocated_string_undefined:
  "\<not> malloc_ok (heap ctx) (brk (heap ctx)) \<Longrightarrow> cb_build_string ctx s = Undef"
  by (simp add: cb_build_string_def JsonNode_new_def Let_def)

section \<open>Properties\<close>

text \<open>
  C4: on whatever input, well formed or not, and whatever allocation fails first, as long as
  it is not that of the node of a string (whose callback reads the node unchecked),
  \<open>jdParser_buildDom\<close> uses and frees allocated nodes only; when it fails it has
  freed every node it made, and when it succeeds it returns a tree of new nodes, made of
  all that is left of them, and no node from before has changed.
\<close>

theorem parser_memory_safe:
  assumes "heap_ok h" and "depth 0 (yajl_events Y buffer bufflen) \<noteq> None"
    and "strings_allocated (malloc_ok h) (brk h) (yajl_events Y buffer bufflen)"
  shows "\<exists>result err h'. jdParser_buildDom E Y buffer bufflen h = Ret (result, err, h') \<and>
    (case result of
       None \<Rightarrow> cells h' = cells h
     | Some r \<Rightarrow> err = None \<and> (\<exists>t F. repr (cells h') t r F \<and> F \<inter> dom (cells h) = {} \<and>
         dom (cells h') = dom (cells h) \<union> F \<and> (\<forall>x \<in> dom (cells h). cells h' x = cells h x)))"
proof -
  from buildDom_safe [OF assms, of E] obtain result err h' where
    r: "jdParser_buildDom E Y buffer bufflen h = Ret (result, err, h')"
    "parsed_safely h (yajl_accepts Y buffer bufflen) (yajl_events Y buffer bufflen) (result, err, h')"
    by (metis prod.collapse)
  show ?thesis
  proof (cases result)
    case None
    with r show ?thesis by (auto simp: parsed_safely_def)
  next
    case (Some n)
    with r obtain t F where F: "err = None" "repr (cells h') t n F" "F \<subseteq> {brk h..<brk h'}"
      "\<forall>x. x \<notin> F \<longrightarrow> cells h' x = cells h x"
      by (auto simp: parsed_safely_def)
    have new: "F \<inter> dom (cells h) = {}" using F(3) below_brk [OF assms(1)] by fastforce
    have "x \<in> dom (cells h') \<longleftrightarrow> x \<in> dom (cells h) \<union> F" for x
      using repr_footprint(1) [OF F(2)] F(4) by (cases "x \<in> F") (auto simp: domIff)
    then have "dom (cells h') = dom (cells h) \<union> F" by blast
    moreover have "\<forall>x \<in> dom (cells h). cells h' x = cells h x" using F(4) new by blast
    ultimately show ?thesis using r(1) F(1,2) new Some by auto
  qed
qed

text \<open>A text that breaks off, with a string in it, and an allocation that fails on the way.\<close>

definition broken_yajl :: yajl where
  "broken_yajl = \<lparr>yajl_alloc_ok = True,
     yajl_parse = (\<lambda>m. ([YStartMap, YMapKey ''a'', YStartArray, YString ''s'', YNull], False)),
     yajl_complete_parse = (\<lambda>m. ([], True))\<rparr>"

lemma parser_memory_safe_witness:
  "\<forall>E. \<exists>err h'. jdParser_buildDom E broken_yajl ''{'' 1 (empty_heap\<lparr>malloc_ok := \<lambda>n. n < 3\<rparr>) = Ret (None, err, h') \<and>
     cells h' = cells empty_heap"
proof
  fix E
  let ?h = "empty_heap\<lparr>malloc_ok := \<lambda>n. n < 3\<rparr>"
  have es: "yajl_events broken_yajl ''{'' 1 = [YStartMap, YMapKey ''a'', YStartArray, YString ''s'', YNull]"
    by (simp add: yajl_events_def broken_yajl_def Let_def)
  have "heap_ok ?h" by (simp add: heap_ok_def empty_heap_def)
  from parser_memory_safe [OF this, of broken_yajl "''{''" 1 E] obtain result err h' where
    r: "jdParser_buildDom E broken_yajl ''{'' 1 ?h = Ret (result, err, h')"
    "case result of None \<Rightarrow> cells h' = cells ?h | Some r \<Rightarrow> err = None \<and> (\<exists>t F. repr (cells h') t r F \<and>
       F \<inter> dom (cells ?h) = {} \<and> dom (cells h') = dom (cells ?h) \<union> F \<and> (\<forall>x \<in> dom (cells ?h). cells h' x = cells ?h x))"
    by (auto simp: es empty_heap_def)
  from r(1) have "result = None" by (rule rejected_no_result) (simp add: broken_yajl_def)
  with r show "\<exists>err h'. jdParser_buildDom E broken_yajl ''{'' 1 ?h = Ret (None, err, h') \<and> cells h' = cells empty_heap"
    by auto
qed

end
