(* ===== verification/Reader_Safety.thy ===== *)
theory Reader_Safety
  imports Transport Json_Safety
begin

text \<open>
  \<open>requestReader\<close> of \<open>src/ioprocess.c\<close> on a stream it does not control: on any bytes, cut
  in any way, it stays inside its buffer and comes to an end.
\<close>

section \<open>The reader stays inside its buffer\<close>

text \<open>
  What is asked of the library: the events of a text never close more containers than they
  opened, and a text it accepts has a value in it.
\<close>

definition yajl_sane :: "yajl \<Rightarrow> bool" where
  "yajl_sane Y \<longleftrightarrow> (\<forall>buffer bufflen. depth 0 (yajl_events Y buffer bufflen) \<noteq> None \<and>
     (yajl_accepts Y buffer bufflen \<longrightarrow> \<not> list_all is_key (yajl_events Y buffer bufflen)))"

text \<open>
  While a message is read, what is in the buffer and what is to come make up its size. When
  the size of the buffer has wrapped around to 0, nothing has been read into it: the kernel
  refuses a read of that many bytes.
\<close>

definition within_buffer :: "reader \<Rightarrow> bool" where
  "within_buffer r \<longleftrightarrow> bytesPending r = 0 \<or>
     length (buffer r) + unat (bytesPending r) = unat (reqSize r) \<and> (reqSize r + 1 = 0 \<longrightarrow> buffer r = [])"

lemma queue_request_safe:
  assumes "yajl_sane Y" and "bytesPending r = 0"
  shows "\<exists>x. queue_request E Y r = Ret x \<and> (\<forall>r'. x = Inr r' \<longrightarrow> within_buffer r')"
proof -
  from assms(1) have "depth 0 (yajl_events Y (buffer r) (reqSize r)) \<noteq> None"
    "yajl_accepts Y (buffer r) (reqSize r) \<Longrightarrow> \<not> list_all is_key (yajl_events Y (buffer r) (reqSize r))"
    by (auto simp: yajl_sane_def)
  from parse_document_safe [OF this, of E] show ?thesis
    using assms(2) by (auto simp: queue_request_def within_buffer_def)
qed

lemma read_pipe_bound: "read_pipe n p = (Got bs, p') \<Longrightarrow> length bs \<le> n \<and> n \<le> SSIZE_MAX"
  by (auto simp: read_pipe_def take_pipe_def map_prod_def split: list.splits rd.splits if_splits)

lemma wrapped_size: "(w :: c_long) + 1 = 0 \<Longrightarrow> SSIZE_MAX < unat w"
  by (simp add: SSIZE_MAX_def eq_neg_iff_add_eq_0 [symmetric] unsigned_minus_1_eq_mask mask_eq_exp_minus_1)

lemma unat_Suc: "(w :: c_long) + 1 \<noteq> 0 \<Longrightarrow> unat (w + 1) = Suc (unat w)"
  by (simp add: unatSuc add.commute)

lemma read_body_safe:
  assumes Y: "yajl_sane Y" and r: "within_buffer r"
  shows "\<exists>x. read_body_chunk E Y r = Ret x \<and> (\<forall>r'. x = Inr r' \<longrightarrow> within_buffer r')"
proof (cases "read_pipe (unat (bytesPending r)) (pipe r)")
  case (Pair res p)
  show ?thesis
  proof (cases res)
    case (Failed e)
    with Pair show ?thesis by (simp add: read_body_chunk_def)
  next
    case (Got bs)
    with Pair have len: "length bs \<le> unat (bytesPending r)" "unat (bytesPending r) \<le> SSIZE_MAX"
      by (auto dest: read_pipe_bound)
    show ?thesis
    proof (cases "bs = []")
      case True
      with Pair Got show ?thesis by (simp add: read_body_chunk_def)
    next
      case False
      with len have "bytesPending r \<noteq> 0" by auto
      with r have *: "length (buffer r) + unat (bytesPending r) = unat (reqSize r)"
        "reqSize r + 1 = 0 \<Longrightarrow> buffer r = []"
        by (auto simp: within_buffer_def)
      with len(2) wrapped_size [of "reqSize r"] have w: "length (buffer r) + unat (bytesPending r) = unat (reqSize r)"
        "reqSize r + 1 \<noteq> 0"
        by auto
      have room: "\<not> unat (reqSize r + 1) < length (buffer r) + length bs"
        using w len(1) unat_Suc [OF w(2)] by simp
      define r1 where "r1 = r\<lparr>pipe := p, buffer := buffer r @ bs,
        bytesPending := bytesPending r - word_of_nat (length bs)\<rparr>"
      have "unat (bytesPending r) < 2 ^ 64" by (rule unat_c_long_less)
      with len(1) have "unat (word_of_nat (length bs) :: c_long) = length bs" by (intro unat_c_long_of_nat) simp
      then have "unat (bytesPending r1) = unat (bytesPending r) - length bs"
        using len(1) by (simp add: r1_def unat_sub word_le_nat_alt)
      with w len(1) have r1: "within_buffer r1" by (auto simp: within_buffer_def r1_def)
      have "read_body_chunk E Y r = (if bytesPending r1 \<noteq> 0 then Ret (Inr r1) else queue_request E Y r1)"
        using Pair Got False room by (simp add: read_body_chunk_def r1_def Let_def)
      with r1 queue_request_safe [OF Y, of r1 E] show ?thesis by auto
    qed
  qed
qed

lemma reader_step_safe:
  assumes Y: "yajl_sane Y" and r: "within_buffer r"
  shows "\<exists>x. reader_step E Y M r = Ret x \<and> (\<forall>r'. x = Inr r' \<longrightarrow> within_buffer r')"
proof (cases "bytesPending r = 0")
  case True
  show ?thesis
  proof (cases "read_header M r")
    case (Inl e)
    with True show ?thesis by (simp add: reader_step_def)
  next
    case (Inr r1)
    then have "bytesPending r1 = reqSize r1" "buffer r1 = []"
      by (auto simp: read_header_def Let_def split: prod.split_asm rd_result.split_asm option.split_asm)
    then have "within_buffer r1" by (simp add: within_buffer_def)
    with read_body_safe [OF Y] True Inr show ?thesis by (simp add: reader_step_def)
  qed
next
  case False
  with read_body_safe [OF Y r] show ?thesis by (simp add: reader_step_def)
qed

lemma reader_loop_safe:
  assumes "yajl_sane Y" and "within_buffer r"
  shows "\<exists>docs rv. reader_loop E Y M r = Ret (docs, rv)"
  using assms
proof (induction E Y M r rule: reader_loop.induct)
  case (1 E Y M r)
  obtain x where x: "reader_step E Y M r = Ret x" "\<And>r'. x = Inr r' \<Longrightarrow> within_buffer r'"
    using reader_step_safe [of Y r E M] 1(2,3) by blast
  show ?case
  proof (cases x)
    case (Inl rv)
    with x show ?thesis by (subst reader_loop.simps) simp
  next
    case (Inr r')
    with x 1 have "\<exists>docs rv. reader_loop E Y M r' = Ret (docs, rv)" by blast
    with x Inr show ?thesis by (subst reader_loop.simps) simp
  qed
qed

section \<open>Properties\<close>

text \<open>
  C5: whatever bytes come in, and however the reads are cut or fail, the reader returns:
  it never runs over the end of its buffer, never uses a freed node and never reads an error that is
  not there, whatever allocations of the buffer fail, the one of 0 bytes included (for the
  size 2^64 - 1, whose buffer size wraps around).
\<close>

theorem reader_memory_safe:
  assumes "yajl_sane Y"
  shows "\<exists>docs err. requestReader E Y M p = Ret (docs, err)"
proof -
  have "within_buffer (reader_init p)" by (simp add: within_buffer_def reader_init_def)
  from reader_loop_safe [of Y "reader_init p" E M] this assms show ?thesis by (auto simp: requestReader_def)
qed

text \<open>A library that reads an array opening and rejects everything; a header of the largest size.\<close>

definition rejecting_yajl :: yajl where
  "rejecting_yajl = \<lparr>yajl_alloc_ok = True, yajl_parse = (\<lambda>m. ([YStartArray, YNull], False)),
     yajl_complete_parse = (\<lambda>m. ([], False))\<rparr>"

lemma reader_memory_safe_witness:
  "\<exists>docs err. requestReader demo_env rejecting_yajl (\<lambda>n. None)
     \<lparr>inbuf = word_bytes (- 1) @ ''xyz'', sched = [Upto 8, Upto 1]\<rparr> = Ret (docs, err)"
  by (rule reader_memory_safe) (simp_all add: yajl_sane_def rejecting_yajl_def yajl_events_def yajl_accepts_def Let_def)

end
