(* ===== verification/Json_Alloc.thy ===== *)
theory Json_Alloc
  imports Json_Heap
begin

text \<open>
  New documents in the node heap: the nodes of a result are allocated one by one and
  linked with \<open>JsonNode_array_append\<close> and \<open>JsonNode_map_insert\<close>. \<open>fresh_tree h t r h'\<close>
  says that from \<open>h\<close> to \<open>h'\<close> exactly the tree \<open>t\<close> at \<open>r\<close> was added.
\<close>

section \<open>Allocation and reading\<close>

text \<open>
  A node whose allocation fails is the null pointer, and the callers here go on with it;
  what they do then is not followed.
\<close>

definition new_node :: "cell \<Rightarrow> dom_heap \<Rightarrow> (node_ref \<times> dom_heap) outcome" where
  "new_node c h =
     (case JsonNode_new c h of (None, h') \<Rightarrow> Undef | (Some r, h') \<Rightarrow> Ret (r, h'))"

definition put_new :: "node_ref \<Rightarrow> string \<Rightarrow> cell \<Rightarrow> dom_heap \<Rightarrow> dom_heap outcome" where
  "put_new parent key c h =
     bind_outcome (new_node c h) (\<lambda>(r, h). heap_map_insert parent key r h)"

text \<open>
  The nodes of a result, as the exported functions make them: a container first, then its
  children, each added when it is complete.
\<close>

fun new_tree :: "json \<Rightarrow> dom_heap \<Rightarrow> (node_ref \<times> dom_heap) outcome"
  and new_elems :: "node_ref \<Rightarrow> json list \<Rightarrow> dom_heap \<Rightarrow> dom_heap outcome"
  and new_members :: "node_ref \<Rightarrow> (string \<times> json) list \<Rightarrow> dom_heap \<Rightarrow> dom_heap outcome" where
  "new_tree JNull h = new_node CNull h"
| "new_tree (JBoolean b) h = new_node (CBoolean b) h"
| "new_tree (JLong l) h = new_node (CLong l) h"
| "new_tree (JDouble d) h = new_node (CDouble d) h"
| "new_tree (JString s) h = new_node (CString s) h"
| "new_tree (JMap m) h =
     bind_outcome (new_node (CMap []) h) (\<lambda>(p, h).
     bind_outcome (new_members p m h) (\<lambda>h. Ret (p, h)))"
| "new_tree (JArray a) h =
     bind_outcome (new_node (CArray []) h) (\<lambda>(p, h).
     bind_outcome (new_elems p a h) (\<lambda>h. Ret (p, h)))"
| "new_elems p [] h = Ret h"
| "new_elems p (t # ts) h =
     bind_outcome (new_tree t h) (\<lambda>(r, h).
     bind_outcome (heap_array_append p r h) (new_elems p ts))"
| "new_members p [] h = Ret h"
| "new_members p ((k, t) # kvs) h =
     bind_outcome (new_tree t h) (\<lambda>(r, h).
     bind_outcome (heap_map_insert p k r h) (new_members p kvs))"

text \<open>The document below a pointer; following a dangling one is undefined.\<close>

definition read_doc :: "node_ref \<Rightarrow> dom_heap \<Rightarrow> json outcome" where
  "read_doc r h = (case tree_of (brk h) (cells h) r of None \<Rightarrow> Undef | Some t \<Rightarrow> Ret t)"

section \<open>New trees\<close>

text \<open>
  From \<open>h\<close> to \<open>h'\<close> exactly the tree \<open>t\<close> at \<open>r\<close> was added, and all nodes of it are new.
\<close>

definition heap_mem :: "dom_heap \<Rightarrow> bool" where
  "heap_mem h \<longleftrightarrow> heap_ok h \<and> (\<forall>n. malloc_ok h n)"

definition grown :: "dom_heap \<Rightarrow> dom_heap \<Rightarrow> bool" where
  "grown h h' \<longleftrightarrow> heap_mem h' \<and> brk h \<le> brk h' \<and> (\<forall>x<brk h. cells h' x = cells h x)"

definition fresh_tree :: "dom_heap \<Rightarrow> json \<Rightarrow> node_ref \<Rightarrow> dom_heap \<Rightarrow> bool" where
  "fresh_tree h t r h' \<longleftrightarrow> grown h h' \<and> repr (cells h') t r {brk h..<brk h'}"

lemma new_node_mem:
  "heap_mem h \<Longrightarrow> new_node c h = Ret (brk h, h\<lparr>cells := (cells h)(brk h \<mapsto> c), brk := Suc (brk h)\<rparr>)"
  by (simp add: new_node_def JsonNode_new_def heap_mem_def)

lemma heap_mem_new [simp]:
  "heap_mem h \<Longrightarrow> heap_mem (h\<lparr>cells := (cells h)(brk h \<mapsto> c), brk := Suc (brk h)\<rparr>)"
  by (simp add: heap_mem_def heap_ok_def)

lemma set_cell_sel [simp]:
  "cells (set_cell p c h) = (cells h)(p \<mapsto> c)" "brk (set_cell p c h) = brk h"
  "malloc_ok (set_cell p c h) = malloc_ok h"
  by (simp_all add: set_cell_def)

lemma heap_mem_set_cell [simp]: "heap_mem h \<Longrightarrow> p < brk h \<Longrightarrow> heap_mem (set_cell p c h)"
  by (simp add: heap_mem_def heap_ok_def)

lemma map_insert_fresh:
  "cells h p = Some (CMap m) \<Longrightarrow> nul_free k \<Longrightarrow> k \<notin> fst ` set m \<Longrightarrow>
   heap_map_insert p k r h = Ret (set_cell p (CMap (m @ [(k, r)])) h)"
  by (simp add: heap_map_insert_def Let_def update_fresh map_of_eq_None_iff [THEN iffD2])

lemma grown_trans: "grown h h' \<Longrightarrow> grown h' h'' \<Longrightarrow> grown h h''"
  by (auto simp: grown_def)

lemma fresh_leaf:
  assumes "heap_mem h" and "\<And>H. H (brk h) = Some c \<Longrightarrow> repr H t (brk h) {brk h}"
  shows "\<exists>h'. new_node c h = Ret (brk h, h') \<and> fresh_tree h t (brk h) h'"
proof -
  have "{brk h..<Suc (brk h)} = {brk h}" by auto
  with assms show ?thesis by (simp add: new_node_mem fresh_tree_def grown_def)
qed

text \<open>
  Children are added to a container at \<open>p\<close> below the break: the container holds the
  pointers \<open>rs\<close> of them, and nothing else below the break has changed.
\<close>

definition filled :: "dom_heap \<Rightarrow> node_ref \<Rightarrow> cell \<Rightarrow> json list \<Rightarrow> node_ref list \<Rightarrow> dom_heap \<Rightarrow> bool" where
  "filled h p c ts rs h' \<longleftrightarrow>
     heap_mem h' \<and> brk h \<le> brk h' \<and> cells h' p = Some c \<and>
     (\<forall>x<brk h. x \<noteq> p \<longrightarrow> cells h' x = cells h x) \<and> reprs (cells h') ts rs {brk h..<brk h'}"

lemma filled_nil: "heap_mem h \<Longrightarrow> cells h p = Some c \<Longrightarrow> filled h p c [] [] h"
  by (simp add: filled_def)

lemma filled_cons:
  assumes "fresh_tree h t r h1" and "p < brk h" and "filled (set_cell p c1 h1) p c ts rs h'"
  shows "filled h p c (t # ts) (r # rs) h'"
proof -
  from assms have *: "brk h \<le> brk h1" "brk h1 \<le> brk h'" "\<forall>x<brk h. cells h1 x = cells h x"
    "repr (cells h1) t r {brk h..<brk h1}" "reprs (cells h') ts rs {brk h1..<brk h'}"
    "\<forall>x<brk h1. x \<noteq> p \<longrightarrow> cells h' x = cells h1 x"
    by (auto simp: fresh_tree_def grown_def filled_def)
  then have "repr (cells h') t r {brk h..<brk h1}"
    using assms(2) by (intro repr_frameI [OF *(4)]) auto
  with * have "reprs (cells h') (t # ts) (r # rs) ({brk h..<brk h1} \<union> {brk h1..<brk h'})"
    by (intro reprs_cons) auto
  moreover have "{brk h..<brk h1} \<union> {brk h1..<brk h'} = {brk h..<brk h'}" using * by auto
  ultimately show ?thesis using assms * by (auto simp: filled_def)
qed

lemma filled_container:
  assumes "heap_mem h" and "filled (h\<lparr>cells := (cells h)(brk h \<mapsto> c0), brk := Suc (brk h)\<rparr>) (brk h) c ts rs h'"
    and "\<And>F. reprs (cells h') ts rs F \<Longrightarrow> brk h \<notin> F \<Longrightarrow> repr (cells h') t (brk h) (insert (brk h) F)"
  shows "fresh_tree h t (brk h) h'"
proof -
  from assms(2) have *: "heap_mem h'" "Suc (brk h) \<le> brk h'" "\<forall>x<brk h. cells h' x = cells h x"
    "reprs (cells h') ts rs {Suc (brk h)..<brk h'}"
    by (auto simp: filled_def)
  from *(2) have "insert (brk h) {Suc (brk h)..<brk h'} = {brk h..<brk h'}" by auto
  with * assms(3) [OF *(4)] show ?thesis by (simp add: fresh_tree_def grown_def)
qed

lemma new_tree_fresh:
  "heap_mem h \<Longrightarrow> wf_json t \<Longrightarrow> \<exists>h'. new_tree t h = Ret (brk h, h') \<and> fresh_tree h t (brk h) h'"
  "heap_mem h \<Longrightarrow> list_all wf_json ts \<Longrightarrow> p < brk h \<Longrightarrow> cells h p = Some (CArray a) \<Longrightarrow>
     \<exists>rs h'. new_elems p ts h = Ret h' \<and> filled h p (CArray (a @ rs)) ts rs h'"
  "heap_mem h \<Longrightarrow> list_all (\<lambda>(k, v). nul_free k \<and> wf_json v) kvs \<Longrightarrow> distinct (map fst m @ map fst kvs) \<Longrightarrow>
     p < brk h \<Longrightarrow> cells h p = Some (CMap m) \<Longrightarrow>
     \<exists>rs h'. new_members p kvs h = Ret h' \<and> length rs = length kvs \<and>
       filled h p (CMap (m @ zip (map fst kvs) rs)) (map snd kvs) rs h'"
proof (induction t h and p ts h and p kvs h arbitrary: and a and m
    rule: new_tree_new_elems_new_members.induct)
  case (6 m h)
  let ?h1 = "h\<lparr>cells := (cells h)(brk h \<mapsto> CMap []), brk := Suc (brk h)\<rparr>"
  from 6 have "\<exists>rs h'. new_members (brk h) m ?h1 = Ret h' \<and> length rs = length m \<and>
      filled ?h1 (brk h) (CMap ([] @ zip (map fst m) rs)) (map snd m) rs h'"
    by (intro 6(1) [where m = "[]"]) (auto simp: new_node_mem)
  then obtain rs h' where *: "new_members (brk h) m ?h1 = Ret h'" "length rs = length m"
    "filled ?h1 (brk h) (CMap (zip (map fst m) rs)) (map snd m) rs h'" by auto
  have "fresh_tree h (JMap m) (brk h) h'"
  proof (rule filled_container [OF 6(2) *(3)])
    fix F assume "reprs (cells h') (map snd m) rs F" "brk h \<notin> F"
    with * show "repr (cells h') (JMap m) (brk h) (insert (brk h) F)"
      by (intro repr_map [where m = "zip (map fst m) rs"]) (auto simp: filled_def)
  qed
  with * 6(2) show ?case by (simp add: new_node_mem)
next
  case (7 a h)
  let ?h1 = "h\<lparr>cells := (cells h)(brk h \<mapsto> CArray []), brk := Suc (brk h)\<rparr>"
  from 7 have "\<exists>rs h'. new_elems (brk h) a ?h1 = Ret h' \<and>
      filled ?h1 (brk h) (CArray ([] @ rs)) a rs h'"
    by (intro 7(1)) (auto simp: new_node_mem)
  then obtain rs h' where *: "new_elems (brk h) a ?h1 = Ret h'" "filled ?h1 (brk h) (CArray rs) a rs h'"
    by auto
  have "fresh_tree h (JArray a) (brk h) h'"
    by (rule filled_container [OF 7(2) *(2)]) (use * in \<open>auto simp: filled_def intro: repr_array\<close>)
  with * 7(2) show ?case by (simp add: new_node_mem)
next
  case (8 p h)
  then show ?case by (auto intro!: exI [of _ "[]"] filled_nil)
next
  case (9 p t ts h)
  then obtain h1 where h1: "new_tree t h = Ret (brk h, h1)" "fresh_tree h t (brk h) h1" by auto
  with 9 have "cells h1 p = Some (CArray a)" "heap_mem h1" "p < brk h1"
    by (auto simp: fresh_tree_def grown_def)
  then have app: "heap_array_append p (brk h) h1 = Ret (set_cell p (CArray (a @ [brk h])) h1)"
    and mem: "heap_mem (set_cell p (CArray (a @ [brk h])) h1)" and p: "p < brk h1"
    by (simp_all add: heap_array_append_def)
  from 9(2) [where a = "a @ [brk h]", OF mem _ _ ] p 9(4) obtain rs h' where
    "new_elems p ts (set_cell p (CArray (a @ [brk h])) h1) = Ret h'"
    "filled (set_cell p (CArray (a @ [brk h])) h1) p (CArray ((a @ [brk h]) @ rs)) ts rs h'" by auto
  with h1 app 9(5) show ?case
    by (intro exI [of _ "brk h # rs"] exI [of _ h']) (auto intro: filled_cons)
next
  case (10 p h)
  then show ?case by (auto intro!: exI [of _ "[]"] filled_nil)
next
  case (11 p k t kvs h)
  then obtain h1 where h1: "new_tree t h = Ret (brk h, h1)" "fresh_tree h t (brk h) h1" by auto
  let ?h2 = "set_cell p (CMap (m @ [(k, brk h)])) h1"
  from h1 11 have c: "cells h1 p = Some (CMap m)" "heap_mem h1" "p < brk h1"
    by (auto simp: fresh_tree_def grown_def)
  from 11 have k: "nul_free k" "k \<notin> fst ` set m" by auto
  note ins = map_insert_fresh [OF c(1) k]
  have "\<exists>rs h'. new_members p kvs ?h2 = Ret h' \<and> length rs = length kvs \<and>
      filled ?h2 p (CMap ((m @ [(k, brk h)]) @ zip (map fst kvs) rs)) (map snd kvs) rs h'"
    using 11 c by (intro 11(2) [where m = "m @ [(k, brk h)]"]) auto
  then obtain rs h' where "new_members p kvs ?h2 = Ret h'" "length rs = length kvs"
    "filled ?h2 p (CMap (m @ zip (map fst ((k, t) # kvs)) (brk h # rs))) (map snd kvs) rs h'" by auto
  with h1 ins 11(6) show ?case
    by (intro exI [of _ "brk h # rs"] exI [of _ h']) (auto intro: filled_cons)
qed (auto intro!: fresh_leaf repr_reprs.intros)

end
