(* ===== verification/Request_Heap.thy ===== *)
theory Request_Heap
  imports Request Json_Gen Json_Alloc
begin

text \<open>
  The memory of one request: the request document is a tree in the node heap, the worker
  adds the nodes of the response and frees the request, the writer frees the response.
  \<open>Request\<close> says which document the response is; here the same functions
  (\<open>buildResponse\<close>, \<open>servRequest\<close>, \<open>servQueueFull\<close> of \<open>src/ioprocess.c\<close>) run on
  the nodes, in the order of the code, and are shown to implement those documents, to
  follow no dangling pointer and to leave the nodes they have to leave.
\<close>

section \<open>The functions on nodes\<close>

definition heap_buildResponse :: "c_long \<Rightarrow> gerror option \<Rightarrow> node_ref option \<Rightarrow> dom_heap
    \<Rightarrow> (node_ref \<times> dom_heap) outcome" where
  "heap_buildResponse reqId err result h =
     bind_outcome (case result of None \<Rightarrow> new_node (CMap []) h | Some r \<Rightarrow> Ret (r, h)) (\<lambda>(result, h).
     bind_outcome (new_node (CMap []) h) (\<lambda>(resp, h).
     bind_outcome (put_new resp ''id'' (CLong reqId) h) (\<lambda>h.
     bind_outcome (put_new resp ''errcode'' (CLong (scast (response_code err))) h) (\<lambda>h.
     bind_outcome (put_new resp ''errstr'' (CString (c_str (response_text err))) h) (\<lambda>h.
     bind_outcome (heap_map_insert resp ''result'' result h) (\<lambda>h. Ret (resp, h)))))))"

definition heap_result :: "json option \<Rightarrow> dom_heap \<Rightarrow> (node_ref option \<times> dom_heap) outcome" where
  "heap_result result h =
     (case result of
        None \<Rightarrow> Ret (None, h)
      | Some t \<Rightarrow> bind_outcome (new_tree t h) (\<lambda>(r, h). Ret (Some r, h)))"

text \<open>From the label \<open>respond\<close> on: a missing result becomes an empty map here already.\<close>

definition heap_respond :: "c_long \<Rightarrow> gerror option \<Rightarrow> node_ref option \<Rightarrow> dom_heap
    \<Rightarrow> (node_ref option \<times> dom_heap) outcome" where
  "heap_respond reqId err result h =
     bind_outcome (case result of None \<Rightarrow> new_node (CMap []) h | Some r \<Rightarrow> Ret (r, h)) (\<lambda>(result, h).
     bind_outcome (heap_buildResponse reqId err (Some result) h) (\<lambda>(response, h).
       Ret (Some response, h)))"

definition heap_servRequest :: "'w posix \<Rightarrow> node_ref \<Rightarrow> 'w proc \<Rightarrow> dom_heap
    \<Rightarrow> (node_ref option \<times> 'w proc \<times> dom_heap) outcome" where
  "heap_servRequest P reqInfo s h =
     bind_outcome (read_doc reqInfo h) (\<lambda>req.
     bind_outcome (extractRequestInfo req (- 1)) (\<lambda>((methodName, reqId, args), err).
     bind_outcome
       (case (err, methodName) of
          (None, Some methodName) \<Rightarrow>
            (case getCallback methodName of
               None \<Rightarrow> bind_outcome (heap_respond reqId (Some (no_such_method methodName)) None h)
                 (\<lambda>(response, h). Ret (response, s, h))
             | Some callback \<Rightarrow>
                 bind_outcome (callback P args s) (\<lambda>((result, err), s).
                 bind_outcome (heap_result result h) (\<lambda>(result, h).
                 bind_outcome (heap_respond reqId err result h)
                   (\<lambda>(response, h). Ret (response, s, h)))))
        | _ \<Rightarrow> Ret (None, s, h))
       (\<lambda>(response, s, h).
          bind_outcome (free_node reqInfo h) (\<lambda>h. Ret (response, s, h)))))"

text \<open>A refused request is not freed.\<close>

definition heap_servQueueFull :: "'w posix \<Rightarrow> node_ref \<Rightarrow> dom_heap
    \<Rightarrow> (node_ref \<times> dom_heap) outcome" where
  "heap_servQueueFull P reqObj h =
     bind_outcome (read_doc reqObj h) (\<lambda>req.
     bind_outcome (safeGetArgValues (Some req) [(''id'', JT_LONG, TLong, VLong (- 1))])
       (\<lambda>(vals, _). case vals of
          [VLong reqId] \<Rightarrow>
            heap_buildResponse reqId
              (Some (mk_error IOPROCESS_GENERAL_ERROR EAGAIN (iop_msg (strerr P) EAGAIN))) None h
        | _ \<Rightarrow> Undef))"

text \<open>The writer makes the text of a response and frees its nodes.\<close>

definition heap_write :: "(string list \<Rightarrow> string list) \<Rightarrow> (gen_call list \<Rightarrow> string) \<Rightarrow> (nat \<Rightarrow> bool)
    \<Rightarrow> node_ref \<Rightarrow> dom_heap \<Rightarrow> ((string \<times> c_long) \<times> dom_heap) outcome" where
  "heap_write ord gen_text calloc_ok response h =
     bind_outcome (read_doc response h) (\<lambda>t.
     bind_outcome (jdGenerator_generate ord gen_text calloc_ok t) (\<lambda>out.
     bind_outcome (free_node response h) (\<lambda>h. Ret (out, h))))"

section \<open>Responses in memory\<close>

lemma new_members_nil [simp]: "new_members p [] = Ret"
  by (rule ext) simp

lemma put_new_member:
  "put_new p k (CLong l) h = new_members p [(k, JLong l)] h"
  "put_new p k (CString s) h = new_members p [(k, JString s)] h"
  by (simp_all add: put_new_def bind_outcome_Ret)

lemma heap_buildResponse_fresh:
  assumes "fresh_tree h res r h1"
  shows "\<exists>q h'. heap_buildResponse i err (Some r) h1 = Ret (q, h') \<and>
    fresh_tree h (buildResponse i err (Some res)) q h'"
proof -
  let ?q = "brk h1" and ?h2 = "h1\<lparr>cells := (cells h1)(brk h1 \<mapsto> CMap []), brk := Suc (brk h1)\<rparr>"
  let ?kvs = "[(''id'', JLong i), (''errcode'', JLong (scast (response_code err))),
    (''errstr'', JString (c_str (response_text err)))]"
  from assms have h1: "heap_mem h1" "brk h \<le> brk h1" "repr (cells h1) res r {brk h..<brk h1}"
    "\<forall>x<brk h. cells h1 x = cells h x"
    by (auto simp: fresh_tree_def grown_def)
  have "\<exists>rs h'. new_members ?q ?kvs ?h2 = Ret h' \<and> length rs = length ?kvs \<and>
      filled ?h2 ?q (CMap ([] @ zip (map fst ?kvs) rs)) (map snd ?kvs) rs h'"
    using h1(1) by (intro new_tree_fresh(3)) (simp_all add: nul_free_def)
  then obtain rs h3 where m: "new_members ?q ?kvs ?h2 = Ret h3" "length rs = length ?kvs"
    and f: "filled ?h2 ?q (CMap (zip (map fst ?kvs) rs)) (map snd ?kvs) rs h3" by auto
  let ?h' = "set_cell ?q (CMap (zip (map fst ?kvs) rs @ [(''result'', r)])) h3"
  have "heap_buildResponse i err (Some r) h1 = Ret (?q, ?h')"
  proof -
    have "''result'' \<notin> fst ` set (zip (map fst ?kvs) rs)" by (auto dest: set_zip_leftD)
    then have "heap_map_insert ?q ''result'' r h3 = Ret ?h'"
      using f by (intro map_insert_fresh) (auto simp: filled_def nul_free_def)
    moreover have "heap_buildResponse i err (Some r) h1 =
        bind_outcome (new_members ?q ?kvs ?h2) (\<lambda>h. bind_outcome (heap_map_insert ?q ''result'' r h) (\<lambda>h. Ret (?q, h)))"
      unfolding heap_buildResponse_def put_new_member using h1(1)
      by (simp add: new_node_mem split_def bind_outcome_assoc)
    ultimately show ?thesis by (simp only: m(1) bind_outcome.simps)
  qed
  moreover have "fresh_tree h (buildResponse i err (Some res)) ?q ?h'"
  proof -
    from f h1 have *: "heap_mem h3" "Suc ?q \<le> brk h3" "reprs (cells h3) (map snd ?kvs) rs {Suc ?q..<brk h3}"
      "\<forall>x<?q. cells h3 x = cells h1 x"
      by (auto simp: filled_def)
    have "repr (cells h3) res r {brk h..<?q}" using * by (intro repr_frameI [OF h1(3)]) auto
    then have "reprs (cells h3) (map snd ?kvs @ [res]) (rs @ [r]) ({Suc ?q..<brk h3} \<union> {brk h..<?q})"
      by (intro reprs_append [OF *(3)]) auto
    then have "reprs (cells ?h') (map snd ?kvs @ [res]) (rs @ [r]) ({Suc ?q..<brk h3} \<union> {brk h..<?q})"
      by (rule reprs_frameI) auto
    then have "repr (cells ?h') (JMap (?kvs @ [(''result'', res)])) ?q
        (insert ?q ({Suc ?q..<brk h3} \<union> {brk h..<?q}))"
      using m(2) by (intro repr_map [where m = "zip (map fst ?kvs) rs @ [(''result'', r)]"]) auto
    moreover have "insert ?q ({Suc ?q..<brk h3} \<union> {brk h..<?q}) = {brk h..<brk h3}"
      using * h1(2) by auto
    moreover have "buildResponse i err (Some res) = JMap (?kvs @ [(''result'', res)])"
      by (simp add: response_layout response_code_def response_text_def c_str_def split: option.split)
    ultimately show ?thesis using * h1 by (simp add: fresh_tree_def grown_def)
  qed
  ultimately show ?thesis by blast
qed

lemma heap_buildResponse_none:
  assumes "heap_mem h"
  shows "\<exists>q h'. heap_buildResponse i err None h = Ret (q, h') \<and>
    fresh_tree h (buildResponse i err None) q h'"
proof -
  obtain h1 where h1: "new_node (CMap []) h = Ret (brk h, h1)" "fresh_tree h (JMap []) (brk h) h1"
    using new_tree_fresh(1) [OF assms, of "JMap []"] assms
    by (auto simp: new_node_mem)
  then have "heap_buildResponse i err None h = heap_buildResponse i err (Some (brk h)) h1"
    by (simp add: heap_buildResponse_def)
  moreover have "buildResponse i err None = buildResponse i err (Some (JMap []))"
    by (simp add: response_layout)
  ultimately show ?thesis using heap_buildResponse_fresh [OF h1(2)] by simp
qed

lemma heap_respond_fresh:
  assumes "heap_mem h" and "\<And>t. result = Some t \<Longrightarrow> wf_json t"
  shows "\<exists>q h'. bind_outcome (heap_result result h) (\<lambda>(r, h). heap_respond i err r h) = Ret (Some q, h') \<and>
    fresh_tree h (buildResponse i err result) q h'"
proof -
  let ?t = "case result of None \<Rightarrow> JMap [] | Some t \<Rightarrow> t"
  obtain h1 where h1: "new_tree ?t h = Ret (brk h, h1)" "fresh_tree h ?t (brk h) h1"
    using new_tree_fresh(1) [OF assms(1), of ?t] assms(2) by (cases result) auto
  from heap_buildResponse_fresh [OF h1(2)] obtain q h' where
    "heap_buildResponse i err (Some (brk h)) h1 = Ret (q, h')"
    "fresh_tree h (buildResponse i err (Some ?t)) q h'" by blast
  moreover have "buildResponse i err (Some ?t) = buildResponse i err result"
    by (simp add: response_layout split: option.split)
  ultimately show ?thesis
    using h1 assms(1) by (cases result) (auto simp: heap_result_def heap_respond_def new_node_mem)
qed

section \<open>Requests in memory\<close>

lemma read_doc_repr:
  assumes "heap_mem h" and "repr (cells h) t r F"
  shows "read_doc r h = Ret t"
proof -
  have "card F \<le> card {..<brk h}"
    using assms by (intro card_mono heap_ok_repr) (auto simp: heap_mem_def)
  with jdepth_card(1) [OF assms(2)] have "jdepth t \<le> brk h" by simp
  with tree_of_repr(1) [OF assms(2)] show ?thesis by (simp add: read_doc_def)
qed

lemma free_node_mem:
  assumes "heap_mem h" and "repr (cells h) t r F"
  shows "free_node r h = Ret (without F h)" "heap_mem (without F h)"
  using free_node_repr [OF _ assms(2)] assms(1)
  by (auto simp: heap_mem_def heap_ok_def cells_without)

lemma fresh_tree_dom:
  assumes "fresh_tree h t r h'" and "heap_mem h"
  shows "dom (cells h') = dom (cells h) \<union> {brk h..<brk h'}"
proof -
  from assms have *: "heap_ok h" "heap_ok h'" "\<forall>x<brk h. cells h' x = cells h x"
    "\<And>x. brk h \<le> x \<Longrightarrow> x < brk h' \<Longrightarrow> \<exists>c. cells h' x = Some c"
    by (auto simp: fresh_tree_def grown_def heap_mem_def subset_iff dest!: repr_footprint(1))
  have "x \<in> dom (cells h') \<longleftrightarrow> x \<in> dom (cells h) \<union> {brk h..<brk h'}" for x
    using * by (cases "x < brk h"; cases "x < brk h'") (auto simp: heap_ok_def not_less)
  then show ?thesis by blast
qed

text \<open>
  The response to a request and its root, and the heap: the nodes of the request are gone,
  those of the response are new, and all others are as before.
\<close>

definition request_done :: "dom_heap \<Rightarrow> node_ref set \<Rightarrow> json option \<Rightarrow> node_ref option \<Rightarrow> dom_heap \<Rightarrow> bool" where
  "request_done h F resp q h' \<longleftrightarrow> heap_mem h' \<and>
     (case resp of
        None \<Rightarrow> q = None \<and> h' = without F h
      | Some t \<Rightarrow> \<exists>p h1. q = Some p \<and> fresh_tree h t p h1 \<and> h' = without F h1)"

lemma request_done_None: "heap_mem h \<Longrightarrow> repr (cells h) t r F \<Longrightarrow> request_done h F None None (without F h)"
  by (simp add: request_done_def free_node_mem)

lemma request_done_Some:
  assumes "heap_mem h" and "repr (cells h) req r F" and "fresh_tree h t p h1"
  shows "free_node r h1 = Ret (without F h1) \<and> request_done h F (Some t) (Some p) (without F h1)"
proof -
  have "F \<subseteq> {..<brk h}" using assms by (intro heap_ok_repr) (auto simp: heap_mem_def)
  then have "repr (cells h1) req r F"
    using assms(3) by (intro repr_frameI [OF assms(2)]) (auto simp: fresh_tree_def grown_def)
  moreover have "heap_mem h1" using assms(3) by (simp add: fresh_tree_def grown_def)
  ultimately show ?thesis using free_node_mem assms(3) by (auto simp: request_done_def)
qed

lemma heap_servRequest_done:
  fixes P :: "'w posix"
  assumes mem: "heap_mem h" and rep: "repr (cells h) req r F"
    and serv: "servRequest P req s = Ret (resp, s')"
  shows "\<exists>q h'. heap_servRequest P r s h = Ret (q, s', h') \<and> request_done h F resp q h'"
proof -
  note run = heap_servRequest_def read_doc_repr [OF mem rep]
  from serv obtain m i args err where ex: "extractRequestInfo req (- 1) = Ret ((m, i, args), err)"
    by (auto simp: servRequest_def bind_outcome_eq_Ret)
  show ?thesis
  proof (cases "err = None \<and> m \<noteq> None")
    case False
    with serv ex have "resp = None" "s' = s" by (auto simp: servRequest_def split: option.splits)
    with False ex mem rep show ?thesis
      by (auto simp: run free_node_mem request_done_None split: option.splits)
  next
    case True
    then obtain mn where mn: "m = Some mn" "err = None" by auto
    show ?thesis
    proof (cases "getCallback mn :: 'w handler option")
      case None
      with serv ex mn have resp: "resp = Some (buildResponse i (Some (no_such_method mn)) None)" "s' = s"
        by (auto simp: servRequest_def)
      from heap_respond_fresh [OF mem, of None i "Some (no_such_method mn)"] obtain q h1 where
        q: "heap_respond i (Some (no_such_method mn)) None h = Ret (Some q, h1)"
          "fresh_tree h (buildResponse i (Some (no_such_method mn)) None) q h1"
        by (auto simp: heap_result_def)
      with None ex mn resp request_done_Some [OF mem rep q(2)] show ?thesis by (auto simp: run)
    next
      case (Some f)
      with serv ex mn obtain v e where v: "f P args s = Ret ((v, e), s')" "resp = Some (buildResponse i e v)"
        by (auto simp: servRequest_def bind_outcome_eq_Ret)
      have "wf_json t" if "v = Some t" for t
        using exported_function.result_wf [OF getCallback_contract [OF Some]] v(1) that by blast
      from heap_respond_fresh [OF mem this, where result = v and i = i and err = e] obtain q h1 where
        q: "bind_outcome (heap_result v h) (\<lambda>(r, h). heap_respond i e r h) = Ret (Some q, h1)"
          "fresh_tree h (buildResponse i e v) q h1" by auto
      then obtain r' h' where "heap_result v h = Ret (r', h')" "heap_respond i e r' h' = Ret (Some q, h1)"
        by (auto simp: bind_outcome_eq_Ret)
      with Some ex mn v request_done_Some [OF mem rep q(2)] show ?thesis by (auto simp: run)
    qed
  qed
qed

lemma heap_servQueueFull_fresh:
  assumes mem: "heap_mem h" and rep: "repr (cells h) req r F" and serv: "servQueueFull P req = Ret resp"
  shows "\<exists>q h'. heap_servQueueFull P r h = Ret (q, h') \<and> fresh_tree h resp q h'"
proof -
  from serv obtain vals e where ex:
    "safeGetArgValues (Some req) [(''id'', JT_LONG, TLong, VLong (- 1))] = Ret (vals, e)"
    unfolding servQueueFull_def bind_outcome_eq_Ret by (metis prod.exhaust)
  from serv obtain i where "vals = [VLong i]"
    "resp = buildResponse i (Some (mk_error IOPROCESS_GENERAL_ERROR EAGAIN (iop_msg (strerr P) EAGAIN))) None"
    unfolding servQueueFull_def ex by (auto simp: Let_def split: list.split_asm cval.split_asm)
  with heap_buildResponse_none [OF mem] show ?thesis
    unfolding heap_servQueueFull_def read_doc_repr [OF mem rep] bind_outcome.simps ex by simp
qed

lemma heap_write_frees:
  assumes "heap_mem h" and "repr (cells h) t r F"
    and "jdGenerator_generate ord gen_text calloc_ok t = Ret out"
  shows "heap_write ord gen_text calloc_ok r h = Ret (out, without F h)"
  using assms by (simp add: heap_write_def read_doc_repr free_node_mem)

section \<open>A message, from its text to the text of its response\<close>

text \<open>
  What the reader, the worker (or, when the queue is full, the handler) and the writer do
  for one message, one after the other. The text of the response, if there is one, the
  state of the process and the heap are the result.
\<close>

definition message_cycle :: "strerror_env \<Rightarrow> yajl \<Rightarrow> 'w posix \<Rightarrow> (string list \<Rightarrow> string list)
    \<Rightarrow> (gen_call list \<Rightarrow> string) \<Rightarrow> (nat \<Rightarrow> bool) \<Rightarrow> bool \<Rightarrow> string \<Rightarrow> 'w proc \<Rightarrow> dom_heap
    \<Rightarrow> ((string \<times> c_long) option \<times> 'w proc \<times> dom_heap) outcome" where
  "message_cycle E Y P ord gen_text calloc_ok refused buffer s h =
     bind_outcome (jdParser_buildDom E Y buffer (word_of_nat (length buffer)) h) (\<lambda>(req, err, h).
       case req of
         None \<Rightarrow> Ret (None, s, h)
       | Some r \<Rightarrow>
           bind_outcome
             (if refused
              then bind_outcome (heap_servQueueFull P r h) (\<lambda>(q, h). Ret (Some q, s, h))
              else heap_servRequest P r s h)
             (\<lambda>(response, s, h).
                case response of
                  None \<Rightarrow> Ret (None, s, h)
                | Some q \<Rightarrow>
                    bind_outcome (heap_write ord gen_text calloc_ok q h)
                      (\<lambda>(out, h). Ret (Some out, s, h))))"

lemma parsed_request:
  assumes "yajl_reads Y buffer (events t)" and "small_strings t" and "length buffer < 2 ^ 32"
    and "heap_mem h"
  shows "\<exists>h' F. jdParser_buildDom E Y buffer (word_of_nat (length buffer)) h = Ret (Some (brk h), None, h') \<and>
    rooted h (canon t) h' F \<and> heap_mem h' \<and> repr (cells h') (canon t) (brk h) F"
proof -
  obtain es1 es2 where es: "yajl_parse Y buffer = (es1, True)"
    "yajl_complete_parse Y buffer = (es2, True)" "es1 @ es2 = events t" "yajl_alloc_ok Y"
    using assms(1) unfolding yajl_reads_def by (metis prod.collapse)
  from assms(4) have mem: "heap_ok h" "\<forall>n. malloc_ok h n" by (auto simp: heap_mem_def)
  from buildDom_rooted [OF es(4,1,2,3) assms(2) len_cast [OF assms(3)] mem, of E]
  show ?thesis using mem by (auto simp: rooted_def heap_mem_def)
qed

lemma rooted_without:
  assumes "rooted h t h1 F" and "heap_mem h"
  shows "cells (without F h1) = cells h"
proof
  fix x
  show "cells (without F h1) x = cells h x"
    using assms by (cases "x < brk h") (auto simp: rooted_def cells_without heap_mem_def heap_ok_def)
qed

lemma fresh_without:
  assumes "fresh_tree h t q h1" and "heap_mem h"
  shows "cells (without {brk h..<brk h1} h1) = cells h"
proof
  fix x
  show "cells (without {brk h..<brk h1} h1) x = cells h x"
    using assms by (cases "x < brk h"; cases "x < brk h1")
      (auto simp: fresh_tree_def grown_def cells_without heap_mem_def heap_ok_def)
qed

lemma fresh_tree_without:
  assumes "fresh_tree h t r h1" and "F \<subseteq> {..<brk h}"
  shows "repr (cells (without F h1)) t r {brk h..<brk h1}"
proof (rule repr_frameI)
  show "repr (cells h1) t r {brk h..<brk h1}" using assms(1) by (simp add: fresh_tree_def)
  show "cells (without F h1) x = cells h1 x" if "x \<in> {brk h..<brk h1}" for x
    using that assms(2) by (auto simp: cells_without)
qed

lemma cells_without_cong: "cells h = cells h' \<Longrightarrow> cells (without F h) = cells (without F h')"
  by (simp add: without_def)

lemma message_served:
  assumes mem: "heap_mem h" and reads: "yajl_reads Y buffer (events t)" "small_strings t" "length buffer < 2 ^ 32"
    and serv: "servRequest P (canon t) s = Ret (resp, s')"
    and gen: "\<And>d. resp = Some d \<Longrightarrow> \<exists>out. jdGenerator_generate ord gen_text calloc_ok d = Ret out"
  shows "\<exists>out h'. message_cycle E Y P ord gen_text calloc_ok False buffer s h = Ret (out, s', h') \<and>
    cells h' = cells h \<and>
    (case resp of None \<Rightarrow> out = None
     | Some d \<Rightarrow> \<exists>text. out = Some text \<and> jdGenerator_generate ord gen_text calloc_ok d = Ret text)"
proof -
  obtain h1 F where p: "jdParser_buildDom E Y buffer (word_of_nat (length buffer)) h = Ret (Some (brk h), None, h1)"
    "rooted h (canon t) h1 F" "heap_mem h1" "repr (cells h1) (canon t) (brk h) F"
    using parsed_request [OF reads mem] by blast
  have F: "F \<subseteq> {..<brk h1}" using p by (intro heap_ok_repr) (auto simp: heap_mem_def)
  obtain q h2 where d: "heap_servRequest P (brk h) s h1 = Ret (q, s', h2)" "request_done h1 F resp q h2"
    using heap_servRequest_done [OF p(3,4) serv] by blast
  show ?thesis
  proof (cases resp)
    case None
    with d(2) have "q = None" "h2 = without F h1" by (simp_all add: request_done_def)
    with None p(1) d(1) rooted_without [OF p(2) mem] show ?thesis by (simp add: message_cycle_def)
  next
    case (Some x)
    with d(2) obtain r h3 where r: "q = Some r" "fresh_tree h1 x r h3" "h2 = without F h3" "heap_mem h2"
      by (auto simp: request_done_def)
    obtain out where out: "jdGenerator_generate ord gen_text calloc_ok x = Ret out" using gen Some by blast
    have "repr (cells h2) x r {brk h1..<brk h3}"
      unfolding r(3) by (rule fresh_tree_without [OF r(2) F])
    note w = heap_write_frees [OF r(4) this out]
    have "cells (without {brk h1..<brk h3} h2) = cells (without F (without {brk h1..<brk h3} h3))"
      by (simp add: r(3) Un_commute)
    also have "\<dots> = cells (without F h1)" by (rule cells_without_cong [OF fresh_without [OF r(2) p(3)]])
    also have "\<dots> = cells h" by (rule rooted_without [OF p(2) mem])
    finally show ?thesis using Some p(1) d(1) r(1) w out by (simp add: message_cycle_def)
  qed
qed

lemma message_refused:
  assumes mem: "heap_mem h" and reads: "yajl_reads Y buffer (events t)" "small_strings t" "length buffer < 2 ^ 32"
    and serv: "servQueueFull P (canon t) = Ret d"
    and gen: "jdGenerator_generate ord gen_text calloc_ok d = Ret text"
  shows "\<exists>h' F. message_cycle E Y P ord gen_text calloc_ok True buffer s h = Ret (Some text, s, h') \<and>
    rooted h (canon t) h' F"
proof -
  obtain h1 F where p: "jdParser_buildDom E Y buffer (word_of_nat (length buffer)) h = Ret (Some (brk h), None, h1)"
    "rooted h (canon t) h1 F" "heap_mem h1" "repr (cells h1) (canon t) (brk h) F"
    using parsed_request [OF reads mem] by blast
  obtain r h2 where r: "heap_servQueueFull P (brk h) h1 = Ret (r, h2)" "fresh_tree h1 d r h2"
    using heap_servQueueFull_fresh [OF p(3,4) serv] by blast
  then have *: "heap_mem h2" "repr (cells h2) d r {brk h1..<brk h2}" "brk h1 \<le> brk h2"
    by (auto simp: fresh_tree_def grown_def)
  let ?h3 = "without {brk h1..<brk h2} h2"
  have c: "cells ?h3 = cells h1" by (rule fresh_without [OF r(2) p(3)])
  have "heap_mem ?h3" by (rule free_node_mem(2) [OF *(1,2)])
  then have "rooted h (canon t) ?h3 F"
    using p(2,3) mem *(3) by (auto simp: rooted_def c heap_mem_def)
  with heap_write_frees [OF *(1,2) gen] p(1) r(1) show ?thesis by (auto simp: message_cycle_def)
qed

section \<open>Properties\<close>

lemma ping_served:
  "servRequest demo_posix (request_doc 7 ''ping'' (JMap [])) (demo_proc []) =
     Ret (Some (buildResponse 7 None (Some (JString ''pong''))), demo_proc [])"
  by (simp add: servRequest_dispatch [OF is_request_doc] exp_ping_def JsonNode_newFromString_def c_str_def
      getCallback_def exportedFunctions_def c_streq_def)

lemma ping_doc:
  "request_doc 7 ''ping'' (JMap []) =
     JMap [(''id'', JLong 7), (''methodName'', JString ''ping''), (''args'', JMap [])]"
  "wf_json (request_doc 7 ''ping'' (JMap []))" "small_strings (request_doc 7 ''ping'' (JMap []))"
  by (simp_all add: request_doc_def c_defs c_str_def nul_free_def)

lemma heap_mem_empty: "heap_mem empty_heap"
  by (simp add: heap_mem_def)

lemma cells_empty: "cells empty_heap = Map.empty"
  by (simp add: empty_heap_def)

text \<open>
  C7: on the node heap \<open>servRequest\<close> gives the response document \<open>Request\<close> specifies: it
  reads no node that is not allocated and frees each node of the request once; afterwards
  the nodes of the request are gone, those of the response are new and form a tree for that
  document, and every other node is as before. A request that gets no response is freed too.
\<close>

theorem request_replaced_by_response:
  assumes "heap_ok h" and "\<forall>n. malloc_ok h n" and "repr (cells h) req r F"
    and "servRequest P req s = Ret (resp, s')"
  shows "\<exists>q h' G. heap_servRequest P r s h = Ret (q, s', h') \<and>
    dom (cells h') = (dom (cells h) - F) \<union> G \<and> G \<inter> dom (cells h) = {} \<and>
    (\<forall>x. x \<notin> F \<union> G \<longrightarrow> cells h' x = cells h x) \<and>
    (case resp of None \<Rightarrow> q = None \<and> G = {} | Some t \<Rightarrow> \<exists>p. q = Some p \<and> repr (cells h') t p G)"
proof -
  have mem: "heap_mem h" using assms by (simp add: heap_mem_def)
  have F: "F \<subseteq> {..<brk h}" using assms by (intro heap_ok_repr)
  obtain q h' where d: "heap_servRequest P r s h = Ret (q, s', h')" "request_done h F resp q h'"
    using heap_servRequest_done [OF mem assms(3,4)] by blast
  show ?thesis
  proof (cases resp)
    case None
    with d show ?thesis
      by (intro exI [of _ q] exI [of _ h'] exI [of _ "{}"]) (auto simp: request_done_def cells_without dom_def)
  next
    case (Some t)
    with d obtain p h1 where p: "q = Some p" "fresh_tree h t p h1" "h' = without F h1"
      by (auto simp: request_done_def)
    let ?G = "{brk h..<brk h1}"
    have old: "cells h1 x = cells h x" if "x \<notin> ?G" for x
      using that p(2) mem by (cases "x < brk h") (auto simp: fresh_tree_def grown_def heap_mem_def heap_ok_def)
    have "repr (cells h') t p ?G" unfolding p(3) by (rule fresh_tree_without [OF p(2) F])
    moreover have "dom (cells h') = dom (cells h1) - F" by (auto simp: p(3) cells_without dom_def)
    then have "dom (cells h') = (dom (cells h) - F) \<union> ?G"
      using fresh_tree_dom [OF p(2) mem] F by auto
    moreover have "?G \<inter> dom (cells h) = {}" using assms(1) by (auto simp: heap_ok_def)
    ultimately show ?thesis
      using Some d(1) p old by (intro exI [of _ q] exI [of _ h'] exI [of _ ?G]) (auto simp: cells_without)
  qed
qed

lemma request_replaced_by_response_witness:
  "\<exists>h r F q h' G. repr (cells h) (request_doc 7 ''ping'' (JMap [])) r F \<and>
    heap_servRequest demo_posix r (demo_proc []) h = Ret (Some q, demo_proc [], h') \<and>
    dom (cells h') = G \<and> repr (cells h') (buildResponse 7 None (Some (JString ''pong''))) q G"
proof -
  obtain r h where h: "fresh_tree empty_heap (request_doc 7 ''ping'' (JMap [])) r h"
    using new_tree_fresh(1) [OF heap_mem_empty ping_doc(2)] by blast
  then have rep: "repr (cells h) (request_doc 7 ''ping'' (JMap [])) r {0..<brk h}"
    and mem: "heap_ok h" "\<forall>n. malloc_ok h n"
    by (auto simp: fresh_tree_def grown_def heap_mem_def)
  have "dom (cells h) = {0..<brk h}"
    using fresh_tree_dom [OF h heap_mem_empty] by (simp add: empty_heap_def)
  with request_replaced_by_response [OF mem rep ping_served] rep show ?thesis by fastforce
qed

text \<open>
  C6: no memory of a served message is left: after the message was parsed, the request
  served, and the response, if there is one, written out, the node heap holds what it held
  before; the text written is that of the response \<open>servRequest\<close> specifies.
\<close>

theorem served_message_leaves_no_node:
  assumes "heap_ok h" and "\<forall>n. malloc_ok h n"
    and "yajl_reads Y buffer (events t)" and "small_strings t" and "length buffer < 2 ^ 32"
    and "servRequest P (canon t) s = Ret (resp, s')"
    and "\<And>d. resp = Some d \<Longrightarrow> \<exists>text. jdGenerator_generate ord gen_text calloc_ok d = Ret text"
  shows "\<exists>out h'. message_cycle E Y P ord gen_text calloc_ok False buffer s h = Ret (out, s', h') \<and>
    cells h' = cells h \<and>
    (case resp of None \<Rightarrow> out = None
     | Some d \<Rightarrow> \<exists>text. out = Some text \<and> jdGenerator_generate ord gen_text calloc_ok d = Ret text)"
  using assms by (intro message_served) (simp_all add: heap_mem_def)

lemma served_message_leaves_no_node_witness:
  "\<forall>E. \<exists>h'. message_cycle E (yajl_for (request_doc 7 ''ping'' (JMap []))) demo_posix id (\<lambda>cs. ''pong'') (\<lambda>n. True)
     False ''ping'' (demo_proc []) empty_heap = Ret (Some (''pong'', 4), demo_proc [], h') \<and>
   cells h' = Map.empty"
proof
  fix E
  note canon_wf [OF ping_doc(2)]
  then have "servRequest demo_posix (canon (request_doc 7 ''ping'' (JMap []))) (demo_proc []) =
      Ret (Some (buildResponse 7 None (Some (JString ''pong''))), demo_proc [])"
    by (simp only: ping_served)
  from served_message_leaves_no_node [OF _ _ yajl_for_reads ping_doc(3) _ this, of empty_heap "''ping''" id
      "\<lambda>cs. ''pong''" "\<lambda>n. True" E]
  show "\<exists>h'. message_cycle E (yajl_for (request_doc 7 ''ping'' (JMap []))) demo_posix id (\<lambda>cs. ''pong'')
      (\<lambda>n. True) False ''ping'' (demo_proc []) empty_heap = Ret (Some (''pong'', 4), demo_proc [], h') \<and>
    cells h' = Map.empty"
    by (auto simp: jdGenerator_generate_def cells_empty)
qed

text \<open>
  C32: every refused request leaks: after the message was parsed, the request refused because
  the queue is full, and the refusal written out and freed, all nodes of the request are
  still allocated, and nothing refers to them any more.
\<close>

theorem refused_request_leaks:
  assumes "heap_ok h" and "\<forall>n. malloc_ok h n"
    and "yajl_reads Y buffer (events t)" and "small_strings t" and "length buffer < 2 ^ 32"
    and "servQueueFull P (canon t) = Ret d"
    and "jdGenerator_generate ord gen_text calloc_ok d = Ret text"
  shows "\<exists>h' F. message_cycle E Y P ord gen_text calloc_ok True buffer s h = Ret (Some text, s, h') \<and>
    repr (cells h') (canon t) (brk h) F \<and> F \<noteq> {} \<and> F \<inter> dom (cells h) = {} \<and>
    dom (cells h') = dom (cells h) \<union> F"
proof -
  have "heap_mem h" using assms by (simp add: heap_mem_def)
  from message_refused [OF this assms(3-7), of E s] obtain h' F where
    *: "message_cycle E Y P ord gen_text calloc_ok True buffer s h = Ret (Some text, s, h')"
      "rooted h (canon t) h' F" by blast
  then have "repr (cells h') (canon t) (brk h) F" "F \<subseteq> {brk h..<brk h'}" by (auto simp: rooted_def)
  moreover from this have "F \<noteq> {}" by (auto dest: repr_footprint(1))
  moreover have "{brk h..<brk h'} \<inter> dom (cells h) = {}" using assms(1) by (auto simp: heap_ok_def)
  ultimately show ?thesis using * rooted_cells(1) [OF *(2) assms(1)] by blast
qed

lemma refused_request_leaks_witness:
  "\<forall>E. \<exists>h' F. message_cycle E (yajl_for (JMap [(''id'', JLong 9)])) demo_posix id (\<lambda>cs. ''busy'') (\<lambda>n. True)
     True ''more'' (demo_proc []) empty_heap = Ret (Some (''busy'', 4), demo_proc [], h') \<and>
   F \<noteq> {} \<and> dom (cells h') = F"
proof
  fix E
  have "canon (JMap [(''id'', JLong 9)]) = JMap [(''id'', JLong 9)]"
    by (rule canon_wf) (simp add: nul_free_def)
  then have full: "servQueueFull demo_posix (canon (JMap [(''id'', JLong 9)])) =
      Ret (buildResponse 9 (Some (mk_error IOPROCESS_GENERAL_ERROR EAGAIN (iop_msg (strerr demo_posix) EAGAIN))) None)"
    by (simp add: servQueueFull_def safeGetArgValue_def safeGetArg_def c_str_def)
  from refused_request_leaks [OF _ _ yajl_for_reads _ _ full, of empty_heap "''more''" id
      "\<lambda>cs. ''busy''" "\<lambda>n. True" "(''busy'', 4)" E "demo_proc []"]
  show "\<exists>h' F. message_cycle E (yajl_for (JMap [(''id'', JLong 9)])) demo_posix id (\<lambda>cs. ''busy'') (\<lambda>n. True)
     True ''more'' (demo_proc []) empty_heap = Ret (Some (''busy'', 4), demo_proc [], h') \<and>
   F \<noteq> {} \<and> dom (cells h') = F"
    by (auto simp: jdGenerator_generate_def cells_empty)
qed

end
