(* ===== verification/Spec2Isabelle.thy ===== *)
theory Spec2Isabelle
  imports Lifecycle Serial Methods Reader_Safety Request_Heap
begin

text \<open>
  A verification development for ioprocess, the helper process that performs risky file
  operations for its parent. The parent writes requests, JSON documents with a length in front, to a
  pipe; the program reads them, runs each in a thread pool, and writes one response for
  each to a second pipe. The sources modelled are the C files of \<open>src/\<close>.

  How the program is put together. \<open>main\<close> (\<open>ioprocess.c\<close>) parses the options, closes inherited
  descriptors and starts three threads. \<open>requestReader\<close> takes messages off the pipe, has
  \<open>jdParser_buildDom\<close> (\<open>json-dom-parser.c\<close>) build a document (\<open>json-dom.c\<close>) and queues it.
  \<open>requestHandler\<close> pops requests, refuses one with \<open>servQueueFull\<close> when no slot is left,
  and pushes the others to a thread pool that runs \<open>servRequest\<close>: it looks up the method in
  the table \<open>exportedFunctions\<close>, calls it (\<open>exported-functions.c\<close>) and queues the response.
  \<open>responseWriter\<close> has \<open>jdGenerator_generate\<close> (\<open>json-dom-generator.c\<close>) write each response
  and sends it. Error texts come from \<open>utils.c\<close>.

  The theories, in the order they build on each other.

  \<^item> \<open>Prelude\<close>: outcomes of C code (a value, exit, undefined behaviour, a loop that never
    ends), C strings, error objects, machine integers, the conversion of integers to doubles.
  \<^item> \<open>Json_Dom\<close>: nodes as values, with the operations of \<open>json-dom.c\<close>; the locale
    \<open>string_map\<close> is the contract of a map of nodes, interpreted as \<open>node_map\<close>.
  \<^item> \<open>Json_Heap\<close>: the same operations on a heap of nodes with allocation and freeing; \<open>repr\<close>
    relates a node to the document and to the nodes it occupies. \<open>Json_Alloc\<close>: new trees.
  \<^item> \<open>Utils\<close>: \<open>iop_strerror\<close>. \<open>Posix\<close>: the system calls as fields of a record, the state of a
    process (system, \<open>errno\<close>, open descriptors), \<open>stdApiWrapper\<close>.
  \<^item> \<open>Json_Parser\<close>: the callbacks and \<open>jdParser_buildDom\<close>. \<open>Json_Build\<close>: on the events of a
    syntax tree they build the document it denotes, and free what duplicate keys replace.
    \<open>Json_Gen\<close>: the generator, and the round trip of both. \<open>Json_Safety\<close>: the parser on
    any sequence of events, with allocations that fail.
  \<^item> \<open>Args\<close>: extraction of arguments; the locale \<open>exported_function\<close> is the contract every
    exported function keeps (descriptors and well-formed results). \<open>Exported_Paths\<close>,
    \<open>Exported_Files\<close>, \<open>Exported_Probe\<close>: the 24 functions, each with its interpretation of
    the locale, and the functional behaviour of the larger ones. \<open>Request\<close>: the table,
    the dispatch and the response. \<open>Methods\<close>: what holds of all methods side by side, against
    a table of the arguments they take.
  \<^item> \<open>Transport\<close>: \<open>requestReader\<close> and \<open>responseWriter\<close> on pipes that cut transfers and fail;
    the locale \<open>framing\<close> is the contract of the length header, interpreted as \<open>wire\<close>.
    \<open>Reader_Safety\<close>: the reader on any bytes.
  \<^item> \<open>Pool\<close>: \<open>requestHandler\<close>, the workers, the queues and the shutdown as a step relation
    \<open>pool_step\<close>; the locale \<open>ending_system\<close> (an invariant and a measure that goes down) is
    interpreted as \<open>pool\<close>. \<open>Pool_Spec\<close>: a specification without threads that the steps refine.
    \<open>Serial\<close>: the threads with the system they work on; with one thread the program is a
    sequential server (\<open>serve_all\<close>).
  \<^item> \<open>Request_Heap\<close>: the functions of \<open>Request\<close> on the node heap, and the memory of a message
    from its text to the text of its response.
  \<^item> \<open>Startup\<close>: command line, inherited descriptors, log lines, the ends of the threads.
    \<open>Lifecycle\<close>: \<open>communicate\<close> and \<open>main\<close> as sequences of actions that end with the exit
    status, in a join that waits for ever, or in the use of a closed stream.
  \<^item> This theory: the components together, from the bytes of the requests to the bytes of
    the responses.

  How code became definitions. A function that returns is a HOL function; the state it
  changes is passed through; an error argument (\<open>GError **\<close>) is an option in the result. A use of a
  null, dangling or forged pointer, a store over the end of an object and an overflow of
  \<open>int\<close> that C leaves undefined are the outcome \<open>Undef\<close>. \<open>int\<close> and \<open>long\<close> are 32 and 64 bit
  words; casts are written out. Loops over data are recursive functions; the loops of the
  reader and the writer have termination proofs (every turn takes a byte off the pipe, or a choice
  of the kernel); the loops that need not end (\<open>write_loop\<close>, \<open>read_loop\<close>, \<open>pwrite_retry\<close>) are
  partial functions whose value \<open>None\<close> is a run without end, and the properties of
  \<open>readfile\<close>, \<open>writefile\<close> and \<open>probe_block_size\<close> show that they return. The only
  fuel is the depth of \<open>JsonNode_free\<close>, one more than the number of nodes ever allocated, which
  bounds the depth of every tree.

  What is a parameter. The kernel: each system call is a function of the state of the
  system, which is of any type; pipes are read and written by a schedule of transfer sizes and
  errors. The yajl library: the events it reports of a text and the text it makes of
  calls. glib: the base64 codec, the option parser, the iteration order of hash tables. What a
  property needs of them is a named hypothesis (\<open>accepts_writes\<close>, \<open>gives_reads\<close>,
  \<open>encodes\<close>, \<open>direct_io\<close>, \<open>yajl_reads\<close>, \<open>yajl_sane\<close>, \<open>permutes_keys\<close>), which its witness meets with a
  concrete system.

  What the properties show. \<open>session_answers_every_request\<close> and
  \<open>client_gets_every_answer\<close> are the program as a whole: every request of a stream is
  answered exactly once, with its id, for any interleaving and any cut of the transfers of the
  bodies (a header that is cut breaks the stream: \<open>short_header_rejected\<close>,
  \<open>short_header_write_unnoticed\<close>), as long as no allocation, thread start or transfer fails and
  the methods return;
  \<open>sequential_session\<close> shows more where there is one thread: the responses and the state of the
  system are those of the requests executed in order.
  \<open>parser_memory_safe\<close> and \<open>reader_memory_safe\<close> keep parser and reader inside their memory on
  any input (but for a string whose node cannot be allocated); \<open>served_message_leaves_no_node\<close> and \<open>request_replaced_by_response\<close> account for the
  memory of requests and responses; \<open>threads_refine_service\<close> relates the threads to a specification without
  threads. The others go component by component: bounds of the pool, order, termination, absence
  of deadlock; framing; round trips of documents; the functional behaviour of the exported
  functions; error behaviour, and the places where the code does not do what it means to
  do, which the manifest lists as findings.

  Not modelled. The Python client and the packaging. The calls that write log messages (they
  have no influence on requests or responses; that \<open>iop_strerror\<close>, which they call, keeps
  \<open>errno\<close> is a lemma). Allocations that fail outside the parser, the reader and the exported
  functions. The memory of strings, error objects and \<open>RequestParams\<close>; in the pool,
  where requests interleave, documents are values. Time.
\<close>

section \<open>The wire format, from end to end\<close>

lemma list_all2_conj_map:
  "list_all2 P xs ys \<Longrightarrow> (\<And>x y. P x y \<Longrightarrow> Q (f x) (g y)) \<Longrightarrow> list_all2 Q (map f xs) (map g ys)"
  by (simp add: list_all2_map1 list_all2_map2 list_all2_mono)

text \<open>
  What a document needs to travel: it is well formed, its strings fit, and the library
  reads the text it writes for it as the events its calls say.
\<close>

definition travels :: "(string list \<Rightarrow> string list) \<Rightarrow> (gen_call list \<Rightarrow> string) \<Rightarrow> yajl \<Rightarrow> json \<Rightarrow> bool" where
  "travels ord gen_text Y d \<longleftrightarrow> wf_json d \<and> small_strings d \<and>
     (let t = gen_text (jdGenerator_generate_node ord d) in
      t \<noteq> [] \<and> length t < 2 ^ 31 \<and> yajl_reads Y t (as_events [] (jdGenerator_generate_node ord d)))"

definition text_of :: "(string list \<Rightarrow> string list) \<Rightarrow> (gen_call list \<Rightarrow> string) \<Rightarrow> json \<Rightarrow> string" where
  "text_of ord gen_text d = gen_text (jdGenerator_generate_node ord d)"

lemma travels_generates:
  assumes "travels ord gen_text Y d"
  shows "generates (jdGenerator_generate ord gen_text (\<lambda>n. True)) d (text_of ord gen_text d)"
proof -
  have len: "length (text_of ord gen_text d) < 2 ^ 31" "text_of ord gen_text d \<noteq> []"
    using assms by (auto simp: travels_def text_of_def Let_def)
  then have "sint (word_of_nat (length (text_of ord gen_text d)) :: c_int) = int (length (text_of ord gen_text d))"
    by (simp add: signed_of_nat signed_take_bit_int_eq_self)
  with len show ?thesis
    by (simp add: generates_def jdGenerator_generate_def text_of_def Let_def)
qed

lemma travels_reads_as:
  assumes "permutes_keys ord" and "travels ord gen_text Y d"
  shows "reads_as Y (text_of ord gen_text d) (shuffle ord d)"
proof -
  have d: "wf_json d" "small_strings d" using assms(2) by (auto simp: travels_def)
  have "as_events [] (jdGenerator_generate_node ord d) = events (shuffle ord d)"
    using as_events_value [OF assms(1) d, of "[]" "[]"] by (simp add: value_pos_def)
  then show ?thesis
    using assms(2) small_shuffle [OF assms(1) d]
    by (auto simp: travels_def reads_as_def text_of_def Let_def)
qed

lemma stream_reads_back:
  assumes "permutes_keys ord" and "list_all (travels ord gen_text Y) ds"
    and "good_wsched (map (\<lambda>d. length (text_of ord gen_text d)) ds) wsch"
    and "good_sched (map (text_of ord gen_text) ds) sch"
  shows "\<exists>bytes us. responseWriter E (jdGenerator_generate ord gen_text (\<lambda>n. True)) ds
      \<lparr>outbuf = [], wsched = wsch\<rparr> = Ret (bytes, None, False) \<and>
    requestReader E Y (\<lambda>n. None) \<lparr>inbuf = bytes, sched = sch\<rparr> = Ret (us, new_thread_result E EPIPE) \<and>
    list_all2 json_sim ds us"
proof -
  let ?G = "jdGenerator_generate ord gen_text (\<lambda>n. True)" and ?t = "text_of ord gen_text"
  have "list_all2 (generates ?G) ds (map ?t ds)"
    using assms(2) travels_generates by (induction ds) auto
  from writer_stream [OF this, of "writer_init \<lparr>outbuf = [], wsched = wsch\<rparr>"] assms(3)
  have w: "responseWriter E ?G ds \<lparr>outbuf = [], wsched = wsch\<rparr> = Ret (concat (map frame (map ?t ds)), None, False)"
    by (simp add: responseWriter_def writer_init_def new_thread_result_def comp_def)
  have "list_all2 (reads_as Y) (map ?t ds) (map (shuffle ord) ds)"
    using assms(2) travels_reads_as [OF assms(1)] by (induction ds) auto
  note s = reads_as_stream [OF this, of E]
  have r: "requestReader E Y (\<lambda>n. None) \<lparr>inbuf = concat (map frame (map ?t ds)), sched = sch\<rparr> =
      Ret (map canon (map (shuffle ord) ds), new_thread_result E EPIPE)"
    using reader_stream [OF s, of "reader_init \<lparr>inbuf = concat (map frame (map ?t ds)), sched = sch\<rparr>"] assms(4)
    by (simp add: requestReader_def reader_init_def)
  have "list_all2 json_sim ds (map canon (map (shuffle ord) ds))"
    using assms(2) json_sim_shuffle [OF assms(1)] canon_wf wf_shuffle [OF assms(1)]
    by (induction ds) (auto simp: travels_def)
  with w r show ?thesis by blast
qed

text \<open>
  C13: what one end writes the other reads: the bytes \<open>responseWriter\<close> puts on a pipe for a
  queue of documents, read by \<open>requestReader\<close>, deliver the same documents in the same order,
  up to the order of map members, however both ends' transfers of the bodies are cut, where
  no transfer fails (but for writes told to try again) and those of the 8 bytes of a header
  are whole.
\<close>

theorem written_stream_reads_back:
  assumes "permutes_keys ord" and "list_all (travels ord gen_text Y) ds"
    and "good_wsched (map (\<lambda>d. length (text_of ord gen_text d)) ds) wsch"
    and "good_sched (map (text_of ord gen_text) ds) sch"
  shows "\<exists>bytes us. responseWriter E (jdGenerator_generate ord gen_text (\<lambda>n. True)) ds
      \<lparr>outbuf = [], wsched = wsch\<rparr> = Ret (bytes, None, False) \<and>
    requestReader E Y (\<lambda>n. None) \<lparr>inbuf = bytes, sched = sch\<rparr> = Ret (us, new_thread_result E EPIPE) \<and>
    list_all2 json_sim ds us"
  using assms by (rule stream_reads_back)

lemma demo_travels:
  "m \<noteq> [] \<Longrightarrow> hd m \<noteq> CHR 0x00 \<Longrightarrow> length m < 2 ^ 31 \<Longrightarrow> travels id demo_text demo_yajl (JString m)"
  using yajl_gen_string_small [of m]
  by (simp add: travels_def Let_def yajl_reads_def demo_yajl_def)

lemma written_stream_reads_back_witness:
  "\<exists>bytes us. responseWriter demo_env (jdGenerator_generate id demo_text (\<lambda>n. True)) [JString ''ab'', JString ''c'']
      \<lparr>outbuf = [], wsched = [Wrote 8, WrErr EAGAIN, Wrote 1]\<rparr> = Ret (bytes, None, False) \<and>
    requestReader demo_env demo_yajl (\<lambda>n. None) \<lparr>inbuf = bytes, sched = [Upto 8, Upto 1]\<rparr> =
      Ret (us, new_thread_result demo_env EPIPE) \<and>
    list_all2 json_sim [JString ''ab'', JString ''c''] us"
proof (rule written_stream_reads_back)
  show "list_all (travels id demo_text demo_yajl) [JString ''ab'', JString ''c'']"
    by (simp add: demo_travels)
  show "good_wsched (map (\<lambda>d. length (text_of id demo_text d)) [JString ''ab'', JString ''c''])
      [Wrote 8, WrErr EAGAIN, Wrote 1]"
    by (simp add: text_of_def yajl_gen_string_def MAX_RW_COUNT_def)
  show "good_sched (map (text_of id demo_text) [JString ''ab'', JString ''c'']) [Upto 8, Upto 1]"
    by (simp add: text_of_def yajl_gen_string_def MAX_RW_COUNT_def)
qed (simp add: permutes_keys_def)

section \<open>A session, from the request stream to the responses\<close>

definition session_config :: "'w posix \<Rightarrow> options \<Rightarrow> config" where
  "session_config P opts = config_of opts (served_by P) (refusal_by P) False"

text \<open>
  The id of a request or a response, and the requests the program answers: they name an id
  and a method, and their handler returns in whatever state of the process it is run.
\<close>

definition doc_id :: "json \<Rightarrow> json option" where
  "doc_id d = map_get d ''id''"

definition answerable :: "'w posix \<Rightarrow> json \<Rightarrow> bool" where
  "answerable P req \<longleftrightarrow> (\<exists>i m. is_request req i m) \<and>
     (\<forall>s. \<exists>resp s'. servRequest P req s = Ret (resp, s'))"

lemma answerable_served: "answerable P req \<Longrightarrow> \<exists>resp. served_by P req resp"
  unfolding answerable_def served_by_def by blast

lemma answer_has_id:
  assumes "is_request req i m" and "served_by P req resp \<or> resp = Some (refusal_by P req)"
  shows "\<exists>d. resp = Some d \<and> doc_id d = doc_id req"
proof -
  have id: "doc_id req = Some (JLong i)" "is_JMap req"
    using assms(1) by (simp_all add: is_request_def doc_id_def)
  from assms(2) show ?thesis
  proof
    assume "served_by P req resp"
    then obtain s s' where "servRequest P req s = Ret (resp, s')" by (auto simp: served_by_def)
    then obtain e v where "resp = Some (buildResponse i e v)"
      using servRequest_response [OF assms(1)] by blast
    with id show ?thesis by (simp add: doc_id_def response_fields)
  next
    assume r: "resp = Some (refusal_by P req)"
    have "safeGetArgValues (Some req) [(''id'', JT_LONG, TLong, VLong (- 1))] = Ret ([VLong i], None)"
      using id by (simp add: safeGetArgValue_def safeGetArg_def doc_id_def is_JMap_def map_get_def)
    with r id show ?thesis
      by (simp add: refusal_by_def servQueueFull_def doc_id_def response_fields Let_def)
  qed
qed

lemma sim_doc_id:
  assumes "json_sim d u" and "doc_id d = Some (JLong i)"
  shows "doc_id u = Some (JLong i)"
proof -
  obtain a where a: "d = JMap a" using assms(2) by (cases d) (auto simp: doc_id_def map_get_def)
  with assms(1) obtain b where b: "u = JMap b" by (cases u) auto
  have "(''id'', JLong i) \<in> set a" using assms(2) a by (auto simp: doc_id_def c_str_def dest: map_of_SomeD)
  with assms(1) a b obtain w where "map_of b ''id'' = Some w" "json_sim (JLong i) w"
    by (fastforce simp: list_all_iff split: option.splits)
  then show ?thesis using b by (cases w) (auto simp: doc_id_def c_str_def)
qed

lemma answered_ids:
  assumes "\<forall>(req, resp) \<in> set al. \<exists>d. resp = Some d \<and> f d = f req"
  shows "mset (map f (List.map_filter snd al)) = mset (map (f \<circ> fst) al)"
  using assms by (induction al) (auto split: option.split)

lemma session_answers:
  assumes "list_all2 (reads_as Y) ms ts" and "good_sched ms (sched p)"
    and "inbuf p = concat (map frame ms)" and "\<forall>n. M n = None"
    and "requestReader E Y M p = Ret (docs, err)"
    and "list_all (\<lambda>t. answerable P (canon t)) ts"
    and "valid_config (session_config P opts)"
    and "(pool_step (session_config P opts))\<^sup>*\<^sup>* (start (session_config P opts) docs) s"
    and "\<forall>t. \<not> pool_step (session_config P opts) s t"
  shows "docs = map canon ts \<and> mset (map doc_id (written s)) = mset (map doc_id docs)"
proof -
  let ?c = "session_config P opts"
  have docs: "docs = map canon ts"
    using reader_stream [OF reads_as_stream [OF assms(1)], of "reader_init p" M E] assms(2-5)
    by (simp add: requestReader_def reader_init_def)
  have c: "serves ?c = served_by P" "refusal ?c = refusal_by P" "\<not> may_fail ?c"
    by (simp_all add: session_config_def config_of_def)
  have all: "all_served ?c docs"
    using assms(6) answerable_served by (auto simp: all_served_def docs c list_all_iff)
  have inv: "pool_inv ?c docs s" by (rule pool.inv_reachable [OF refl assms(8)])
  have d: "drained s" using assms(7,9) c(3) all inv by (intro stuck_drained) auto
  note fin = drained_answers [OF inv c(3) d]
  have "\<exists>d. resp = Some d \<and> doc_id d = doc_id req" if "(req, resp) \<in> set (answered s)" for req resp
  proof -
    have "req \<in> set docs" using that fin(1) by (metis image_eqI fst_conv list.set_map mset_eq_setD)
    then obtain i m where "is_request req i m"
      using assms(6) by (auto simp: docs list_all_iff answerable_def)
    then show ?thesis
      using that inv by (intro answer_has_id [of req i m P]) (auto simp: pool_inv_def answers_ok_def list_all_iff c)
  qed
  then have "mset (map doc_id (written s)) = mset (map (doc_id \<circ> fst) (answered s))"
    unfolding fin(2) responses_def by (intro answered_ids) auto
  also have "\<dots> = image_mset doc_id (mset (map fst (answered s)))"
    by (simp add: multiset.map_comp)
  also have "\<dots> = mset (map doc_id docs)" unfolding fin(1) by simp
  finally show ?thesis using docs by simp
qed


lemma ping_answerable:
  "served_by demo_posix ping_request (Some pong_response)"
  "answerable demo_posix ping_request" "canon ping_request = ping_request"
proof -
  show served: "served_by demo_posix ping_request (Some pong_response)"
    using ping_returns unfolding served_by_def by blast
  show "answerable demo_posix ping_request" using ping_is_request ping_returns by (auto simp: answerable_def)
  show "canon ping_request = ping_request"
    by (rule canon_wf) (simp add: ping_request_def nul_free_def)
qed

abbreviation ping_config :: config where
  "ping_config \<equiv> session_config demo_posix demo_options"

lemma ping_session:
  "list_all2 (reads_as (yajl_for ping_request)) [''q''] [ping_request]"
  "requestReader demo_env (yajl_for ping_request) (\<lambda>n. None) \<lparr>inbuf = frame ''q'', sched = []\<rparr> =
     Ret ([ping_request], new_thread_result demo_env EPIPE)"
  "list_all (\<lambda>t. answerable demo_posix (canon t)) [ping_request]"
  "valid_config ping_config"
  "(pool_step ping_config)\<^sup>*\<^sup>* (start ping_config [ping_request]) (one_answered ping_config ping_request pong_response)"
proof -
  let ?c = ping_config
  have c: "capped ?c" "0 < MAX_THREADS ?c" "queueSlotsLeft (start ?c []) - 1 \<noteq> 0"
    by (simp_all add: session_config_def config_of_def demo_options_def default_options_def capped_def start_def)
  show reads: "list_all2 (reads_as (yajl_for ping_request)) [''q''] [ping_request]"
    using yajl_for_reads [of ping_request "''q''"] by (simp add: reads_as_def) (simp add: ping_request_def)
  show "requestReader demo_env (yajl_for ping_request) (\<lambda>n. None) \<lparr>inbuf = frame ''q'', sched = []\<rparr> =
     Ret ([ping_request], new_thread_result demo_env EPIPE)"
    using reader_stream [OF reads_as_stream [OF reads], of "reader_init \<lparr>inbuf = frame ''q'', sched = []\<rparr>" "\<lambda>n. None" demo_env]
      ping_answerable(3)
    by (simp add: requestReader_def reader_init_def)
  show "list_all (\<lambda>t. answerable demo_posix (canon t)) [ping_request]"
    using ping_answerable by simp
  show "valid_config ?c"
    by (simp add: session_config_def config_of_def demo_options_def default_options_def capped_def valid_config_def cap_def)
  have "serves ?c ping_request (Some pong_response)"
    using ping_answerable(1) by (simp add: session_config_def config_of_def)
  from one_request_run [OF c this]
  show "(pool_step ?c)\<^sup>*\<^sup>* (start ?c [ping_request]) (one_answered ?c ping_request pong_response)" .
qed


text \<open>
  C2: from bytes to bytes: in such a session (under the conditions of the previous property),
  the bytes the program has written, read by a client that speaks the same framing and reads
  what the library writes, are exactly one response for every request of the stream, with its
  id. Both ends move the 8 bytes of a header in one piece; the transfers of the bodies may be
  cut in any way (and the writes of them told to try again), and the library may give the
  members of maps any order.
\<close>

theorem client_gets_every_answer:
  assumes "list_all2 (reads_as Y) ms ts" and "good_sched ms (sched p)"
    and "inbuf p = concat (map frame ms)" and "\<forall>n. M n = None"
    and "requestReader E Y M p = Ret (docs, err)"
    and "list_all (\<lambda>t. answerable P (canon t)) ts"
    and "valid_config (session_config P opts)"
    and "(pool_step (session_config P opts))\<^sup>*\<^sup>* (start (session_config P opts) docs) s"
    and "\<forall>t. \<not> pool_step (session_config P opts) s t"
    and "permutes_keys ord" and "list_all (travels ord gen_text Y') (written s)"
    and "good_wsched (map (\<lambda>d. length (text_of ord gen_text d)) (written s)) wsch"
    and "good_sched (map (text_of ord gen_text) (written s)) sch"
  shows "\<exists>bytes us. responseWriter E (jdGenerator_generate ord gen_text (\<lambda>n. True)) (written s)
      \<lparr>outbuf = [], wsched = wsch\<rparr> = Ret (bytes, None, False) \<and>
    requestReader E Y' (\<lambda>n. None) \<lparr>inbuf = bytes, sched = sch\<rparr> = Ret (us, new_thread_result E EPIPE) \<and>
    length us = length ms \<and> mset (map doc_id us) = mset (map doc_id (map canon ts))"
proof -
  note served = session_answers [OF assms(1-9)]
  from stream_reads_back [OF assms(10-13), of E] obtain bytes us where
    b: "responseWriter E (jdGenerator_generate ord gen_text (\<lambda>n. True)) (written s)
      \<lparr>outbuf = [], wsched = wsch\<rparr> = Ret (bytes, None, False)"
    "requestReader E Y' (\<lambda>n. None) \<lparr>inbuf = bytes, sched = sch\<rparr> = Ret (us, new_thread_result E EPIPE)"
    "list_all2 json_sim (written s) us"
    by blast
  have "list_all (\<lambda>d. \<exists>i. doc_id d = Some (JLong i)) (written s)"
  proof -
    have "set (map doc_id (written s)) = set (map doc_id docs)"
      using served by (metis mset_eq_setD)
    moreover have "\<exists>i. doc_id d = Some (JLong i)" if "d \<in> set docs" for d
      using that served assms(6) by (auto simp: list_all_iff answerable_def is_request_def doc_id_def)
    ultimately show ?thesis unfolding list_all_iff by (metis image_eqI imageE list.set_map)
  qed
  with b(3) have "map doc_id us = map doc_id (written s)"
    by (induction rule: list_all2_induct) (auto dest: sim_doc_id)
  moreover have "length ts = length ms" using assms(1) by (simp add: list_all2_lengthD)
  moreover have "length (written s) = length docs" using served by (metis length_map size_mset)
  ultimately show ?thesis using b served by (metis length_map)
qed

text \<open>The client of the witness: its library reads any text as the response.\<close>

definition client_yajl :: yajl where
  "client_yajl = \<lparr>yajl_alloc_ok = True,
     yajl_parse = (\<lambda>m. (as_events [] (jdGenerator_generate_node id pong_response), True)),
     yajl_complete_parse = (\<lambda>m. ([], True))\<rparr>"

lemma pong_travels: "travels id (\<lambda>cs. ''r'') client_yajl pong_response"
  by (simp add: travels_def yajl_reads_def client_yajl_def pong_response_def response_layout nul_free_def c_str_def)

lemma client_gets_every_answer_witness:
  "\<exists>bytes us. responseWriter demo_env (jdGenerator_generate id (\<lambda>cs. ''r'') (\<lambda>n. True)) [pong_response]
      \<lparr>outbuf = [], wsched = []\<rparr> = Ret (bytes, None, False) \<and>
    requestReader demo_env client_yajl (\<lambda>n. None) \<lparr>inbuf = bytes, sched = []\<rparr> = Ret (us, new_thread_result demo_env EPIPE) \<and>
    mset (map doc_id us) = {# Some (JLong 7) #}"
proof -
  let ?s = "one_answered ping_config ping_request pong_response"
  have w: "written ?s = [pong_response]" by (simp add: one_answered_def)
  have i: "doc_id (canon ping_request) = Some (JLong 7)"
    unfolding ping_answerable(3) by (simp add: doc_id_def ping_request_def c_str_def)
  from client_gets_every_answer [OF ping_session(1) _ _ _ ping_session(2,3,4,5), of id "\<lambda>cs. ''r''" client_yajl "[]" "[]"]
    pong_travels drained_stuck [OF one_answered_drained]
  show ?thesis by (simp add: w i permutes_keys_def) blast
qed

text \<open>
  C3: a session with one thread and no limit on the queue, from bytes to bytes: the program is a
  loop that reads a request, executes it and writes its response. Once it has come to rest, a
  client that reads the bytes it has written gets the responses of the requests of the
  stream, executed one after the other in the order in which they came in, in that order, up
  to the order of map members; and the system is in the state this leaves.
\<close>

theorem sequential_session:
  assumes "list_all2 (reads_as Y) ms ts" and "good_sched ms (sched p)"
    and "inbuf p = concat (map frame ms)" and "\<forall>n. M n = None"
    and "requestReader E Y M p = Ret (docs, err)"
    and "opt_max_threads opts = 1" and "opt_max_queued opts < 0"
    and "serve_all P (map canon ts) w0 = Ret (resps, w1)"
    and "(exec_step P (session_config P opts))\<^sup>*\<^sup>* (start (session_config P opts) docs, w0) (s, w)"
    and "\<forall>y. \<not> exec_step P (session_config P opts) (s, w) y"
    and "permutes_keys ord" and "list_all (travels ord gen_text Y') (List.map_filter id resps)"
    and "good_wsched (map (\<lambda>d. length (text_of ord gen_text d)) (List.map_filter id resps)) wsch"
    and "good_sched (map (text_of ord gen_text) (List.map_filter id resps)) sch"
  shows "w = w1 \<and> (\<exists>bytes us. responseWriter E (jdGenerator_generate ord gen_text (\<lambda>n. True)) (written s)
      \<lparr>outbuf = [], wsched = wsch\<rparr> = Ret (bytes, None, False) \<and>
    requestReader E Y' (\<lambda>n. None) \<lparr>inbuf = bytes, sched = sch\<rparr> = Ret (us, new_thread_result E EPIPE) \<and>
    list_all2 json_sim (List.map_filter id resps) us)"
proof -
  let ?c = "session_config P opts"
  have docs: "docs = map canon ts"
    using reader_stream [OF reads_as_stream [OF assms(1)], of "reader_init p" M E] assms(2-5)
    by (simp add: requestReader_def reader_init_def)
  have c: "MAX_THREADS ?c = 1" "\<not> capped ?c" "\<not> may_fail ?c" "serves ?c = served_by P"
    using assms(6,7) by (simp_all add: session_config_def config_of_def capped_def)
  from one_thread_serial [OF c] assms(8-10) docs have
    "w = w1" and out: "written s = List.map_filter id resps"
    by blast+
  with stream_reads_back [OF assms(11-14)] show ?thesis by simp
qed

definition one_thread_options :: options where
  "one_thread_options = demo_options\<lparr>opt_max_threads := 1, opt_max_queued := - 1\<rparr>"

lemma sequential_session_witness:
  "\<exists>s bytes us. (exec_step demo_posix (session_config demo_posix one_thread_options))\<^sup>*\<^sup>*
      (start (session_config demo_posix one_thread_options) [ping_request], demo_proc []) (s, demo_proc []) \<and>
    responseWriter demo_env (jdGenerator_generate id (\<lambda>cs. ''r'') (\<lambda>n. True)) (written s)
      \<lparr>outbuf = [], wsched = []\<rparr> = Ret (bytes, None, False) \<and>
    requestReader demo_env client_yajl (\<lambda>n. None) \<lparr>inbuf = bytes, sched = []\<rparr> = Ret (us, new_thread_result demo_env EPIPE) \<and>
    list_all2 json_sim [pong_response] us"
proof -
  let ?c = "session_config demo_posix one_thread_options"
  have opts: "opt_max_threads one_thread_options = 1" "opt_max_queued one_thread_options < 0"
    by (simp_all add: one_thread_options_def)
  have c: "MAX_THREADS ?c = 1" "\<not> capped ?c" "\<not> may_fail ?c" "serves ?c = served_by demo_posix"
    using opts by (simp_all add: session_config_def config_of_def capped_def)
  have all: "serve_all demo_posix (map canon [ping_request]) (demo_proc []) = Ret ([Some pong_response], demo_proc [])"
    by (simp add: ping_returns ping_answerable(3))
  from one_thread_serial [OF c all] ping_answerable(3) obtain s w where
    run: "(exec_step demo_posix ?c)\<^sup>*\<^sup>* (start ?c [ping_request], demo_proc []) (s, w)"
    and rest: "\<forall>y. \<not> exec_step demo_posix ?c (s, w) y"
    by (metis list.simps(8,9) rtranclp.rtrancl_refl surj_pair)
  from sequential_session [OF ping_session(1) _ _ _ ping_session(2) opts all run rest,
      of id "\<lambda>cs. ''r''" client_yajl "[]" "[]"] pong_travels run
  show ?thesis by (simp add: permutes_keys_def) blast
qed

end
